theory Spec2Isabelle
  imports Complex_Main "HOL-Library.Multiset"
begin

section \<open>Data model\<close>

text \<open>
  The development follows the C++ sources \<^verbatim>\<open>BTree.h\<close>, \<^verbatim>\<open>DoublyLL.h\<close>,
  \<^verbatim>\<open>CircularLL.h\<close> and \<^verbatim>\<open>IPFS.h\<close>.

  Integers: every \<^verbatim>\<open>int\<close> of the source is an \<^typ>\<open>int\<close> here. The identifier space is
  \<open>1 << bits\<close>; for \<open>bits \<le> 30\<close> and machine IDs inside the identifier space no
  expression of the modelled functions leaves the 32-bit range, so nothing wraps. The
  theorems below carry that bound (\<open>valid_config\<close>).

  Console output is not modelled, except where a function's only report of an outcome is
  a message; there the message is a flag of the result.
\<close>

subsection \<open>File records and B-tree nodes (BTree.h)\<close>

datatype FileNode = FileNode (fkey: int) (fpath: string)

text \<open>
  A \<^verbatim>\<open>BTreeNode*\<close> is \<open>Null\<close> or a node with its fields \<^verbatim>\<open>MAX\<close>, \<^verbatim>\<open>MIN\<close>, the pointer
  \<^verbatim>\<open>child[0]\<close>, and the live part of the two arrays: the pairs
  \<^verbatim>\<open>(value[i], child[i])\<close> for \<open>i = 1 .. count\<close>. The field \<^verbatim>\<open>count\<close> is the length of that
  list. The source always moves \<^verbatim>\<open>value[i]\<close> and \<^verbatim>\<open>child[i]\<close> together, and a node is
  owned by exactly one parent slot, so the tree of pointers is a tree of values.
  Array slots past \<^verbatim>\<open>count\<close> hold stale data in the source; a function of the model
  that would read one returns \<open>None\<close>.
\<close>

datatype BTreeNode =
    Null
  | BTreeNode (nMAX: int) (nMIN: int) (child0: BTreeNode) (entries: "(FileNode \<times> BTreeNode) list")

subsection \<open>Finger tables and machines (DoublyLL.h, CircularLL.h)\<close>

text \<open>
  A finger entry (\<^verbatim>\<open>DoublyNode\<close>): the target \<^verbatim>\<open>filekey\<close>, the cached successor's ID
  \<^verbatim>\<open>machinekey\<close> and the pointer \<^verbatim>\<open>m\<close> to the successor machine. The doubly linked
  list is the list of its entries in \<^verbatim>\<open>next\<close> order. A pointer to a machine is the
  machine's position in the ring counted from \<^verbatim>\<open>head\<close>; \<open>None\<close> is \<^verbatim>\<open>nullptr\<close>.
\<close>

record DoublyNode =
  filekey :: int
  machinekey :: int
  m_ptr :: "nat option"

record CircularNode =
  key :: int
  RT :: "DoublyNode list"
  BTreeroot :: BTreeNode

text \<open>
  The ring (\<^verbatim>\<open>CircularLinkedList\<close>): \<open>nodes\<close> lists the machines from \<^verbatim>\<open>head\<close> along
  \<^verbatim>\<open>next\<close>; the \<^verbatim>\<open>next\<close> of the last machine is \<^verbatim>\<open>head\<close>, and the empty list is
  \<^verbatim>\<open>head == nullptr\<close>.
\<close>

record CircularLinkedList =
  nodes :: "CircularNode list"
  identifierSpace :: int
  bits :: int
  btreeOrder :: int

section \<open>Arithmetic helpers\<close>

text \<open>The C++ remainder \<^verbatim>\<open>a % b\<close> truncates towards zero.\<close>

definition cpp_rem :: "int \<Rightarrow> int \<Rightarrow> int" where
  "cpp_rem a b = sgn a * (\<bar>a\<bar> mod \<bar>b\<bar>)"

text \<open>
  \<^verbatim>\<open>static_cast<int>(log2(x))\<close> for a positive \<^verbatim>\<open>int\<close>: the integer part of the binary
  logarithm (the double is exact on powers of two). The source only calls it on the
  identifier space, which is positive; the model gives 0 below 2.
\<close>

function ilog2 :: "int \<Rightarrow> nat" where
  "ilog2 n = (if n < 2 then 0 else Suc (ilog2 (n div 2)))"
  by pat_completeness auto
termination
  by (relation "measure nat") auto

declare ilog2.simps [simp del]

text \<open>The first position of a list whose element satisfies a test.\<close>

fun first_index :: "('a \<Rightarrow> bool) \<Rightarrow> 'a list \<Rightarrow> nat option" where
  "first_index P [] = None"
| "first_index P (x # xs) = (if P x then Some 0 else map_option Suc (first_index P xs))"

text \<open>The C++ quotient \<^verbatim>\<open>a / b\<close> truncates towards zero as well.\<close>

definition cpp_div :: "int \<Rightarrow> int \<Rightarrow> int" where
  "cpp_div a b = sgn a * sgn b * (\<bar>a\<bar> div \<bar>b\<bar>)"

section \<open>The B-tree (BTree.h)\<close>

text \<open>
  Functions that dereference a node pointer or read an array slot return an option:
  \<open>None\<close> stands for a null dereference or for a read of a slot outside
  \<open>1 .. count\<close> (\<open>0 .. count\<close> for \<^verbatim>\<open>child\<close>), whose content the model does not carry.
  The theorems show that neither happens on the trees the operations build.
\<close>

text \<open>The constructor \<^verbatim>\<open>BTreeNode(int order)\<close> computes \<^verbatim>\<open>MAX\<close> and \<^verbatim>\<open>MIN\<close>.\<close>

definition MAX_of :: "int \<Rightarrow> int" where
  "MAX_of ord = ord - 1"

definition MIN_of :: "int \<Rightarrow> int" where
  "MIN_of ord =
     (let m0 = (if cpp_rem ord 2 = 0 then cpp_div ord 2 else cpp_div ord 2 + 1);
          m1 = m0 - 1
      in if m1 < 1 then 1 else m1)"

definition count :: "BTreeNode \<Rightarrow> nat" where
  "count n = length (entries n)"

text \<open>\<^verbatim>\<open>n->value[i]\<close> and \<^verbatim>\<open>n->child[i]\<close> for a position inside the live part.\<close>

definition "value" :: "BTreeNode \<Rightarrow> nat \<Rightarrow> FileNode" where
  "value n i = fst (entries n ! (i - 1))"

definition child :: "BTreeNode \<Rightarrow> nat \<Rightarrow> BTreeNode" where
  "child n i =
     (case n of
        Null \<Rightarrow> Null
      | BTreeNode mx mn c0 es \<Rightarrow>
          if i = 0 then c0 else if i \<le> length es then snd (es ! (i - 1)) else Null)"

text \<open>The node after the assignments \<^verbatim>\<open>n->value[i] = f\<close> and \<^verbatim>\<open>n->child[i] = c\<close>.\<close>

definition set_value :: "BTreeNode \<Rightarrow> nat \<Rightarrow> FileNode \<Rightarrow> BTreeNode" where
  "set_value n i f =
     (case n of
        Null \<Rightarrow> Null
      | BTreeNode mx mn c0 es \<Rightarrow> BTreeNode mx mn c0 (es[i - 1 := (f, snd (es ! (i - 1)))]))"

definition set_child :: "BTreeNode \<Rightarrow> nat \<Rightarrow> BTreeNode \<Rightarrow> BTreeNode" where
  "set_child n i c =
     (case n of
        Null \<Rightarrow> Null
      | BTreeNode mx mn c0 es \<Rightarrow>
          if i = 0 then BTreeNode mx mn c es
          else BTreeNode mx mn c0 (es[i - 1 := (fst (es ! (i - 1)), c)]))"

text \<open>
  \<^verbatim>\<open>searchNode\<close>: position 0 when the key is below \<^verbatim>\<open>value[1]\<close>; otherwise the scan
  from \<^verbatim>\<open>count\<close> downwards while the key is below \<^verbatim>\<open>value[pos]\<close> and \<open>pos > 1\<close>. The
  result is the returned flag and \<^verbatim>\<open>*pos\<close>. On a node with \<open>count = 0\<close> the source
  compares with the slot \<^verbatim>\<open>value[1]\<close> past \<^verbatim>\<open>count\<close>.
\<close>

fun searchNode_loop :: "int \<Rightarrow> (FileNode \<times> BTreeNode) list \<Rightarrow> nat \<Rightarrow> nat" where
  "searchNode_loop k es 0 = 0"
| "searchNode_loop k es (Suc p) =
     (if k < fkey (fst (es ! p)) \<and> Suc p > 1 then searchNode_loop k es p else Suc p)"

definition searchNode :: "int \<Rightarrow> BTreeNode \<Rightarrow> (bool \<times> nat) option" where
  "searchNode k n =
     (case n of
        Null \<Rightarrow> None
      | BTreeNode mx mn c0 es \<Rightarrow>
          if es = [] then None
          else if k < fkey (fst (es ! 0)) then Some (False, 0)
          else let pos = searchNode_loop k es (length es)
               in Some (k = fkey (fst (es ! (pos - 1))), pos))"

text \<open>
  \<^verbatim>\<open>search\<close> with \<^verbatim>\<open>findFile\<close>: the record found, if any. The position that
  \<^verbatim>\<open>searchNode\<close> returns is at most \<^verbatim>\<open>count\<close>, so \<open>child\<close> is read inside the live
  part.
\<close>

lemma size_entry_child:
  assumes "j < length es"
  shows "size (snd (es ! j)) < Suc (size_list (size_prod (\<lambda>x. 0) size) es)"
proof -
  have "es ! j \<in> set es" using assms by simp
  then have "size_prod (\<lambda>x. 0) size (es ! j) \<le> size_list (size_prod (\<lambda>x. 0) size) es"
    by (simp add: size_list_estimation')
  then show ?thesis by (cases "es ! j") simp
qed

lemma size_child: "n \<noteq> Null \<Longrightarrow> size (child n i) < size n"
proof (cases n)
  case Null
  assume "n \<noteq> Null"
  with Null show ?thesis by simp
next
  case (BTreeNode mx mn c0 es)
  show ?thesis
  proof (cases "0 < i \<and> i \<le> length es")
    case True
    then have "i - 1 < length es" by arith
    from size_entry_child [OF this] True BTreeNode show ?thesis
      by (simp add: child_def)
  next
    case False
    with BTreeNode show ?thesis by (auto simp: child_def)
  qed
qed

function findFile_node :: "int \<Rightarrow> BTreeNode \<Rightarrow> FileNode option option" where
  "findFile_node k n =
     (if n = Null then Some None
      else (case searchNode k n of
              None \<Rightarrow> None
            | Some (found, pos) \<Rightarrow>
                if found then Some (Some (value n pos)) else findFile_node k (child n pos)))"
  by pat_completeness auto
termination
  by (relation "measure (\<lambda>(k, n). size n)") (auto simp: size_child)

declare findFile_node.simps [simp del]

definition findFile :: "BTreeNode \<Rightarrow> int \<Rightarrow> FileNode option option" where
  "findFile rootNode file_key = findFile_node file_key rootNode"

definition searchFile :: "BTreeNode \<Rightarrow> int \<Rightarrow> bool option" where
  "searchFile rootNode file_key = map_option (\<lambda>f. f \<noteq> None) (findFile_node file_key rootNode)"

text \<open>
  \<^verbatim>\<open>fillnode\<close>: the entries above position \<open>k\<close> move one slot up and the pair
  \<open>(file, c)\<close> becomes entry \<open>k + 1\<close>.
\<close>

definition fillnode :: "FileNode \<Rightarrow> BTreeNode \<Rightarrow> BTreeNode \<Rightarrow> nat \<Rightarrow> BTreeNode" where
  "fillnode file c n k =
     (case n of
        Null \<Rightarrow> Null
      | BTreeNode mx mn c0 es \<Rightarrow> BTreeNode mx mn c0 (take k es @ (file, c) # drop k es))"

text \<open>
  \<^verbatim>\<open>split\<close> of a full node \<open>n\<close>: the entries \<open>mid + 1 .. MAX\<close> go to a new node, the
  pair is filled into the half it belongs to, and the last entry of \<open>n\<close> is promoted,
  its child becoming \<^verbatim>\<open>child[0]\<close> of the new node. The result is the promoted record,
  the new node and \<open>n\<close>.
\<close>

definition split :: "FileNode \<Rightarrow> BTreeNode \<Rightarrow> BTreeNode \<Rightarrow> nat \<Rightarrow> FileNode \<times> BTreeNode \<times> BTreeNode" where
  "split file c n k =
     (let mid = nat (if int k \<le> nMIN n then nMIN n else nMIN n + 1);
          right0 = BTreeNode (nMAX n) (nMIN n) Null (drop mid (take (nat (nMAX n)) (entries n)));
          left0 = BTreeNode (nMAX n) (nMIN n) (child0 n) (take mid (entries n));
          left1 = (if int k \<le> nMIN n then fillnode file c left0 k else left0);
          right1 = (if int k \<le> nMIN n then right0 else fillnode file c right0 (k - mid));
          y = value left1 (count left1);
          right2 = set_child right1 0 (child left1 (count left1));
          left2 = BTreeNode (nMAX n) (nMIN n) (child0 left1) (butlast (entries left1))
      in (y, right2, left2))"

text \<open>
  \<^verbatim>\<open>setval\<close>: \<open>Pushed p c n'\<close> is the return value \<^verbatim>\<open>true\<close> with the outputs \<^verbatim>\<open>*p\<close>,
  \<^verbatim>\<open>*c\<close> and the node after the call; \<open>Settled n' dup\<close> is \<^verbatim>\<open>false\<close>, where \<open>dup\<close>
  tells that the message \<^verbatim>\<open>Key value ... already exists\<close> was printed.
\<close>

datatype setval_result = Pushed FileNode BTreeNode BTreeNode | Settled BTreeNode bool

function setval :: "FileNode \<Rightarrow> BTreeNode \<Rightarrow> setval_result option" where
  "setval file n =
     (if n = Null then Some (Pushed file Null Null)
      else (case searchNode (fkey file) n of
              None \<Rightarrow> None
            | Some (found, k) \<Rightarrow>
                if found then Some (Settled n True)
                else (case setval file (child n k) of
                        None \<Rightarrow> None
                      | Some (Pushed p c ch) \<Rightarrow>
                          if int (count n) < nMAX n
                          then Some (Settled (fillnode p c (set_child n k ch) k) False)
                          else (case split p c (set_child n k ch) k of
                                  (y, newNode, n') \<Rightarrow> Some (Pushed y newNode n'))
                      | Some (Settled ch dup) \<Rightarrow> Some (Settled (set_child n k ch) dup))))"
  by pat_completeness auto
termination
  by (relation "measure (\<lambda>(file, n). size n)") (auto simp: size_child)

declare setval.simps [simp del]

text \<open>
  \<^verbatim>\<open>insert\<close> and \<^verbatim>\<open>insertHelper\<close>: the new root, and whether the duplicate message
  was printed. A new root takes \<^verbatim>\<open>MAX\<close> and \<^verbatim>\<open>MIN\<close> from the old root, or from
  \<open>ord\<close> when the tree was empty.
\<close>

definition insert_node :: "FileNode \<Rightarrow> BTreeNode \<Rightarrow> int \<Rightarrow> (BTreeNode \<times> bool) option" where
  "insert_node file node ord =
     (case setval file node of
        None \<Rightarrow> None
      | Some (Pushed promoted newChild node') \<Rightarrow>
          Some (if node \<noteq> Null
                then BTreeNode (nMAX node) (nMIN node) node' [(promoted, newChild)]
                else BTreeNode (MAX_of ord) (MIN_of ord) node' [(promoted, newChild)], False)
      | Some (Settled node' dup) \<Rightarrow> Some (node', dup))"

definition insertHelper :: "BTreeNode \<Rightarrow> FileNode \<Rightarrow> int \<Rightarrow> (BTreeNode \<times> bool) option" where
  "insertHelper rootNode f ord = insert_node f rootNode ord"

text \<open>
  \<^verbatim>\<open>clear\<close>: the pairs above position \<open>k\<close> move one slot down, which removes
  \<^verbatim>\<open>value[k]\<close> and \<^verbatim>\<open>child[k]\<close>.
\<close>

definition clear :: "BTreeNode \<Rightarrow> nat \<Rightarrow> BTreeNode" where
  "clear n k =
     (case n of
        Null \<Rightarrow> Null
      | BTreeNode mx mn c0 es \<Rightarrow> BTreeNode mx mn c0 (take (k - 1) es @ drop k es))"

text \<open>
  \<^verbatim>\<open>copysucc\<close>: \<^verbatim>\<open>value[i]\<close> becomes the first record of the leftmost node below
  \<^verbatim>\<open>child[i]\<close>.
\<close>

fun leftmost :: "BTreeNode \<Rightarrow> BTreeNode option" where
  "leftmost Null = None"
| "leftmost (BTreeNode mx mn c0 es) =
     (if c0 \<noteq> Null then leftmost c0 else Some (BTreeNode mx mn c0 es))"

definition copysucc :: "BTreeNode \<Rightarrow> nat \<Rightarrow> BTreeNode option" where
  "copysucc n i =
     (case leftmost (child n i) of
        None \<Rightarrow> None
      | Some temp \<Rightarrow> if count temp = 0 then None else Some (set_value n i (value temp 1)))"

text \<open>
  \<^verbatim>\<open>rightshift\<close>: the separator \<^verbatim>\<open>value[k]\<close> moves down to the front of
  \<^verbatim>\<open>child[k]\<close>, and the last record of \<^verbatim>\<open>child[k - 1]\<close> moves up, its child becoming
  \<^verbatim>\<open>child[0]\<close> of \<^verbatim>\<open>child[k]\<close>.
\<close>

definition rightshift :: "BTreeNode \<Rightarrow> nat \<Rightarrow> BTreeNode option" where
  "rightshift n k =
     (case (child n k, child n (k - 1)) of
        (BTreeNode tmx tmn tc0 tes, BTreeNode lmx lmn lc0 les) \<Rightarrow>
          if les = [] then None
          else
            let temp' = BTreeNode tmx tmn (snd (last les)) ((value n k, tc0) # tes);
                left' = BTreeNode lmx lmn lc0 (butlast les)
            in Some (set_child (set_child (set_value n k (fst (last les))) k temp') (k - 1) left')
      | _ \<Rightarrow> None)"

text \<open>
  \<^verbatim>\<open>leftshift\<close>: the separator \<^verbatim>\<open>value[k]\<close> moves down to the end of
  \<^verbatim>\<open>child[k - 1]\<close> together with \<^verbatim>\<open>child[0]\<close> of \<^verbatim>\<open>child[k]\<close>, and the first record
  of \<^verbatim>\<open>child[k]\<close> moves up.
\<close>

definition leftshift :: "BTreeNode \<Rightarrow> nat \<Rightarrow> BTreeNode option" where
  "leftshift n k =
     (case (child n (k - 1), child n k) of
        (BTreeNode lmx lmn lc0 les, BTreeNode rmx rmn rc0 res) \<Rightarrow>
          if res = [] then None
          else
            let left' = BTreeNode lmx lmn lc0 (les @ [(value n k, rc0)]);
                right' = BTreeNode rmx rmn (snd (hd res)) (tl res)
            in Some (set_child (set_child (set_value n k (fst (hd res))) (k - 1) left') k right')
      | _ \<Rightarrow> None)"

text \<open>
  \<^verbatim>\<open>merge\<close>: \<^verbatim>\<open>child[k - 1]\<close> receives the separator \<^verbatim>\<open>value[k]\<close> and all of
  \<^verbatim>\<open>child[k]\<close>, and the pair \<open>k\<close> leaves the node. The source assigns the child slot
  beside the separator only when \<^verbatim>\<open>child[0]\<close> of the right node is not null; otherwise
  the slot keeps its content, which is null in a node that has no children (such a node
  has never had one) and is not carried by the model otherwise.
\<close>

definition is_leaf :: "BTreeNode \<Rightarrow> bool" where
  "is_leaf n = (child0 n = Null \<and> (\<forall>e \<in> set (entries n). snd e = Null))"

definition merge :: "BTreeNode \<Rightarrow> nat \<Rightarrow> BTreeNode option" where
  "merge n k =
     (case (child n k, child n (k - 1)) of
        (BTreeNode rmx rmn rc0 res, BTreeNode lmx lmn lc0 les) \<Rightarrow>
          if rc0 = Null \<and> \<not> is_leaf (BTreeNode lmx lmn lc0 les) then None
          else
            let left' = BTreeNode lmx lmn lc0 (les @ (value n k, rc0) # res)
            in Some (clear (set_child n (k - 1) left') k)
      | _ \<Rightarrow> None)"

text \<open>
  \<^verbatim>\<open>restore\<close> of the child at position \<open>i\<close>: borrow from the left sibling, else from
  the right one, else merge. It reads \<^verbatim>\<open>child[1]\<close> when \<open>i = 0\<close> and \<^verbatim>\<open>child[i + 1]\<close> when
  \<open>0 < i < count\<close>.
\<close>

definition restore :: "BTreeNode \<Rightarrow> nat \<Rightarrow> BTreeNode option" where
  "restore n i =
     (if n = Null \<or> count n < i then None
      else if i = 0 then
        (if count n = 0 \<or> child n 1 = Null then None
         else if int (count (child n 1)) > nMIN n then leftshift n 1 else merge n 1)
      else if i = count n then
        (if child n (i - 1) = Null then None
         else if int (count (child n (i - 1))) > nMIN n then rightshift n i else merge n i)
      else
        (if child n (i - 1) = Null then None
         else if int (count (child n (i - 1))) > nMIN n then rightshift n i
         else if child n (i + 1) = Null then None
         else if int (count (child n (i + 1))) > nMIN n then leftshift n (i + 1)
         else merge n i))"

text \<open>
  \<^verbatim>\<open>delhelp\<close>: the returned flag and the node after the call. The last statement of
  the source tests \<^verbatim>\<open>child[i]\<close> after the removal; after \<^verbatim>\<open>clear\<close> at the last position
  that slot lies past \<^verbatim>\<open>count\<close> and still holds the old \<^verbatim>\<open>child[i]\<close>.
\<close>

definition restore_if :: "BTreeNode \<Rightarrow> nat \<Rightarrow> bool \<Rightarrow> (bool \<times> BTreeNode) option" where
  "restore_if n i flag =
     (if child n i \<noteq> Null \<and> int (count (child n i)) < nMIN n
      then map_option (Pair flag) (restore n i)
      else Some (flag, n))"

function delhelp :: "int \<Rightarrow> BTreeNode \<Rightarrow> (bool \<times> BTreeNode) option" where
  "delhelp file_key n =
     (if n = Null then Some (False, Null)
      else (case searchNode file_key n of
              None \<Rightarrow> None
            | Some (found, i) \<Rightarrow>
                if found then
                  (if child n (i - 1) \<noteq> Null then
                     (case copysucc n i of
                        None \<Rightarrow> None
                      | Some n1 \<Rightarrow>
                          (case delhelp (fkey (value n1 i)) (child n i) of
                             None \<Rightarrow> None
                           | Some (flag, ch) \<Rightarrow> restore_if (set_child n1 i ch) i flag))
                   else
                     (let n1 = clear n i;
                          slot = (if i < count n then child n1 i else child n i)
                      in if slot \<noteq> Null \<and> int (count slot) < nMIN n
                         then map_option (Pair True) (restore n1 i)
                         else Some (True, n1)))
                else
                  (case delhelp file_key (child n i) of
                     None \<Rightarrow> None
                   | Some (flag, ch) \<Rightarrow> restore_if (set_child n i ch) i flag)))"
  by pat_completeness auto
termination
  by (relation "measure (\<lambda>(k, n). size n)") (auto simp: size_child)

declare delhelp.simps [simp del]

text \<open>
  \<^verbatim>\<open>del\<close> and \<^verbatim>\<open>deleteHelper\<close>: the new root, and whether the message
  \<^verbatim>\<open>Value not found\<close> was printed. A root left without records is replaced by its
  \<^verbatim>\<open>child[0]\<close>.
\<close>

definition del :: "int \<Rightarrow> BTreeNode \<Rightarrow> (BTreeNode \<times> bool) option" where
  "del file_key node =
     (if node = Null then Some (Null, False)
      else (case delhelp file_key node of
              None \<Rightarrow> None
            | Some (flag, node') \<Rightarrow>
                if \<not> flag then Some (node', True)
                else if count node' = 0 then Some (child0 node', False)
                else Some (node', False)))"

definition deleteHelper :: "BTreeNode \<Rightarrow> int \<Rightarrow> (BTreeNode \<times> bool) option" where
  "deleteHelper rootNode file_key = del file_key rootNode"

text \<open>
  \<^verbatim>\<open>getAllFiles\<close>: the records in breadth-first node order; the queue holds the
  nodes still to visit, and only non-null children are enqueued.
\<close>

function getAllFiles_queue :: "BTreeNode list \<Rightarrow> FileNode list" where
  "getAllFiles_queue [] = []"
| "getAllFiles_queue (Null # q) = getAllFiles_queue q"
| "getAllFiles_queue (BTreeNode mx mn c0 es # q) =
     map fst es @ getAllFiles_queue (q @ filter (\<lambda>c. c \<noteq> Null) (c0 # map snd es))"
  by pat_completeness auto
termination
proof (relation "measure (\<lambda>q. sum_list (map size q) + length q)")
  show "wf (measure (\<lambda>q. sum_list (map size q) + length q))" by simp
next
  fix q :: "BTreeNode list"
  show "(q, Null # q) \<in> measure (\<lambda>q. sum_list (map size q) + length q)" by simp
next
  fix mx mn :: int and c0 :: BTreeNode and es :: "(FileNode \<times> BTreeNode) list"
    and q :: "BTreeNode list"
  have a: "sum_list (map size (filter (\<lambda>c. c \<noteq> Null) cs)) = sum_list (map size cs)" for cs
    by (induction cs) auto
  have c: "sum_list (map size (map snd es)) + length es \<le> size_list (size_prod (\<lambda>x. 0) size) es"
    by (induction es) auto
  have "sum_list (map size (q @ filter (\<lambda>c. c \<noteq> Null) (c0 # map snd es)))
          + length (q @ filter (\<lambda>c. c \<noteq> Null) (c0 # map snd es))
        \<le> sum_list (map size q) + sum_list (map size (c0 # map snd es))
          + length (c0 # map snd es) + length q"
    using a [of "c0 # map snd es"] length_filter_le [of "\<lambda>c. c \<noteq> Null" "c0 # map snd es"]
    by simp
  also have "\<dots> < sum_list (map size (BTreeNode mx mn c0 es # q)) + length (BTreeNode mx mn c0 es # q)"
    using c by simp
  finally show "(q @ filter (\<lambda>c. c \<noteq> Null) (c0 # map snd es), BTreeNode mx mn c0 es # q)
        \<in> measure (\<lambda>q. sum_list (map size q) + length q)"
    by simp
qed

definition getAllFiles :: "BTreeNode \<Rightarrow> FileNode list" where
  "getAllFiles node = (if node = Null then [] else getAllFiles_queue [node])"

section \<open>The ring (CircularLL.h)\<close>

text \<open>\<^verbatim>\<open>DoublyLinkedList::initialize\<close>: appends \<open>max 1 (log2 identifierSpace)\<close> entries.\<close>

definition numEntries :: "int \<Rightarrow> nat" where
  "numEntries IS = (if ilog2 IS < 1 then 1 else ilog2 IS)"

definition initialize :: "DoublyNode list \<Rightarrow> int \<Rightarrow> int \<Rightarrow> DoublyNode list" where
  "initialize rt machine_key IS =
     rt @ map (\<lambda>i. \<lparr>filekey = cpp_rem (machine_key + 2 ^ i) IS, machinekey = - 1, m_ptr = None\<rparr>)
            [0 ..< numEntries IS]"

definition getMachineCount :: "CircularLinkedList \<Rightarrow> int" where
  "getMachineCount r = int (length (nodes r))"

text \<open>\<^verbatim>\<open>search\<close>, \<^verbatim>\<open>findMachineById\<close>: a scan from \<^verbatim>\<open>head\<close> once around the ring.\<close>

definition search :: "CircularLinkedList \<Rightarrow> int \<Rightarrow> bool" where
  "search r v = (first_index (\<lambda>c. key c = v) (nodes r) \<noteq> None)"

definition findMachineById :: "CircularLinkedList \<Rightarrow> int \<Rightarrow> nat option" where
  "findMachineById r i = first_index (\<lambda>c. key c = i) (nodes r)"

text \<open>
  \<^verbatim>\<open>findPredecessor\<close> and \<^verbatim>\<open>SearchNewMachine\<close> (the same code): the first machine, from
  \<^verbatim>\<open>head\<close>, whose \<^verbatim>\<open>next\<close> has the given ID. Position \<open>i\<close> of \<open>rotate1 ns\<close> is the
  \<^verbatim>\<open>next\<close> of position \<open>i\<close> of \<open>ns\<close>.
\<close>

definition findPredecessor :: "CircularLinkedList \<Rightarrow> int \<Rightarrow> nat option" where
  "findPredecessor r machineKey = first_index (\<lambda>c. key c = machineKey) (rotate1 (nodes r))"

definition SearchNewMachine :: "CircularLinkedList \<Rightarrow> int \<Rightarrow> nat option" where
  "SearchNewMachine r machineKey = first_index (\<lambda>c. key c = machineKey) (rotate1 (nodes r))"

text \<open>
  \<^verbatim>\<open>succ\<close>: the first machine from \<^verbatim>\<open>head\<close> whose ID is at least the value, else
  \<^verbatim>\<open>head\<close>; \<^verbatim>\<open>nullptr\<close> on the empty ring.
\<close>

definition succ :: "CircularLinkedList \<Rightarrow> int \<Rightarrow> nat option" where
  "succ r v =
     (if nodes r = [] then None
      else (case first_index (\<lambda>c. key c \<ge> v) (nodes r) of
              Some i \<Rightarrow> Some i
            | None \<Rightarrow> Some 0))"

text \<open>
  \<^verbatim>\<open>insert\<close>: a new machine with an initialised finger table and an empty B-tree is
  linked in before \<^verbatim>\<open>head\<close> when its ID is below the head's, otherwise after the last
  machine of the walk \<^verbatim>\<open>while (current->next != head && current->next->key < value)\<close>.
  The machines after the new one move one position up, so the finger pointers held by
  the other machines are renumbered to keep pointing at the same machine.
\<close>

definition newNode :: "CircularLinkedList \<Rightarrow> int \<Rightarrow> CircularNode" where
  "newNode r v = \<lparr>key = v, RT = initialize [] v (identifierSpace r), BTreeroot = Null\<rparr>"

definition renumber :: "nat \<Rightarrow> CircularNode \<Rightarrow> CircularNode" where
  "renumber p c =
     c\<lparr>RT := map (\<lambda>f. f\<lparr>m_ptr := map_option (\<lambda>j. if p \<le> j then Suc j else j) (m_ptr f)\<rparr>) (RT c)\<rparr>"

definition insert_machine :: "CircularLinkedList \<Rightarrow> int \<Rightarrow> CircularLinkedList" where
  "insert_machine r v =
     (case nodes r of
        [] \<Rightarrow> r\<lparr>nodes := [newNode r v]\<rparr>
      | h # t \<Rightarrow>
          if v < key h then r\<lparr>nodes := newNode r v # map (renumber 0) (h # t)\<rparr>
          else
            let front = h # takeWhile (\<lambda>c. key c < v) t;
                back = dropWhile (\<lambda>c. key c < v) t;
                p = length front
            in r\<lparr>nodes := map (renumber p) front @ newNode r v # map (renumber p) back\<rparr>)"

text \<open>
  \<^verbatim>\<open>updateRT\<close>: every machine's finger table is cleared, initialised and filled:
  entry \<open>i\<close> gets the target \<^verbatim>\<open>(key + (1 << i)) % identifierSpace\<close>, the pointer
  \<^verbatim>\<open>succ(target)\<close> and that machine's ID.
\<close>

definition finger :: "CircularLinkedList \<Rightarrow> int \<Rightarrow> nat \<Rightarrow> DoublyNode" where
  "finger r k i =
     (let target = cpp_rem (k + 2 ^ i) (identifierSpace r);
          succNode = succ r target
      in \<lparr>filekey = target,
          machinekey = (case succNode of Some j \<Rightarrow> key (nodes r ! j) | None \<Rightarrow> - 1),
          m_ptr = succNode\<rparr>)"

definition updateRT :: "CircularLinkedList \<Rightarrow> CircularLinkedList" where
  "updateRT r =
     (if nodes r = [] then r
      else r\<lparr>nodes := map (\<lambda>c. c\<lparr>RT := map (\<lambda>i. finger r (key c) i)
                                           [0 ..< length (initialize [] (key c) (identifierSpace r))]\<rparr>)
                          (nodes r)\<rparr>)"

text \<open>\<^verbatim>\<open>isBetween\<close>: the circular half-open interval \<open>(start, end]\<close>.\<close>

definition isBetween :: "int \<Rightarrow> int \<Rightarrow> int \<Rightarrow> bool" where
  "isBetween target start end' =
     (if start < end' then target > start \<and> target \<le> end'
      else target > start \<or> target \<le> end')"

text \<open>
  The responsibility test of \<^verbatim>\<open>routeToKey\<close> for the machine at position \<open>cur\<close>; the
  predecessor's ID is \<open>- 1\<close> when \<^verbatim>\<open>findPredecessor\<close> finds none.
\<close>

definition responsible :: "CircularLinkedList \<Rightarrow> nat \<Rightarrow> int \<Rightarrow> bool" where
  "responsible r cur k =
     (let c = nodes r ! cur;
          predKey = (case findPredecessor r (key c) of Some p \<Rightarrow> key (nodes r ! p) | None \<Rightarrow> - 1)
      in if getMachineCount r = 1 then True
         else if predKey < key c then k > predKey \<and> k \<le> key c
         else k > predKey \<or> k \<le> key c)"

text \<open>
  The next hop: the last finger, in table order, with a non-null pointer whose cached ID
  lies in \<open>(current, key]\<close>; the direct successor when no finger qualifies.
\<close>

definition bestFinger :: "CircularNode \<Rightarrow> int \<Rightarrow> nat option" where
  "bestFinger c k =
     foldl (\<lambda>nextHop f. if m_ptr f \<noteq> None \<and> isBetween (machinekey f) (key c) k
                         then m_ptr f else nextHop)
           None (RT c)"

definition nextHop :: "CircularLinkedList \<Rightarrow> nat \<Rightarrow> int \<Rightarrow> nat" where
  "nextHop r cur k =
     (case bestFinger (nodes r ! cur) k of
        Some j \<Rightarrow> j
      | None \<Rightarrow> Suc cur mod length (nodes r))"

text \<open>
  The routing loop of \<^verbatim>\<open>routeToKey\<close>. \<open>None\<close>: the walk follows a finger pointer that
  addresses no machine of the ring (a dangling pointer in the source).
\<close>

function route_loop ::
  "CircularLinkedList \<Rightarrow> int \<Rightarrow> nat \<Rightarrow> int list \<Rightarrow> int set \<Rightarrow> int list option" where
  "route_loop r k cur path visited =
     (if responsible r cur k then Some path
      else if nextHop r cur k \<ge> length (nodes r) then None
      else if key (nodes r ! nextHop r cur k) \<in> visited then Some path
      else route_loop r k (nextHop r cur k)
             (path @ [key (nodes r ! nextHop r cur k)])
             (insert (key (nodes r ! nextHop r cur k)) visited))"
  by pat_completeness auto
termination
proof (relation "measure (\<lambda>(r, k, cur, path, visited). card (key ` set (nodes r) - visited))")
  show "wf (measure (\<lambda>(r, k, cur, path, visited). card (key ` set (nodes r) - visited)))"
    by simp
next
  fix r :: CircularLinkedList and k :: int and cur :: nat and path :: "int list"
    and visited :: "int set"
  assume lt: "\<not> length (nodes r) \<le> nextHop r cur k"
    and nv: "key (nodes r ! nextHop r cur k) \<notin> visited"
  let ?x = "key (nodes r ! nextHop r cur k)"
  have mem: "?x \<in> key ` set (nodes r) - visited"
    using lt nv by simp
  have "key ` set (nodes r) - insert ?x visited = (key ` set (nodes r) - visited) - {?x}"
    by blast
  moreover have "card ((key ` set (nodes r) - visited) - {?x}) < card (key ` set (nodes r) - visited)"
    using mem by (intro card_Diff1_less) simp_all
  ultimately show "((r, k, nextHop r cur k, path @ [?x], insert ?x visited), (r, k, cur, path, visited))
        \<in> measure (\<lambda>(r, k, cur, path, visited). card (key ` set (nodes r) - visited))"
    by simp
qed

declare route_loop.simps [simp del]

text \<open>
  \<^verbatim>\<open>routeToKey\<close>: the empty path on the empty ring and when no machine has the start
  ID; otherwise the walk from the first machine with that ID.
\<close>

definition routeToKey :: "CircularLinkedList \<Rightarrow> int \<Rightarrow> int \<Rightarrow> int list option" where
  "routeToKey r startMachineId k =
     (case first_index (\<lambda>c. key c = startMachineId) (nodes r) of
        None \<Rightarrow> Some []
      | Some cur \<Rightarrow> route_loop r k cur [key (nodes r ! cur)] {key (nodes r ! cur)})"

text \<open>
  \<^verbatim>\<open>findResponsibleMachine\<close>: the first machine from \<^verbatim>\<open>head\<close> that passes the
  responsibility test (with \<open>identifierSpace - 1\<close> for a missing predecessor), else
  \<^verbatim>\<open>head\<close>.
\<close>

definition responsibleFRM :: "CircularLinkedList \<Rightarrow> int \<Rightarrow> CircularNode \<Rightarrow> bool" where
  "responsibleFRM r k c =
     (let predKey = (case findPredecessor r (key c) of
                       Some p \<Rightarrow> key (nodes r ! p) | None \<Rightarrow> identifierSpace r - 1)
      in if getMachineCount r = 1 then True
         else if predKey < key c then k > predKey \<and> k \<le> key c
         else k > predKey \<or> k \<le> key c)"

definition findResponsibleMachine :: "CircularLinkedList \<Rightarrow> int \<Rightarrow> nat option" where
  "findResponsibleMachine r k =
     (if nodes r = [] then None
      else (case first_index (responsibleFRM r k) (nodes r) of
              Some i \<Rightarrow> Some i
            | None \<Rightarrow> Some 0))"

section \<open>Membership changes and file operations (CircularLL.h)\<close>

text \<open>
  The messages by which the ring operations report their outcome. The operations return
  the outcome and the ring after the call; \<open>None\<close> is passed on from the B-tree and
  the router.
\<close>

datatype outcome =
    AlreadyExists | OutOfRange | Added
  | RingEmpty | NotFound | Removed
  | CouldNotRoute | ResponsibleNotFound | FileExists | Stored | Deleted

text \<open>
  \<^verbatim>\<open>Traverse_delete\<close>: every record of the source machine, in \<^verbatim>\<open>getAllFiles\<close> order, is
  passed to \<^verbatim>\<open>insertHelper\<close> of the destination; the loop has no exit. The result is
  the destination machine and, per record, whether \<^verbatim>\<open>insertHelper\<close> printed the
  duplicate message.
\<close>

fun transfer :: "FileNode list \<Rightarrow> int \<Rightarrow> BTreeNode \<Rightarrow> (BTreeNode \<times> bool list) option" where
  "transfer [] ord t = Some (t, [])"
| "transfer (file # files) ord t =
     (case insertHelper t file ord of
        None \<Rightarrow> None
      | Some (t', dup) \<Rightarrow> map_option (\<lambda>(t'', dups). (t'', dup # dups)) (transfer files ord t'))"

definition Traverse_delete ::
  "CircularNode \<Rightarrow> CircularNode \<Rightarrow> int \<Rightarrow> (CircularNode \<times> bool list) option" where
  "Traverse_delete source destination ord =
     (if BTreeroot source = Null then Some (destination, [])
      else map_option (\<lambda>(t, dups). (destination\<lparr>BTreeroot := t\<rparr>, dups))
             (transfer (getAllFiles (BTreeroot source)) ord (BTreeroot destination)))"

text \<open>
  \<^verbatim>\<open>Traverse_insert\<close>: \<open>prev\<close> is the position of \<^verbatim>\<open>previous\<close>; the new machine is
  its \<^verbatim>\<open>next\<close> and the successor the \<^verbatim>\<open>next\<close> of that. The records of the successor
  that pass the test are inserted into the new machine and deleted from the successor,
  one after the other.
\<close>

definition shouldMove :: "int \<Rightarrow> int \<Rightarrow> FileNode \<Rightarrow> bool" where
  "shouldMove previous_key newMachine_key file =
     (if previous_key < newMachine_key
      then fkey file > previous_key \<and> fkey file \<le> newMachine_key
      else fkey file > previous_key \<or> fkey file \<le> newMachine_key)"

fun move_files ::
  "FileNode list \<Rightarrow> int \<Rightarrow> nat \<Rightarrow> nat \<Rightarrow> CircularNode list \<Rightarrow> CircularNode list option" where
  "move_files [] ord new suc ns = Some ns"
| "move_files (file # files) ord new suc ns =
     (case insertHelper (BTreeroot (ns ! new)) file ord of
        None \<Rightarrow> None
      | Some (t1, dup) \<Rightarrow>
          let ns1 = ns[new := (ns ! new)\<lparr>BTreeroot := t1\<rparr>]
          in (case deleteHelper (BTreeroot (ns1 ! suc)) (fkey file) of
                None \<Rightarrow> None
              | Some (t2, missing) \<Rightarrow>
                  move_files files ord new suc (ns1[suc := (ns1 ! suc)\<lparr>BTreeroot := t2\<rparr>])))"

definition Traverse_insert :: "CircularLinkedList \<Rightarrow> nat \<Rightarrow> int \<Rightarrow> CircularLinkedList option" where
  "Traverse_insert r prev ord =
     (let ns = nodes r;
          new = Suc prev mod length ns;
          suc = Suc new mod length ns
      in if BTreeroot (ns ! suc) = Null then Some r
         else
           let files = getAllFiles (BTreeroot (ns ! suc));
               toMove = filter (shouldMove (key (ns ! prev)) (key (ns ! new))) files
           in map_option (\<lambda>ns'. r\<lparr>nodes := ns'\<rparr>) (move_files toMove ord new suc ns))"

text \<open>\<^verbatim>\<open>insertAfter\<close>: the join of a machine.\<close>

definition insertAfter ::
  "CircularLinkedList \<Rightarrow> int \<Rightarrow> int \<Rightarrow> (outcome \<times> CircularLinkedList) option" where
  "insertAfter r v ord =
     (if search r v then Some (AlreadyExists, r)
      else if v < 0 \<or> v \<ge> identifierSpace r then Some (OutOfRange, r)
      else
        let r1 = updateRT (insert_machine r v)
        in (case SearchNewMachine r1 v of
              Some prev \<Rightarrow>
                if getMachineCount r1 > 1
                then map_option (Pair Added) (Traverse_insert r1 prev ord)
                else Some (Added, r1)
            | None \<Rightarrow> Some (Added, r1)))"

text \<open>
  \<^verbatim>\<open>deletekey\<close>: the leave of a machine. The machine found is the first one from
  \<^verbatim>\<open>head\<close> with the ID; its records go to its \<^verbatim>\<open>next\<close> unless it is alone; it is
  unlinked, and the finger tables are rebuilt when a machine remains.
\<close>

definition deletekey ::
  "CircularLinkedList \<Rightarrow> int \<Rightarrow> int \<Rightarrow> (outcome \<times> CircularLinkedList) option" where
  "deletekey r v ord =
     (if nodes r = [] then Some (RingEmpty, r)
      else (case first_index (\<lambda>c. key c = v) (nodes r) of
              None \<Rightarrow> Some (NotFound, r)
            | Some cur \<Rightarrow>
                let ns = nodes r;
                    suc = Suc cur mod length ns
                in (case (if suc \<noteq> cur
                          then map_option (\<lambda>(d, dups). ns[suc := d])
                                 (Traverse_delete (ns ! cur) (ns ! suc) ord)
                          else Some ns) of
                      None \<Rightarrow> None
                    | Some ns1 \<Rightarrow>
                        let r2 = r\<lparr>nodes := take cur ns1 @ drop (Suc cur) ns1\<rparr>
                        in Some (Removed, if nodes r2 \<noteq> [] then updateRT r2 else r2))))"

text \<open>
  \<^verbatim>\<open>InsertFileToTree\<close>: the put of a record, routed from the start machine; the
  record goes to the first machine that has the last ID of the path.
\<close>

definition InsertFileToTree ::
  "CircularLinkedList \<Rightarrow> int \<Rightarrow> int \<Rightarrow> string \<Rightarrow> int \<Rightarrow> (outcome \<times> CircularLinkedList) option" where
  "InsertFileToTree r machineKey fileKey path ord =
     (if nodes r = [] then Some (RingEmpty, r)
      else if \<not> search r machineKey then Some (NotFound, r)
      else (case routeToKey r machineKey fileKey of
              None \<Rightarrow> None
            | Some routingPath \<Rightarrow>
                if routingPath = [] then Some (CouldNotRoute, r)
                else (case findMachineById r (last routingPath) of
                        None \<Rightarrow> Some (ResponsibleNotFound, r)
                      | Some resp \<Rightarrow>
                          (case searchFile (BTreeroot (nodes r ! resp)) fileKey of
                             None \<Rightarrow> None
                           | Some True \<Rightarrow> Some (FileExists, r)
                           | Some False \<Rightarrow>
                               (case insertHelper (BTreeroot (nodes r ! resp)) (FileNode fileKey path) ord of
                                  None \<Rightarrow> None
                                | Some (t, dup) \<Rightarrow>
                                    Some (Stored, r\<lparr>nodes := (nodes r)[resp := (nodes r ! resp)\<lparr>BTreeroot := t\<rparr>]\<rparr>))))))"

text \<open>
  \<^verbatim>\<open>SearchFile_WithMachine\<close>: the get of a record; the result is the position of
  the machine returned and the record whose path is printed, or \<^verbatim>\<open>nullptr\<close>.
\<close>

definition SearchFile_WithMachine ::
  "CircularLinkedList \<Rightarrow> int \<Rightarrow> int \<Rightarrow> (nat \<times> FileNode) option option" where
  "SearchFile_WithMachine r machineKey fileKey =
     (if nodes r = [] then Some None
      else (case routeToKey r machineKey fileKey of
              None \<Rightarrow> None
            | Some routingPath \<Rightarrow>
                if routingPath = [] then Some None
                else (case findMachineById r (last routingPath) of
                        None \<Rightarrow> Some None
                      | Some resp \<Rightarrow>
                          (case findFile (BTreeroot (nodes r ! resp)) fileKey of
                             None \<Rightarrow> None
                           | Some None \<Rightarrow> Some None
                           | Some (Some file) \<Rightarrow> Some (Some (resp, file))))))"

text \<open>\<^verbatim>\<open>DeleteFileFromTree\<close>: the deletion of a record, routed like the get.\<close>

definition DeleteFileFromTree ::
  "CircularLinkedList \<Rightarrow> int \<Rightarrow> int \<Rightarrow> (outcome \<times> CircularLinkedList) option" where
  "DeleteFileFromTree r machineKey fileKey =
     (if nodes r = [] then Some (RingEmpty, r)
      else (case routeToKey r machineKey fileKey of
              None \<Rightarrow> None
            | Some routingPath \<Rightarrow>
                if routingPath = [] then Some (CouldNotRoute, r)
                else (case findMachineById r (last routingPath) of
                        None \<Rightarrow> Some (ResponsibleNotFound, r)
                      | Some resp \<Rightarrow>
                          (case findFile (BTreeroot (nodes r ! resp)) fileKey of
                             None \<Rightarrow> None
                           | Some None \<Rightarrow> Some (NotFound, r)
                           | Some (Some file) \<Rightarrow>
                               (case deleteHelper (BTreeroot (nodes r ! resp)) fileKey of
                                  None \<Rightarrow> None
                                | Some (t, missing) \<Rightarrow>
                                    Some (Deleted, r\<lparr>nodes := (nodes r)[resp := (nodes r ! resp)\<lparr>BTreeroot := t\<rparr>]\<rparr>))))))"

section \<open>The facade (IPFS.h)\<close>

definition isValidMachineId :: "CircularLinkedList \<Rightarrow> int \<Rightarrow> bool" where
  "isValidMachineId r i = (i \<ge> 0 \<and> i < identifierSpace r)"

text \<open>
  \<^verbatim>\<open>InsertMachines\<close>: each ID of the array that is inside the identifier space is
  inserted, the others are skipped with a warning; one \<^verbatim>\<open>updateRT\<close> at the end.
\<close>

definition InsertMachines :: "CircularLinkedList \<Rightarrow> int list \<Rightarrow> CircularLinkedList" where
  "InsertMachines r arr =
     updateRT (foldl (\<lambda>r' a. if isValidMachineId r' a then insert_machine r' a else r') r arr)"

text \<open>
  \<^verbatim>\<open>InsertMachine\<close> and \<^verbatim>\<open>DeleteMachine\<close>: join and leave as the facade exposes
  them.
\<close>

definition InsertMachine ::
  "CircularLinkedList \<Rightarrow> int \<Rightarrow> int \<Rightarrow> (outcome \<times> CircularLinkedList) option" where
  "InsertMachine r machineKey ord =
     (if \<not> isValidMachineId r machineKey then Some (OutOfRange, r)
      else insertAfter r machineKey ord)"

definition DeleteMachine ::
  "CircularLinkedList \<Rightarrow> int \<Rightarrow> int \<Rightarrow> (outcome \<times> CircularLinkedList) option" where
  "DeleteMachine r machineKey ord = deletekey r machineKey ord"

section \<open>Example rings\<close>

text \<open>The empty ring over 4 bits with B-trees of order 3, and rings built from it.\<close>

definition ring16 :: CircularLinkedList where
  "ring16 = \<lparr>nodes = [], identifierSpace = 16, bits = 4, btreeOrder = 3\<rparr>"

definition ring_2_5_10 :: CircularLinkedList where
  "ring_2_5_10 = InsertMachines ring16 [2, 5, 10]"

text \<open>
  Every finger pointer of the ring addresses a machine of the ring (or is null). The
  source holds this by construction: a pointer is set by \<^verbatim>\<open>updateRT\<close> only.
\<close>

definition ptrs_valid :: "CircularLinkedList \<Rightarrow> bool" where
  "ptrs_valid r =
     (\<forall>c \<in> set (nodes r). \<forall>f \<in> set (RT c).
        (case m_ptr f of None \<Rightarrow> True | Some j \<Rightarrow> j < length (nodes r)))"

definition ring_1_4_9_11_14 :: CircularLinkedList where
  "ring_1_4_9_11_14 = InsertMachines ring16 [1, 4, 9, 11, 14]"

text \<open>
  The records every machine stores, and the ring an operation returns (the empty ring
  if it returns none).
\<close>

definition stored :: "CircularLinkedList \<Rightarrow> (int \<times> FileNode list) list" where
  "stored r = map (\<lambda>c. (key c, getAllFiles (BTreeroot c))) (nodes r)"

definition after :: "(outcome \<times> CircularLinkedList) option \<Rightarrow> CircularLinkedList" where
  "after res = (case res of Some (e, r) \<Rightarrow> r | None \<Rightarrow> ring16)"

text \<open>
  A ring of the machines 2 and 8, reached through a repeated ID in the bulk insertion,
  in which machine 2 stores the keys 5 and 6 and machine 8 stores the key 5 as well.
\<close>

definition ring_collision :: CircularLinkedList where
  "ring_collision =
     (let r1 = InsertMachines ring16 [2, 2, 8];
          r2 = after (InsertFileToTree r1 2 5 ''a'' 3);
          r3 = after (InsertFileToTree r2 2 6 ''c'' 3);
          r4 = after (InsertFileToTree r3 8 5 ''b'' 3)
      in after (deletekey r4 2 3))"

section \<open>Well-formed rings and reachable rings\<close>

text \<open>
  The configurations the facade builds without overflow: \<open>identifierSpace = 1 << bits\<close>
  with \<open>1 \<le> bits \<le> 30\<close>.
\<close>

definition valid_config :: "CircularLinkedList \<Rightarrow> bool" where
  "valid_config r = (1 \<le> bits r \<and> bits r \<le> 30 \<and> identifierSpace r = 2 ^ nat (bits r))"

text \<open>
  What \<^verbatim>\<open>insert\<close> and the validation of IDs maintain: from \<^verbatim>\<open>head\<close> the IDs ascend,
  and they lie inside the identifier space.
\<close>

definition ring_wf :: "CircularLinkedList \<Rightarrow> bool" where
  "ring_wf r =
     (valid_config r \<and> sorted (map key (nodes r)) \<and>
      (\<forall>k \<in> set (map key (nodes r)). 0 \<le> k \<and> k < identifierSpace r))"

text \<open>
  The successor of \<open>x\<close> in the words of the specification: the smallest live ID that is
  at least \<open>x\<close>, wrapping to the smallest live ID when \<open>x\<close> exceeds all of them.
\<close>

definition successor_id :: "int list \<Rightarrow> int \<Rightarrow> int" where
  "successor_id ids x =
     (if \<exists>i \<in> set ids. i \<ge> x then Min {i \<in> set ids. i \<ge> x} else Min (set ids))"

text \<open>
  A correct finger \<open>i\<close> of the machine \<open>k\<close>: it stores the target
  \<open>(k + 2 ^ i) mod N\<close>, its cached ID is the successor of the target, and its pointer
  addresses a machine of the ring with that ID. A ring has correct fingers when every
  machine has \<open>bits\<close> fingers and each is correct.
\<close>

definition finger_correct :: "int list \<Rightarrow> int \<Rightarrow> int \<Rightarrow> nat \<Rightarrow> DoublyNode \<Rightarrow> bool" where
  "finger_correct ids IS k i f =
     (filekey f = (k + 2 ^ i) mod IS \<and>
      machinekey f = successor_id ids (filekey f) \<and>
      (case m_ptr f of None \<Rightarrow> False | Some j \<Rightarrow> j < length ids \<and> ids ! j = machinekey f))"

definition fingers_correct :: "CircularLinkedList \<Rightarrow> bool" where
  "fingers_correct r =
     (\<forall>c \<in> set (nodes r).
        length (RT c) = nat (bits r) \<and>
        (\<forall>i \<in> {0 ..< nat (bits r)}.
           finger_correct (map key (nodes r)) (identifierSpace r) (key c) i (RT c ! i)))"

text \<open>
  The clockwise distance from \<open>a\<close> to \<open>b\<close> on the identifier circle of size \<open>N\<close>, for
  \<open>a\<close> and \<open>b\<close> in \<open>[0, N)\<close>.
\<close>

definition cdist :: "int \<Rightarrow> int \<Rightarrow> int \<Rightarrow> int" where
  "cdist N a b = (if a \<le> b then b - a else b - a + N)"

text \<open>
  The rings on which routing is exact: ascending, pairwise distinct IDs inside the
  identifier space and correct fingers.
\<close>

definition ring_ok :: "CircularLinkedList \<Rightarrow> bool" where
  "ring_ok r = (ring_wf r \<and> distinct (map key (nodes r)) \<and> fingers_correct r)"

text \<open>
  The rings that the program reaches from an empty ring of a valid configuration. The
  bulk insertion is given IDs that are new and do not repeat: its one call, in
  \<^verbatim>\<open>main.cpp\<close>, passes IDs from which repetitions have been removed. Every call that
  returns leads to a reachable ring. The B-tree order is the one
  the ring was configured with, between 3 and 100.
\<close>

definition valid_order :: "int \<Rightarrow> bool" where
  "valid_order ord = (3 \<le> ord \<and> ord \<le> 100)"

inductive reachable :: "CircularLinkedList \<Rightarrow> bool" where
  start: "valid_config r \<Longrightarrow> valid_order (btreeOrder r) \<Longrightarrow> nodes r = [] \<Longrightarrow> reachable r"
| bulk: "reachable r \<Longrightarrow> distinct (filter (isValidMachineId r) arr) \<Longrightarrow>
         \<forall>a \<in> set arr. a \<notin> key ` set (nodes r) \<Longrightarrow> reachable (InsertMachines r arr)"
| join: "reachable r \<Longrightarrow> InsertMachine r v (btreeOrder r) = Some (e, r') \<Longrightarrow> reachable r'"
| leave: "reachable r \<Longrightarrow> DeleteMachine r v (btreeOrder r) = Some (e, r') \<Longrightarrow> reachable r'"
| put: "reachable r \<Longrightarrow> InsertFileToTree r s k path (btreeOrder r) = Some (e, r') \<Longrightarrow> reachable r'"
| remove: "reachable r \<Longrightarrow> DeleteFileFromTree r s k = Some (e, r') \<Longrightarrow> reachable r'"

section \<open>Shape of the B-trees\<close>

text \<open>
  The shape invariant, by height: a tree of height \<open>0\<close> is the null pointer; a node of
  height \<open>h + 1\<close> carries the \<^verbatim>\<open>MAX\<close> and \<^verbatim>\<open>MIN\<close> of the order, holds between
  \<open>lo\<close> and \<^verbatim>\<open>MAX\<close> records, and its \<open>count + 1\<close> children are trees of height \<open>h\<close>
  whose nodes hold at least \<^verbatim>\<open>MIN\<close> records. \<open>slots\<close> lists \<^verbatim>\<open>child[0 .. count]\<close> with the
  records; the record paired with \<^verbatim>\<open>child[0]\<close> is the unused \<^verbatim>\<open>value[0]\<close>. The root is
  checked with \<open>lo = 1\<close>.
\<close>

definition dummy :: FileNode where
  "dummy = FileNode (- 1) []"

definition slots :: "BTreeNode \<Rightarrow> (FileNode \<times> BTreeNode) list" where
  "slots n = (dummy, child0 n) # entries n"

fun bt_inv :: "int \<Rightarrow> int \<Rightarrow> nat \<Rightarrow> BTreeNode \<Rightarrow> bool" where
  "bt_inv ord lo 0 n = (n = Null)"
| "bt_inv ord lo (Suc h) n =
     (n \<noteq> Null \<and> nMAX n = MAX_of ord \<and> nMIN n = MIN_of ord \<and>
      lo \<le> int (count n) \<and> int (count n) \<le> MAX_of ord \<and>
      (\<forall>s \<in> set (slots n). bt_inv ord (MIN_of ord) h (snd s)))"

fun height :: "BTreeNode \<Rightarrow> nat" where
  "height Null = 0"
| "height (BTreeNode mx mn c0 es) = Suc (height c0)"

definition btree_ok :: "int \<Rightarrow> BTreeNode \<Rightarrow> bool" where
  "btree_ok ord t = bt_inv ord 1 (height t) t"

text \<open>The children of a node are sound trees of height \<open>h\<close>.\<close>

definition kids_ok :: "int \<Rightarrow> nat \<Rightarrow> BTreeNode \<Rightarrow> bool" where
  "kids_ok ord h n = (\<forall>s \<in> set (slots n). bt_inv ord (MIN_of ord) h (snd s))"

text \<open>What \<^verbatim>\<open>setval\<close> returns on a sound tree.\<close>

fun setval_ok :: "int \<Rightarrow> int \<Rightarrow> nat \<Rightarrow> setval_result \<Rightarrow> bool" where
  "setval_ok ord lo h (Settled n' dup) = bt_inv ord lo h n'"
| "setval_ok ord lo h (Pushed p c n') =
     (bt_inv ord (MIN_of ord) h n' \<and> bt_inv ord (MIN_of ord) h c)"

text \<open>A node whose children are sound except for the one at position \<open>i\<close>.\<close>

definition kids_but :: "int \<Rightarrow> nat \<Rightarrow> BTreeNode \<Rightarrow> nat \<Rightarrow> bool" where
  "kids_but ord h n i = (\<forall>j \<le> count n. j \<noteq> i \<longrightarrow> bt_inv ord (MIN_of ord) h (child n j))"

text \<open>
  Sequences of \<^verbatim>\<open>insertHelper\<close> and \<^verbatim>\<open>deleteHelper\<close> calls on one tree, and the
  occupancy bounds in the words of the specification: every node but the root holds at
  least \<open>\<lceil>t / 2\<rceil> - 1\<close> records, and every node at most \<open>t - 1\<close>.
\<close>

datatype tree_op = Insert FileNode | Delete int

fun apply_op :: "int \<Rightarrow> BTreeNode \<Rightarrow> tree_op \<Rightarrow> BTreeNode option" where
  "apply_op ord t (Insert f) = map_option fst (insertHelper t f ord)"
| "apply_op ord t (Delete k) = map_option fst (deleteHelper t k)"

fun run_ops :: "int \<Rightarrow> BTreeNode \<Rightarrow> tree_op list \<Rightarrow> BTreeNode option" where
  "run_ops ord t [] = Some t"
| "run_ops ord t (x # xs) =
     (case apply_op ord t x of None \<Rightarrow> None | Some t' \<Rightarrow> run_ops ord t' xs)"

lemma size_entry_mem:
  "(a, b) \<in> set es \<Longrightarrow> size b < Suc (size_list (size_prod (\<lambda>x. 0) size) es)"
  using size_entry_child [of _ es] by (force simp: in_set_conv_nth)

function subtrees :: "BTreeNode \<Rightarrow> BTreeNode list" where
  "subtrees Null = []"
| "subtrees (BTreeNode mx mn c0 es) =
     BTreeNode mx mn c0 es # subtrees c0 @ concat (map (\<lambda>e. subtrees (snd e)) es)"
  by pat_completeness auto
termination
  by (relation "measure size") (auto dest: size_entry_mem)

fun nonroot_nodes :: "BTreeNode \<Rightarrow> BTreeNode list" where
  "nonroot_nodes Null = []"
| "nonroot_nodes (BTreeNode mx mn c0 es) =
     subtrees c0 @ concat (map (\<lambda>e. subtrees (snd e)) es)"

definition occupancy_ok :: "int \<Rightarrow> BTreeNode \<Rightarrow> bool" where
  "occupancy_ok ord t =
     ((\<forall>n \<in> set (nonroot_nodes t). \<lceil>real_of_int ord / 2\<rceil> - 1 \<le> int (count n)) \<and>
      (\<forall>n \<in> set (subtrees t). int (count n) \<le> ord - 1))"

text \<open>Twelve insertions and five deletions at order 3, and the tree they build.\<close>

definition ops17 :: "tree_op list" where
  "ops17 = map (\<lambda>k. Insert (FileNode k ''f'')) [1, 2, 3, 4, 5, 6, 7, 8, 9, 10, 11, 12] @
           map Delete [4, 8, 1, 12, 6]"

definition tree17 :: BTreeNode where
  "tree17 =
     BTreeNode 2 1
       (BTreeNode 2 1 Null [(FileNode 2 ''f'', Null), (FileNode 3 ''f'', Null)])
       [(FileNode 5 ''f'', BTreeNode 2 1 Null [(FileNode 7 ''f'', Null)]),
        (FileNode 9 ''f'',
         BTreeNode 2 1 Null [(FileNode 10 ''f'', Null), (FileNode 11 ''f'', Null)])]"

section \<open>Records of the B-trees\<close>

text \<open>
  The records of a tree in key order: \<^verbatim>\<open>child[0]\<close>, then every record followed by the
  child beside it. A tree is ordered when the keys of this list ascend strictly.
  \<open>before n p\<close> and \<open>behind n p\<close> are the records of a node around its child \<open>p\<close>.
\<close>

function inorder :: "BTreeNode \<Rightarrow> FileNode list" where
  "inorder Null = []"
| "inorder (BTreeNode mx mn c0 es) =
     inorder c0 @ concat (map (\<lambda>e. fst e # inorder (snd e)) es)"
  by pat_completeness auto
termination
  by (relation "measure size") (auto dest: size_entry_mem)

definition flat :: "(FileNode \<times> BTreeNode) list \<Rightarrow> FileNode list" where
  "flat es = concat (map (\<lambda>e. fst e # inorder (snd e)) es)"

definition ordered :: "BTreeNode \<Rightarrow> bool" where
  "ordered t = sorted_wrt (<) (map fkey (inorder t))"

definition before :: "BTreeNode \<Rightarrow> nat \<Rightarrow> FileNode list" where
  "before n p =
     (if p = 0 then []
      else inorder (child0 n) @ flat (take (p - 1) (entries n)) @ [value n p])"

definition behind :: "BTreeNode \<Rightarrow> nat \<Rightarrow> FileNode list" where
  "behind n p = flat (drop p (entries n))"

text \<open>The records of a tree after the insertion of \<open>f\<close>.\<close>

definition ins :: "FileNode \<Rightarrow> FileNode list \<Rightarrow> FileNode list" where
  "ins f xs = filter (\<lambda>x. fkey x < fkey f) xs @ f # filter (\<lambda>x. fkey f < fkey x) xs"

text \<open>What \<^verbatim>\<open>setval\<close> returns on an ordered tree, in records.\<close>

fun setval_content :: "FileNode \<Rightarrow> BTreeNode \<Rightarrow> setval_result \<Rightarrow> bool" where
  "setval_content f n (Settled n' dup) =
     (if dup then n' = n \<and> fkey f \<in> fkey ` set (inorder n)
      else inorder n' = ins f (inorder n) \<and> fkey f \<notin> fkey ` set (inorder n))"
| "setval_content f n (Pushed p c n') =
     (inorder n' @ p # inorder c = ins f (inorder n) \<and> fkey f \<notin> fkey ` set (inorder n))"

text \<open>The trees of the ring: sound in shape and ordered.\<close>

definition tree_ok :: "int \<Rightarrow> BTreeNode \<Rightarrow> bool" where
  "tree_ok ord t = (btree_ok ord t \<and> ordered t)"

section \<open>Trees of the ring and the hand-off of a join\<close>

text \<open>Every machine of the ring has a sound, ordered B-tree of the ring's order.\<close>

definition trees_ok :: "CircularLinkedList \<Rightarrow> bool" where
  "trees_ok r =
     (valid_order (btreeOrder r) \<and>
      (\<forall>t \<in> set (map BTreeroot (nodes r)). tree_ok (btreeOrder r) t))"

text \<open>
  The half-open interval \<open>(a, b]\<close> of the identifier circle, for IDs and keys in
  \<open>[0, N)\<close>, and the position that the machine at position \<open>m\<close> has after a new machine
  was linked in at position \<open>i\<close>.
\<close>

definition in_interval :: "int \<Rightarrow> int \<Rightarrow> int \<Rightarrow> bool" where
  "in_interval a b k = (if a < b then a < k \<and> k \<le> b else a < k \<or> k \<le> b)"

definition lift :: "nat \<Rightarrow> nat \<Rightarrow> nat" where
  "lift i m = (if m < i then m else Suc m)"

text \<open>
  The result \<open>r'\<close> of the join of \<open>v\<close> to the ring \<open>r\<close>, with the new machine at position
  \<open>i\<close> and its successor at position \<open>j\<close> of \<open>r\<close>: the other machines keep their order
  and IDs; \<open>p\<close> is the ID of the machine before the new one; the new machine stores the
  records of the successor with a key in \<open>(p, v]\<close>, the successor the others, and every
  other machine the B-tree it had.
\<close>

definition handoff :: "CircularLinkedList \<Rightarrow> int \<Rightarrow> CircularLinkedList \<Rightarrow> nat \<Rightarrow> nat \<Rightarrow> bool" where
  "handoff r v r' i j =
     (let n = length (nodes r');
          p = key (nodes r' ! ((i + n - 1) mod n));
          S = getAllFiles (BTreeroot (nodes r ! j))
      in n = Suc (length (nodes r)) \<and> i < n \<and> key (nodes r' ! i) = v \<and>
         j < length (nodes r) \<and> succ r v = Some j \<and> lift i j = Suc i mod n \<and>
         (\<forall>m \<in> {0 ..< length (nodes r)}. key (nodes r' ! lift i m) = key (nodes r ! m)) \<and>
         set (getAllFiles (BTreeroot (nodes r' ! i))) =
           set (filter (\<lambda>f. in_interval p v (fkey f)) S) \<and>
         set (getAllFiles (BTreeroot (nodes r' ! lift i j))) =
           set (filter (\<lambda>f. \<not> in_interval p v (fkey f)) S) \<and>
         (\<forall>m \<in> {0 ..< length (nodes r)}.
            m \<noteq> j \<longrightarrow> BTreeroot (nodes r' ! lift i m) = BTreeroot (nodes r ! m)))"

text \<open>A ring of the machines 2, 5 and 10 that stores seven files.\<close>

definition ring_files :: CircularLinkedList where
  "ring_files =
     foldl (\<lambda>r k. after (InsertFileToTree r 2 k ''f'' 3)) ring_2_5_10 [6, 7, 8, 9, 3, 11, 0]"

text \<open>
  The hand-off of a leave. A record of the leaving machine collides when the successor's
  tree holds its key. \<open>leave_handoff r cur r'\<close> describes the leave of the machine at
  position \<open>cur\<close> of \<open>r\<close> with result \<open>r'\<close>, when it is not the only machine:
  \<^verbatim>\<open>Traverse_delete\<close> returns, the duplicate message is printed for exactly the
  colliding records, the successor's tree is the one that the transfer of the other
  records alone builds, with its own records and those, and it is the tree of the
  successor in \<open>r'\<close>.
\<close>

definition collides :: "BTreeNode \<Rightarrow> FileNode \<Rightarrow> bool" where
  "collides dst = (\<lambda>f. fkey f \<in> fkey ` set (getAllFiles dst))"

definition leave_handoff :: "CircularLinkedList \<Rightarrow> nat \<Rightarrow> CircularLinkedList \<Rightarrow> bool" where
  "leave_handoff r cur r' =
     (let ns = nodes r;
          suc = Suc cur mod length ns;
          src = getAllFiles (BTreeroot (ns ! cur));
          dst = BTreeroot (ns ! suc);
          kept = filter (\<lambda>f. \<not> collides dst f) src;
          j = (if Suc cur < length ns then cur else 0)
      in suc = cur \<or>
         (case Traverse_delete (ns ! cur) (ns ! suc) (btreeOrder r) of
            None \<Rightarrow> False
          | Some (d, dups) \<Rightarrow>
              dups = map (collides dst) src \<and>
              transfer kept (btreeOrder r) dst = Some (BTreeroot d, map (\<lambda>f. False) kept) \<and>
              set (getAllFiles (BTreeroot d)) = set (getAllFiles dst) \<union> set kept \<and>
              key (nodes r' ! j) = key (ns ! suc) \<and> BTreeroot (nodes r' ! j) = BTreeroot d))"

section \<open>Basic facts\<close>

lemma first_index_None: "first_index P xs = None \<longleftrightarrow> (\<forall>x \<in> set xs. \<not> P x)"
  by (induction xs) auto

lemma first_index_Some:
  "first_index P xs = Some i \<longleftrightarrow> i < length xs \<and> P (xs ! i) \<and> (\<forall>j < i. \<not> P (xs ! j))"
proof (induction xs arbitrary: i)
  case Nil
  show ?case by simp
next
  case (Cons x xs)
  show ?case
  proof (cases "P x")
    case True
    then show ?thesis by (cases i) auto
  next
    case False
    show ?thesis
    proof (cases i)
      case 0
      with False show ?thesis by simp
    next
      case (Suc i')
      have "(\<forall>j<Suc i'. \<not> P ((x # xs) ! j)) \<longleftrightarrow> (\<forall>j<i'. \<not> P (xs ! j))"
        using False by (auto simp: less_Suc_eq_0_disj)
      with False Suc Cons.IH [of i'] show ?thesis by auto
    qed
  qed
qed

lemma search_iff: "search r v \<longleftrightarrow> v \<in> key ` set (nodes r)"
  by (auto simp: search_def first_index_None)

section \<open>Validation of membership changes\<close>

text \<open>
  C5. A join whose ID lies outside the identifier space or is the ID of a machine of the
  ring, and a leave whose ID no machine of the ring has, report a validation error and
  return the ring they were given: membership and order, finger tables and B-trees are
  all part of the returned value. The same holds at the facade.
\<close>

theorem membership_validation_atomic:
  "(v < 0 \<or> v \<ge> identifierSpace r \<or> v \<in> key ` set (nodes r) \<longrightarrow>
      (insertAfter r v ord = Some (AlreadyExists, r) \<or> insertAfter r v ord = Some (OutOfRange, r)) \<and>
      (InsertMachine r v ord = Some (AlreadyExists, r) \<or> InsertMachine r v ord = Some (OutOfRange, r)))
   \<and> (v \<notin> key ` set (nodes r) \<longrightarrow>
      (deletekey r v ord = Some (RingEmpty, r) \<or> deletekey r v ord = Some (NotFound, r)) \<and>
      DeleteMachine r v ord = deletekey r v ord)"
proof (intro conjI impI)
  assume a: "v < 0 \<or> v \<ge> identifierSpace r \<or> v \<in> key ` set (nodes r)"
  show "insertAfter r v ord = Some (AlreadyExists, r) \<or> insertAfter r v ord = Some (OutOfRange, r)"
    using a by (auto simp: insertAfter_def search_iff)
  then show "InsertMachine r v ord = Some (AlreadyExists, r) \<or> InsertMachine r v ord = Some (OutOfRange, r)"
    by (auto simp: InsertMachine_def)
next
  assume a: "v \<notin> key ` set (nodes r)"
  then have "first_index (\<lambda>c. key c = v) (nodes r) = None"
    by (auto simp: first_index_None)
  then show "deletekey r v ord = Some (RingEmpty, r) \<or> deletekey r v ord = Some (NotFound, r)"
    by (simp add: deletekey_def)
  show "DeleteMachine r v ord = deletekey r v ord"
    by (simp add: DeleteMachine_def)
qed


theorem membership_validation_atomic_witness:
  "insertAfter ring_2_5_10 5 3 = Some (AlreadyExists, ring_2_5_10) \<and>
   insertAfter ring_2_5_10 16 3 = Some (OutOfRange, ring_2_5_10) \<and>
   deletekey ring_2_5_10 7 3 = Some (NotFound, ring_2_5_10)"
proof -
  have a: "5 \<in> key ` set (nodes ring_2_5_10)" by code_simp
  have a': "insertAfter ring_2_5_10 5 3 \<noteq> Some (OutOfRange, ring_2_5_10)" by code_simp
  have b: "(16::int) \<ge> identifierSpace ring_2_5_10" by code_simp
  have b': "insertAfter ring_2_5_10 16 3 \<noteq> Some (AlreadyExists, ring_2_5_10)" by code_simp
  have c: "7 \<notin> key ` set (nodes ring_2_5_10)" by code_simp
  have c': "deletekey ring_2_5_10 7 3 \<noteq> Some (RingEmpty, ring_2_5_10)" by code_simp
  from membership_validation_atomic [of 5 ring_2_5_10 3] a a'
  have 1: "insertAfter ring_2_5_10 5 3 = Some (AlreadyExists, ring_2_5_10)" by blast
  from membership_validation_atomic [of 16 ring_2_5_10 3] b b'
  have 2: "insertAfter ring_2_5_10 16 3 = Some (OutOfRange, ring_2_5_10)" by blast
  from membership_validation_atomic [of 7 ring_2_5_10 3] c c'
  have 3: "deletekey ring_2_5_10 7 3 = Some (NotFound, ring_2_5_10)" by blast
  from 1 2 3 show ?thesis by blast
qed

section \<open>Bulk insertion of machines\<close>

lemma key_renumber [simp]: "key (renumber p c) = key c"
  by (simp add: renumber_def)

lemma key_newNode [simp]: "key (newNode r v) = v"
  by (simp add: newNode_def)

lemma keys_insert_machine:
  "mset (map key (nodes (insert_machine r v))) = add_mset v (mset (map key (nodes r)))"
proof (cases "nodes r")
  case Nil
  then show ?thesis by (simp add: insert_machine_def)
next
  case (Cons h t)
  have "mset (takeWhile P t) + mset (dropWhile P t) = mset t" for P
    by (metis mset_append takeWhile_dropWhile_id)
  then have "image_mset key (mset (takeWhile P t)) + image_mset key (mset (dropWhile P t))
      = image_mset key (mset t)" for P
    by (metis image_mset_union)
  with Cons show ?thesis
    by (simp add: insert_machine_def Let_def multiset.map_comp comp_def)
qed

lemma identifierSpace_insert_machine [simp]:
  "identifierSpace (insert_machine r v) = identifierSpace r"
  by (simp add: insert_machine_def Let_def split: list.splits)

lemma keys_updateRT [simp]: "map key (nodes (updateRT r)) = map key (nodes r)"
  by (simp add: updateRT_def comp_def)

lemma keys_insert_loop:
  "mset (map key (nodes (foldl (\<lambda>r' a. if isValidMachineId r' a then insert_machine r' a else r') r arr)))
     = mset (map key (nodes r)) + mset (filter (\<lambda>a. 0 \<le> a \<and> a < identifierSpace r) arr)
   \<and> identifierSpace (foldl (\<lambda>r' a. if isValidMachineId r' a then insert_machine r' a else r') r arr)
     = identifierSpace r"
proof (induction arr arbitrary: r)
  case Nil
  show ?case by simp
next
  case (Cons a arr)
  show ?case
    using Cons.IH [of "insert_machine r a"] Cons.IH [of r] keys_insert_machine [of r a]
    by (simp add: isValidMachineId_def)
qed

text \<open>
  C10. \<^verbatim>\<open>InsertMachines\<close> links in one machine for every element of the input that lies
  inside the identifier space, and none for the others: the IDs of the ring afterwards
  are, as a multiset, the IDs before plus the in-range input elements, each as often as it
  occurs. Nothing tests for uniqueness: the input \<open>[2, 2]\<close> gives two machines with ID 2,
  and so does the input \<open>[2]\<close> on a ring that has a machine 2, whereas the join
  \<^verbatim>\<open>insertAfter\<close> rejects the ID of a machine of the ring.
\<close>

theorem InsertMachines_no_uniqueness_check:
  "mset (map key (nodes (InsertMachines r arr)))
     = mset (map key (nodes r)) + mset (filter (\<lambda>a. 0 \<le> a \<and> a < identifierSpace r) arr)
   \<and> map key (nodes (InsertMachines ring16 [2, 2])) = [2, 2]
   \<and> map key (nodes (InsertMachines (InsertMachines ring16 [2]) [2])) = [2, 2]
   \<and> insertAfter (InsertMachines ring16 [2]) 2 3 = Some (AlreadyExists, InsertMachines ring16 [2])"
proof (intro conjI)
  show "mset (map key (nodes (InsertMachines r arr)))
     = mset (map key (nodes r)) + mset (filter (\<lambda>a. 0 \<le> a \<and> a < identifierSpace r) arr)"
    using keys_insert_loop [of r arr] by (simp add: InsertMachines_def)
  show "map key (nodes (InsertMachines ring16 [2, 2])) = [2, 2]" by code_simp
  show "map key (nodes (InsertMachines (InsertMachines ring16 [2]) [2])) = [2, 2]" by code_simp
  show "insertAfter (InsertMachines ring16 [2]) 2 3 = Some (AlreadyExists, InsertMachines ring16 [2])"
    by code_simp
qed

theorem InsertMachines_no_uniqueness_check_witness:
  "mset (map key (nodes (InsertMachines ring_2_5_10 [5, 16, - 1, 7, 5]))) = {#2, 5, 10, 5, 7, 5#}"
proof -
  have "mset (map key (nodes ring_2_5_10)) = {#2, 5, 10#}" by code_simp
  moreover have "identifierSpace ring_2_5_10 = 16" by code_simp
  ultimately show ?thesis
    using InsertMachines_no_uniqueness_check [of ring_2_5_10 "[5, 16, - 1, 7, 5]"] by simp
qed

section \<open>Termination of routing\<close>

lemma bestFinger_foldl:
  "foldl (\<lambda>nextHop f. if m_ptr f \<noteq> None \<and> isBetween (machinekey f) a k then m_ptr f else nextHop)
         acc fs = Some j
   \<Longrightarrow> acc = Some j \<or> (\<exists>f \<in> set fs. m_ptr f = Some j)"
  by (induction fs arbitrary: acc) (auto split: if_splits)

lemma bestFinger_Some: "bestFinger c k = Some j \<Longrightarrow> \<exists>f \<in> set (RT c). m_ptr f = Some j"
  unfolding bestFinger_def by (drule bestFinger_foldl) simp

lemma nextHop_valid:
  assumes "ptrs_valid r" and "cur < length (nodes r)"
  shows "nextHop r cur k < length (nodes r)"
proof (cases "bestFinger (nodes r ! cur) k")
  case None
  from assms(2) have "Suc cur mod length (nodes r) < length (nodes r)"
    by (intro mod_less_divisor) auto
  with None show ?thesis by (simp add: nextHop_def)
next
  case (Some j)
  then obtain f where f: "f \<in> set (RT (nodes r ! cur))" "m_ptr f = Some j"
    using bestFinger_Some by blast
  have "nodes r ! cur \<in> set (nodes r)" using assms(2) by simp
  with f assms(1) have "j < length (nodes r)"
    unfolding ptrs_valid_def by force
  with Some show ?thesis by (simp add: nextHop_def)
qed

lemma route_loop_returns:
  "ptrs_valid r \<Longrightarrow> cur < length (nodes r) \<Longrightarrow> route_loop r k cur path visited \<noteq> None"
proof (induction r k cur path visited rule: route_loop.induct)
  case (1 r k cur path visited)
  have nh: "nextHop r cur k < length (nodes r)"
    using nextHop_valid [OF "1.prems"] .
  show ?case
  proof (cases "responsible r cur k \<or> key (nodes r ! nextHop r cur k) \<in> visited")
    case True
    then show ?thesis using nh by (subst route_loop.simps) auto
  next
    case False
    with "1.IH" "1.prems"(1) nh show ?thesis
      by (subst route_loop.simps) auto
  qed
qed

lemma route_loop_distinct:
  "route_loop r k cur path visited = Some p \<Longrightarrow> distinct path \<Longrightarrow> set path = visited \<Longrightarrow>
   visited \<subseteq> key ` set (nodes r) \<Longrightarrow> distinct p \<and> set p \<subseteq> key ` set (nodes r)"
proof (induction r k cur path visited rule: route_loop.induct)
  case (1 r k cur path visited)
  show ?case
  proof (cases "responsible r cur k \<or> nextHop r cur k \<ge> length (nodes r)
                \<or> key (nodes r ! nextHop r cur k) \<in> visited")
    case True
    with "1.prems" show ?thesis
      by (subst (asm) route_loop.simps) (auto split: if_splits)
  next
    case False
    let ?x = "key (nodes r ! nextHop r cur k)"
    from False have rec: "route_loop r k (nextHop r cur k) (path @ [?x]) (insert ?x visited) = Some p"
      using "1.prems"(1) by (subst (asm) route_loop.simps) auto
    have "distinct (path @ [?x])" using False "1.prems" by auto
    moreover have "set (path @ [?x]) = insert ?x visited" using "1.prems" by auto
    moreover have "insert ?x visited \<subseteq> key ` set (nodes r)" using False "1.prems" by auto
    ultimately show ?thesis
      using "1.IH" [OF _ _ _ rec] False by auto
  qed
qed

lemma routeToKey_distinct:
  assumes "routeToKey r s k = Some p"
  shows "distinct p \<and> length p \<le> length (nodes r)"
proof (cases "first_index (\<lambda>c. key c = s) (nodes r)")
  case None
  with assms show ?thesis by (simp add: routeToKey_def)
next
  case (Some cur)
  then have cur: "cur < length (nodes r)" by (simp add: first_index_Some)
  from Some assms have "route_loop r k cur [key (nodes r ! cur)] {key (nodes r ! cur)} = Some p"
    by (simp add: routeToKey_def)
  from route_loop_distinct [OF this] cur
  have d: "distinct p" and s: "set p \<subseteq> key ` set (nodes r)" by auto
  have "length p = card (set p)" using d by (simp add: distinct_card)
  also have "\<dots> \<le> card (key ` set (nodes r))" using s by (simp add: card_mono)
  also have "\<dots> \<le> card (set (nodes r))" by (simp add: card_image_le)
  also have "\<dots> \<le> length (nodes r)" by (simp add: card_length)
  finally show ?thesis using d by simp
qed

lemma routeToKey_returns:
  assumes "ptrs_valid r"
  shows "routeToKey r s k \<noteq> None"
proof (cases "first_index (\<lambda>c. key c = s) (nodes r)")
  case None
  then show ?thesis by (simp add: routeToKey_def)
next
  case (Some cur)
  then have "cur < length (nodes r)" by (simp add: first_index_Some)
  from route_loop_returns [OF assms this] Some show ?thesis
    by (simp add: routeToKey_def)
qed

lemma succ_valid: "succ r v = Some j \<Longrightarrow> j < length (nodes r)"
  by (auto simp: succ_def first_index_Some split: if_splits option.splits)

lemma nodes_updateRT_length [simp]: "length (nodes (updateRT r)) = length (nodes r)"
  by (simp add: updateRT_def)

lemma ptrs_valid_updateRT: "ptrs_valid (updateRT r)"
proof (cases "nodes r = []")
  case True
  then show ?thesis by (simp add: updateRT_def ptrs_valid_def)
next
  case False
  then show ?thesis
    by (auto simp: updateRT_def ptrs_valid_def finger_def Let_def succ_valid split: option.splits)
qed

text \<open>
  C8. \<^verbatim>\<open>routeToKey\<close> terminates on every ring, start ID and key: the loop is the
  total function \<open>route_loop\<close>, whose termination proof counts the IDs of the ring
  that are not yet visited. The IDs on a returned path are pairwise distinct, so the path
  is no longer than the ring has machines. A path is returned whenever the finger
  pointers address machines of the ring, which \<^verbatim>\<open>updateRT\<close> establishes.
\<close>

theorem routing_terminates:
  "(\<forall>path. routeToKey r s k = Some path \<longrightarrow> distinct path \<and> length path \<le> length (nodes r))
   \<and> (ptrs_valid r \<longrightarrow> (\<exists>path. routeToKey r s k = Some path))
   \<and> ptrs_valid (updateRT r)"
  using routeToKey_distinct [of r s k] routeToKey_returns [of r s k] ptrs_valid_updateRT [of r]
  by auto

theorem routing_terminates_witness:
  "routeToKey ring_1_4_9_11_14 14 3 = Some [14, 1, 4] \<and> distinct [14, 1, 4 :: int]
   \<and> length [14, 1, 4 :: int] \<le> length (nodes ring_1_4_9_11_14)
   \<and> ptrs_valid ring_1_4_9_11_14"
proof -
  have a: "routeToKey ring_1_4_9_11_14 14 3 = Some [14, 1, 4]" by code_simp
  have b: "ptrs_valid ring_1_4_9_11_14"
    using routing_terminates [of "foldl (\<lambda>r' a. if isValidMachineId r' a then insert_machine r' a else r') ring16 [1, 4, 9, 11, 14]" 0 0]
    by (simp add: ring_1_4_9_11_14_def InsertMachines_def)
  from routing_terminates [of ring_1_4_9_11_14 14 3] a b show ?thesis by auto
qed

section \<open>Insertion of a key that is present\<close>

lemma searchNode_loop_le: "searchNode_loop k es p \<le> p"
  by (induction p) auto

lemma searchNode_pos:
  "searchNode k n = Some (found, pos) \<Longrightarrow> n \<noteq> Null \<and> pos \<le> count n"
  using searchNode_loop_le [of k "entries n" "length (entries n)"]
  by (cases n) (auto simp: searchNode_def count_def Let_def split: if_splits)

lemma set_child_child: "i \<le> count n \<Longrightarrow> set_child n i (child n i) = n"
  by (cases n) (auto simp: set_child_def child_def count_def)

lemma setval_found:
  "findFile_node (fkey file) n = Some (Some f) \<Longrightarrow> setval file n = Some (Settled n True)"
proof (induction "fkey file" n rule: findFile_node.induct)
  case (1 n)
  from "1.prems" have nn: "n \<noteq> Null"
    by (subst (asm) findFile_node.simps) (auto split: if_splits)
  from "1.prems" nn obtain found pos where sn: "searchNode (fkey file) n = Some (found, pos)"
    by (subst (asm) findFile_node.simps) (auto split: option.splits)
  show ?case
  proof (cases found)
    case True
    with sn nn show ?thesis by (subst setval.simps) simp
  next
    case False
    with "1.prems" sn nn have "findFile_node (fkey file) (child n pos) = Some (Some f)"
      by (subst (asm) findFile_node.simps) simp
    with "1.hyps" [OF nn sn refl False] have "setval file (child n pos) = Some (Settled (child n pos) True)"
      by simp
    moreover have "set_child n pos (child n pos) = n"
      using searchNode_pos [OF sn] by (simp add: set_child_child)
    ultimately show ?thesis using sn nn False by (subst setval.simps) simp
  qed
qed

text \<open>
  When the lookup of a tree finds the key of a record, \<^verbatim>\<open>insertHelper\<close> with that
  record prints the duplicate message and returns the tree it was given.
\<close>

lemma insertHelper_found:
  assumes "searchFile t (fkey file) = Some True"
  shows "insertHelper t file ord = Some (t, True)"
proof -
  from assms obtain f where "findFile_node (fkey file) t = Some (Some f)"
    by (auto simp: searchFile_def)
  from setval_found [OF this] show ?thesis
    by (simp add: insertHelper_def insert_node_def)
qed

section \<open>Finger tables after a rebuild\<close>

lemma cpp_rem_mod: "0 \<le> a \<Longrightarrow> 0 < b \<Longrightarrow> cpp_rem a b = a mod b"
  by (cases "a = 0") (simp_all add: cpp_rem_def)

lemma ilog2_power: "ilog2 (2 ^ b) = b"
proof (induction b)
  case 0
  show ?case by (subst ilog2.simps) simp
next
  case (Suc b)
  have ge: "\<not> (2::int) ^ b < 1" by (simp add: not_less)
  show ?case by (subst ilog2.simps) (simp add: Suc ge)
qed

lemma numEntries_config: "valid_config r \<Longrightarrow> numEntries (identifierSpace r) = nat (bits r)"
  by (auto simp: valid_config_def numEntries_def ilog2_power)

lemma length_initialize [simp]: "length (initialize [] k IS) = numEntries IS"
  by (simp add: initialize_def)

lemma succ_successor_id:
  assumes srt: "sorted (map key (nodes r))" and j: "succ r x = Some j"
  shows "j < length (nodes r) \<and> key (nodes r ! j) = successor_id (map key (nodes r)) x"
proof -
  let ?ns = "nodes r"
  from j have ne: "?ns \<noteq> []" by (auto simp: succ_def split: if_splits)
  have mono: "a \<le> b \<Longrightarrow> b < length ?ns \<Longrightarrow> key (?ns ! a) \<le> key (?ns ! b)" for a b
    using srt sorted_nth_mono [of "map key ?ns" a b] by simp
  show ?thesis
  proof (cases "first_index (\<lambda>c. key c \<ge> x) ?ns")
    case None
    then have all: "\<forall>c \<in> set ?ns. \<not> key c \<ge> x" by (simp add: first_index_None)
    from None j ne have j0: "j = 0" by (simp add: succ_def)
    have "Min (set (map key ?ns)) = key (?ns ! 0)"
    proof (rule Min_eqI)
      show "finite (set (map key ?ns))" by simp
      show "key (?ns ! 0) \<in> set (map key ?ns)" using ne by (cases ?ns) auto
      fix y assume "y \<in> set (map key ?ns)"
      then obtain b where "b < length ?ns" "y = key (?ns ! b)"
        by (auto simp: in_set_conv_nth)
      with mono [of 0 b] show "key (?ns ! 0) \<le> y" by simp
    qed
    with all j0 ne show ?thesis by (auto simp: successor_id_def)
  next
    case (Some i)
    then have i: "i < length ?ns" "key (?ns ! i) \<ge> x" "\<forall>a < i. \<not> key (?ns ! a) \<ge> x"
      by (auto simp: first_index_Some)
    from Some j ne have ji: "j = i" by (simp add: succ_def)
    have ex: "\<exists>k \<in> set (map key ?ns). k \<ge> x" using i by auto
    have "Min {k \<in> set (map key ?ns). k \<ge> x} = key (?ns ! i)"
    proof (rule Min_eqI)
      show "finite {k \<in> set (map key ?ns). k \<ge> x}" by simp
      show "key (?ns ! i) \<in> {k \<in> set (map key ?ns). k \<ge> x}" using i by auto
      fix y assume "y \<in> {k \<in> set (map key ?ns). k \<ge> x}"
      then obtain b where b: "b < length ?ns" "y = key (?ns ! b)" "y \<ge> x"
        by (auto simp: in_set_conv_nth)
      with i(3) have "i \<le> b" by (meson not_le_imp_less)
      with mono [of i b] b show "key (?ns ! i) \<le> y" by simp
    qed
    with ex ji i show ?thesis by (simp add: successor_id_def)
  qed
qed

lemma updateRT_fields [simp]:
  "identifierSpace (updateRT r) = identifierSpace r" "bits (updateRT r) = bits r"
  by (simp_all add: updateRT_def)

lemma fingers_correct_updateRT:
  assumes wf: "ring_wf r" and ne: "nodes r \<noteq> []"
  shows "fingers_correct (updateRT r)"
proof -
  from wf have cfg: "valid_config r" and srt: "sorted (map key (nodes r))"
    and rng: "\<forall>c \<in> set (nodes r). 0 \<le> key c \<and> key c < identifierSpace r"
    by (auto simp: ring_wf_def)
  have pos: "0 < identifierSpace r" using cfg by (simp add: valid_config_def)
  have n: "numEntries (identifierSpace r) = nat (bits r)" using cfg by (rule numEntries_config)
  have fing: "finger_correct (map key (nodes r)) (identifierSpace r) k i (finger r k i)"
    if k: "0 \<le> k" for k i
  proof -
    let ?t = "cpp_rem (k + 2 ^ i) (identifierSpace r)"
    have t: "?t = (k + 2 ^ i) mod identifierSpace r"
      using k pos by (intro cpp_rem_mod) simp_all
    obtain j where j: "succ r ?t = Some j"
      using ne by (cases "first_index (\<lambda>c. key c \<ge> ?t) (nodes r)") (auto simp: succ_def)
    from succ_successor_id [OF srt j] j t show ?thesis
      by (simp add: finger_def finger_correct_def Let_def)
  qed
  show ?thesis
    unfolding fingers_correct_def
  proof (intro ballI conjI)
    fix c assume c: "c \<in> set (nodes (updateRT r))"
    then obtain c0 where c0: "c0 \<in> set (nodes r)" "c = c0\<lparr>RT := map (finger r (key c0)) [0 ..< nat (bits r)]\<rparr>"
      using ne n by (auto simp: updateRT_def)
    show "length (RT c) = nat (bits (updateRT r))" using c0 by simp
    fix i assume i: "i \<in> {0 ..< nat (bits (updateRT r))}"
    from c0 rng have k: "0 \<le> key c0" by auto
    from i c0 have rt: "RT c ! i = finger r (key c0) i" by simp
    from fing [OF k, of i] rt c0
    show "finger_correct (map key (nodes (updateRT r))) (identifierSpace (updateRT r)) (key c) i (RT c ! i)"
      by simp
  qed
qed

lemma insert_machine_fields [simp]:
  "bits (insert_machine r v) = bits r" "btreeOrder (insert_machine r v) = btreeOrder r"
  by (simp_all add: insert_machine_def Let_def split: list.splits)

lemma insort_takeWhile: "insort v xs = takeWhile (\<lambda>x. x < v) xs @ v # dropWhile (\<lambda>x. x < v) xs"
  for v :: int
  by (induction xs) auto

lemma map_takeWhile_key: "map key (takeWhile (\<lambda>c. key c < v) t) = takeWhile (\<lambda>x. x < v) (map key t)"
  by (induction t) auto

lemma map_dropWhile_key: "map key (dropWhile (\<lambda>c. key c < v) t) = dropWhile (\<lambda>x. x < v) (map key t)"
  by (induction t) auto

lemma keys_insert_machine_sorted:
  assumes "sorted (map key (nodes r))"
  shows "map key (nodes (insert_machine r v)) = insort v (map key (nodes r))"
proof (cases "nodes r")
  case Nil
  then show ?thesis by (simp add: insert_machine_def)
next
  case (Cons h t)
  show ?thesis
  proof (cases "v < key h")
    case True
    with Cons show ?thesis by (simp add: insert_machine_def comp_def)
  next
    case False
    have eq: "map key (nodes (insert_machine r v))
        = key h # takeWhile (\<lambda>x. x < v) (map key t) @ v # dropWhile (\<lambda>x. x < v) (map key t)"
      using Cons False
      by (simp add: insert_machine_def Let_def comp_def map_takeWhile_key [symmetric]
          map_dropWhile_key [symmetric])
    show ?thesis
    proof (cases "v = key h")
      case True
      from assms Cons True have "\<forall>x \<in> set (map key t). \<not> x < v" by auto
      then have "takeWhile (\<lambda>x. x < v) (map key t) = []" "dropWhile (\<lambda>x. x < v) (map key t) = map key t"
        by (cases t; simp)+
      with eq Cons True show ?thesis by simp
    next
      case False
      with \<open>\<not> v < key h\<close> have "key h < v" by simp
      with eq Cons show ?thesis by (simp add: insort_takeWhile)
    qed
  qed
qed

lemma ring_wf_insert_machine:
  assumes "ring_wf r" "0 \<le> v" "v < identifierSpace r"
  shows "ring_wf (insert_machine r v)"
proof -
  from assms(1) have s: "sorted (map key (nodes r))" by (simp add: ring_wf_def)
  from keys_insert_machine_sorted [OF s, of v] assms show ?thesis
    by (auto simp: ring_wf_def valid_config_def sorted_insort set_insort_key)
qed

lemma ring_wf_cong:
  "map key (nodes r') = map key (nodes r) \<Longrightarrow> identifierSpace r' = identifierSpace r \<Longrightarrow>
   bits r' = bits r \<Longrightarrow> ring_wf r' = ring_wf r"
  by (simp add: ring_wf_def valid_config_def)

lemma ring_wf_updateRT [simp]: "ring_wf (updateRT r) = ring_wf r"
  by (rule ring_wf_cong) simp_all

lemma map_update_frame:
  assumes "\<And>x. f (g x) = f x"
  shows "map f (xs[i := g (xs ! i)]) = map f xs"
proof (cases "i < length xs")
  case True
  then show ?thesis by (simp add: map_update assms list_update_same_conv)
next
  case False
  then show ?thesis by (simp add: list_update_beyond)
qed

lemma move_files_frame:
  "move_files fs ord new suc ns = Some ns' \<Longrightarrow>
   map key ns' = map key ns \<and> map RT ns' = map RT ns"
proof (induction fs arbitrary: ns)
  case Nil
  then show ?case by simp
next
  case (Cons f fs)
  from Cons.prems obtain t1 dup t2 missing where
    rec: "move_files fs ord new suc
            ((ns[new := (ns ! new)\<lparr>BTreeroot := t1\<rparr>])
               [suc := ((ns[new := (ns ! new)\<lparr>BTreeroot := t1\<rparr>]) ! suc)\<lparr>BTreeroot := t2\<rparr>]) = Some ns'"
    by (auto simp: Let_def split: option.splits prod.splits)
  have "map key ((ns[new := (ns ! new)\<lparr>BTreeroot := t1\<rparr>])
               [suc := ((ns[new := (ns ! new)\<lparr>BTreeroot := t1\<rparr>]) ! suc)\<lparr>BTreeroot := t2\<rparr>]) = map key ns"
    by (simp add: map_update_frame [where g = "\<lambda>c. c\<lparr>BTreeroot := t2\<rparr>"]
        map_update_frame [where g = "\<lambda>c. c\<lparr>BTreeroot := t1\<rparr>"])
  moreover have "map RT ((ns[new := (ns ! new)\<lparr>BTreeroot := t1\<rparr>])
               [suc := ((ns[new := (ns ! new)\<lparr>BTreeroot := t1\<rparr>]) ! suc)\<lparr>BTreeroot := t2\<rparr>]) = map RT ns"
    by (simp add: map_update_frame [where g = "\<lambda>c. c\<lparr>BTreeroot := t2\<rparr>"]
        map_update_frame [where g = "\<lambda>c. c\<lparr>BTreeroot := t1\<rparr>"])
  ultimately show ?case using Cons.IH [OF rec] by simp
qed

lemma Traverse_insert_frame:
  assumes "Traverse_insert r prev ord = Some r'"
  shows "map key (nodes r') = map key (nodes r) \<and> map RT (nodes r') = map RT (nodes r) \<and>
         identifierSpace r' = identifierSpace r \<and> bits r' = bits r \<and> btreeOrder r' = btreeOrder r"
  using assms move_files_frame
  by (auto simp: Traverse_insert_def Let_def split: if_splits)

lemma fingers_correct_zip:
  "fingers_correct r \<longleftrightarrow>
     (\<forall>(k, t) \<in> set (zip (map key (nodes r)) (map RT (nodes r))).
        length t = nat (bits r) \<and>
        (\<forall>i \<in> {0 ..< nat (bits r)}.
           finger_correct (map key (nodes r)) (identifierSpace r) k i (t ! i)))"
  unfolding fingers_correct_def by (simp add: zip_map_map zip_same_conv_map)

lemma fingers_correct_cong:
  assumes "map key (nodes r') = map key (nodes r)" and "map RT (nodes r') = map RT (nodes r)"
    and "identifierSpace r' = identifierSpace r" and "bits r' = bits r"
  shows "fingers_correct r' = fingers_correct r"
  unfolding fingers_correct_zip using assms by simp

lemma sorted_remove_nth:
  "sorted xs \<Longrightarrow> sorted (take i xs @ drop (Suc i) xs)" for xs :: "int list"
proof (induction xs arbitrary: i)
  case Nil
  show ?case by simp
next
  case (Cons x xs)
  show ?case
  proof (cases i)
    case 0
    with Cons.prems show ?thesis by simp
  next
    case (Suc i')
    have "set (take i' xs @ drop (Suc i') xs) \<subseteq> set xs"
      using set_take_subset [of i' xs] set_drop_subset [of "Suc i'" xs] by auto
    with Cons Suc show ?thesis by auto
  qed
qed

lemma distinct_remove_nth:
  "distinct xs \<Longrightarrow> distinct (take i xs @ drop (Suc i) xs)"
proof (induction xs arbitrary: i)
  case Nil
  show ?case by simp
next
  case (Cons x xs)
  show ?case
  proof (cases i)
    case 0
    with Cons.prems show ?thesis by simp
  next
    case (Suc i')
    have "set (take i' xs @ drop (Suc i') xs) \<subseteq> set xs"
      using set_take_subset [of i' xs] set_drop_subset [of "Suc i'" xs] by auto
    with Cons Suc show ?thesis by auto
  qed
qed

lemma set_remove_nth_subset: "set (take i xs @ drop (Suc i) xs) \<subseteq> set xs"
  using set_take_subset [of i xs] set_drop_subset [of "Suc i" xs] by auto

lemma Traverse_delete_frame:
  "Traverse_delete source destination ord = Some (d, dups) \<Longrightarrow>
   key d = key destination \<and> RT d = RT destination"
  by (auto simp: Traverse_delete_def split: if_splits)

text \<open>What a successful leave returns: the ring without the first machine that has the ID.\<close>

lemma deletekey_Removed:
  assumes "deletekey r v ord = Some (Removed, r')"
  obtains cur r2 where
    "first_index (\<lambda>c. key c = v) (nodes r) = Some cur"
    "map key (nodes r2) = take cur (map key (nodes r)) @ drop (Suc cur) (map key (nodes r))"
    "identifierSpace r2 = identifierSpace r" "bits r2 = bits r" "btreeOrder r2 = btreeOrder r"
    "r' = (if nodes r2 \<noteq> [] then updateRT r2 else r2)"
proof -
  from assms have ne: "nodes r \<noteq> []"
    by (auto simp: deletekey_def split: if_splits)
  from assms ne obtain cur where cur: "first_index (\<lambda>c. key c = v) (nodes r) = Some cur"
    by (auto simp: deletekey_def split: option.splits)
  let ?ns = "nodes r"
  let ?suc = "Suc cur mod length ?ns"
  from assms ne cur obtain ns1 where
    ns1: "(if ?suc \<noteq> cur
           then map_option (\<lambda>(d, dups). ?ns[?suc := d]) (Traverse_delete (?ns ! cur) (?ns ! ?suc) ord)
           else Some ?ns) = Some ns1"
    and r': "r' = (let r2 = r\<lparr>nodes := take cur ns1 @ drop (Suc cur) ns1\<rparr>
                   in if nodes r2 \<noteq> [] then updateRT r2 else r2)"
    by (auto simp: deletekey_def Let_def split: option.splits)
  have k1: "map key ns1 = map key ?ns"
  proof (cases "?suc \<noteq> cur")
    case True
    with ns1 obtain d dups where d: "Traverse_delete (?ns ! cur) (?ns ! ?suc) ord = Some (d, dups)"
      and e: "ns1 = ?ns[?suc := d]" by auto
    from Traverse_delete_frame [OF d] have "key d = key (?ns ! ?suc)" by simp
    with e show ?thesis by (simp add: map_update list_update_same_conv ne)
  next
    case False
    with ns1 show ?thesis by simp
  qed
  let ?r2 = "r\<lparr>nodes := take cur ns1 @ drop (Suc cur) ns1\<rparr>"
  have "map key (nodes ?r2) = take cur (map key ?ns) @ drop (Suc cur) (map key ?ns)"
    using k1 by (simp add: take_map [symmetric] drop_map [symmetric])
  with cur r' that [of cur ?r2] show thesis by (simp add: Let_def)
qed

lemma ring_wf_deletekey:
  assumes wf: "ring_wf r" and d: "deletekey r v ord = Some (Removed, r')"
  shows "ring_wf r' \<and> (nodes r' \<noteq> [] \<longrightarrow> fingers_correct r')"
proof -
  from d obtain cur r2 where
    k: "map key (nodes r2) = take cur (map key (nodes r)) @ drop (Suc cur) (map key (nodes r))"
    and f: "identifierSpace r2 = identifierSpace r" "bits r2 = bits r"
    and r': "r' = (if nodes r2 \<noteq> [] then updateRT r2 else r2)"
    by (rule deletekey_Removed)
  have "ring_wf r2"
    using wf k f sorted_remove_nth [of "map key (nodes r)" cur]
      set_remove_nth_subset [of cur "map key (nodes r)"]
    by (auto simp: ring_wf_def valid_config_def)
  with r' fingers_correct_updateRT [of r2] show ?thesis by auto
qed

text \<open>What a successful join returns.\<close>

lemma insertAfter_Added:
  assumes "insertAfter r v ord = Some (Added, r')"
  shows "\<not> search r v \<and> 0 \<le> v \<and> v < identifierSpace r \<and>
         map key (nodes r') = map key (nodes (insert_machine r v)) \<and>
         map RT (nodes r') = map RT (nodes (updateRT (insert_machine r v))) \<and>
         identifierSpace r' = identifierSpace r \<and> bits r' = bits r \<and> btreeOrder r' = btreeOrder r"
proof -
  let ?r1 = "updateRT (insert_machine r v)"
  from assms have a: "\<not> search r v" "0 \<le> v" "v < identifierSpace r"
    by (auto simp: insertAfter_def split: if_splits)
  have "r' = ?r1 \<or> (\<exists>prev. Traverse_insert ?r1 prev ord = Some r')"
    using assms a by (auto simp: insertAfter_def Let_def split: option.splits if_splits)
  then show ?thesis
  proof
    assume "r' = ?r1"
    with a show ?thesis by (simp add: updateRT_def)
  next
    assume "\<exists>prev. Traverse_insert ?r1 prev ord = Some r'"
    then obtain prev where "Traverse_insert ?r1 prev ord = Some r'" ..
    from Traverse_insert_frame [OF this] a show ?thesis by (simp add: updateRT_def)
  qed
qed

lemma ring_wf_insertAfter:
  assumes wf: "ring_wf r" and a: "insertAfter r v ord = Some (Added, r')"
  shows "ring_wf r' \<and> fingers_correct r'"
proof -
  let ?r1 = "updateRT (insert_machine r v)"
  note f = insertAfter_Added [OF a]
  have wf1: "ring_wf (insert_machine r v)"
    using wf f by (intro ring_wf_insert_machine) auto
  have ne: "nodes (insert_machine r v) \<noteq> []"
    by (auto simp: insert_machine_def Let_def split: list.splits)
  have "fingers_correct ?r1" using wf1 ne by (rule fingers_correct_updateRT)
  moreover have "fingers_correct r' = fingers_correct ?r1"
    using f by (intro fingers_correct_cong) simp_all
  moreover have "ring_wf r' = ring_wf (insert_machine r v)"
    using f by (intro ring_wf_cong) simp_all
  ultimately show ?thesis using wf1 by simp
qed

lemma ring_wf_insert_loop:
  "ring_wf r \<Longrightarrow>
   ring_wf (foldl (\<lambda>r' a. if isValidMachineId r' a then insert_machine r' a else r') r arr)"
proof (induction arr arbitrary: r)
  case Nil
  then show ?case by simp
next
  case (Cons a arr)
  show ?case
  proof (cases "isValidMachineId r a")
    case True
    with Cons.prems have "ring_wf (insert_machine r a)"
      by (intro ring_wf_insert_machine) (auto simp: isValidMachineId_def)
    from Cons.IH [OF this] True show ?thesis by simp
  next
    case False
    with Cons.IH [OF Cons.prems] show ?thesis by simp
  qed
qed

lemma ring_wf_InsertMachines:
  assumes "ring_wf r"
  shows "ring_wf (InsertMachines r arr) \<and>
         (nodes (InsertMachines r arr) \<noteq> [] \<longrightarrow> fingers_correct (InsertMachines r arr))"
proof -
  let ?r1 = "foldl (\<lambda>r' a. if isValidMachineId r' a then insert_machine r' a else r') r arr"
  have wf1: "ring_wf ?r1" using assms by (rule ring_wf_insert_loop)
  have "nodes (updateRT ?r1) \<noteq> [] \<Longrightarrow> nodes ?r1 \<noteq> []"
    by (auto simp: updateRT_def)
  with wf1 fingers_correct_updateRT [of ?r1] show ?thesis
    by (auto simp: InsertMachines_def)
qed

text \<open>
  C2. On a ring whose IDs ascend from \<^verbatim>\<open>head\<close> inside the identifier space,
  \<^verbatim>\<open>updateRT\<close> leaves every machine with \<open>bits\<close> fingers, the finger \<open>i\<close> of machine
  \<open>n\<close> storing the target \<open>(n + 2 ^ i) mod N\<close>, the ID of the target's successor (the
  smallest ID at or above the target, else the smallest ID) and a pointer to a machine
  with that ID. Joins, leaves and the bulk insertion keep the ring in that form and end
  with such a rebuild, so the same holds after each of them on a non-empty ring.
\<close>

theorem finger_tables_correct_after_rebuild:
  "ring_wf r \<Longrightarrow>
     (nodes r \<noteq> [] \<longrightarrow> fingers_correct (updateRT r)) \<and>
     (\<forall>r'. insertAfter r v ord = Some (Added, r') \<longrightarrow> ring_wf r' \<and> fingers_correct r') \<and>
     (\<forall>r'. deletekey r w ord = Some (Removed, r') \<longrightarrow>
          ring_wf r' \<and> (nodes r' \<noteq> [] \<longrightarrow> fingers_correct r')) \<and>
     ring_wf (InsertMachines r arr) \<and>
     (nodes (InsertMachines r arr) \<noteq> [] \<longrightarrow> fingers_correct (InsertMachines r arr))"
  using fingers_correct_updateRT [of r] ring_wf_insertAfter [of r v ord]
    ring_wf_deletekey [of r w ord] ring_wf_InsertMachines [of r arr]
  by blast

theorem finger_tables_correct_after_rebuild_witness:
  "ring_wf ring16 \<and> fingers_correct ring_2_5_10 \<and>
   map (\<lambda>f. (filekey f, machinekey f, m_ptr f)) (RT (nodes ring_2_5_10 ! 2))
     = [(11, 2, Some 0), (12, 2, Some 0), (14, 2, Some 0), (2, 2, Some 0)] \<and>
   fingers_correct (after (insertAfter ring_2_5_10 12 3)) \<and>
   fingers_correct (after (deletekey ring_2_5_10 5 3))"
proof -
  have wf: "ring_wf ring16" by code_simp
  have ne: "nodes (InsertMachines ring16 [2, 5, 10]) \<noteq> []" by code_simp
  have a: "fingers_correct ring_2_5_10"
    using finger_tables_correct_after_rebuild [OF wf, of 0 0 0 "[2, 5, 10]"] ne
    by (simp add: ring_2_5_10_def)
  have b: "map (\<lambda>f. (filekey f, machinekey f, m_ptr f)) (RT (nodes ring_2_5_10 ! 2))
     = [(11, 2, Some 0), (12, 2, Some 0), (14, 2, Some 0), (2, 2, Some 0)]" by code_simp
  have wf2: "ring_wf ring_2_5_10" by code_simp
  have j: "insertAfter ring_2_5_10 12 3 = Some (Added, after (insertAfter ring_2_5_10 12 3))"
    by code_simp
  have l: "deletekey ring_2_5_10 5 3 = Some (Removed, after (deletekey ring_2_5_10 5 3))"
    by code_simp
  have l': "nodes (after (deletekey ring_2_5_10 5 3)) \<noteq> []" by code_simp
  from finger_tables_correct_after_rebuild [OF wf2, of 12 3 5 "[]"] j l l' wf a b
  show ?thesis by metis
qed

section \<open>Soundness of routing\<close>

lemma isBetween_cdist:
  assumes "0 \<le> s" "s < N" "0 \<le> e" "e < N" "0 \<le> t" "t < N" "s \<noteq> e"
  shows "isBetween t s e \<longleftrightarrow> 0 < cdist N s t \<and> cdist N s t \<le> cdist N s e"
  using assms by (auto simp: isBetween_def cdist_def)

lemma cdist_progress:
  assumes "0 \<le> c" "c < N" "0 \<le> m" "m < N" "0 \<le> s" "s < N"
    and "0 < cdist N c m" "cdist N c m \<le> cdist N c s"
  shows "cdist N m s < cdist N c s"
  using assms by (auto simp: cdist_def split: if_splits)

lemma cdist_key_before_resp:
  assumes "0 \<le> c" "c < N" "0 \<le> k" "k < N" "0 \<le> s" "s < N"
    and "cdist N k s \<le> cdist N k c" "c \<noteq> s"
  shows "cdist N c k \<le> cdist N c s \<and> c \<noteq> k"
  using assms by (auto simp: cdist_def split: if_splits)

lemma cdist_zero: "0 \<le> a \<Longrightarrow> a < N \<Longrightarrow> 0 \<le> b \<Longrightarrow> b < N \<Longrightarrow> cdist N a b = 0 \<longleftrightarrow> a = b"
  by (auto simp: cdist_def)

lemma cdist_inj:
  "0 \<le> a \<Longrightarrow> a < N \<Longrightarrow> 0 \<le> b \<Longrightarrow> b < N \<Longrightarrow> 0 \<le> c \<Longrightarrow> c < N \<Longrightarrow>
   cdist N a b = cdist N a c \<Longrightarrow> b = c"
  by (auto simp: cdist_def split: if_splits)

text \<open>The successor in the words of the specification is the ID nearest to the key clockwise.\<close>

lemma successor_id_nearest:
  assumes ne: "ids \<noteq> []" and rng: "\<forall>i \<in> set ids. 0 \<le> i \<and> i < N" and k: "0 \<le> k" "k < N"
  shows "successor_id ids k \<in> set ids \<and>
         (\<forall>y \<in> set ids. cdist N k (successor_id ids k) \<le> cdist N k y)"
proof (cases "\<exists>i \<in> set ids. i \<ge> k")
  case True
  let ?S = "{i \<in> set ids. i \<ge> k}"
  have fin: "finite ?S" and nemp: "?S \<noteq> {}" using True by auto
  have s: "successor_id ids k = Min ?S" using True by (simp add: successor_id_def)
  have mem: "Min ?S \<in> ?S" using fin nemp by (rule Min_in)
  have le: "\<And>y. y \<in> ?S \<Longrightarrow> Min ?S \<le> y" using fin by (rule Min_le)
  show ?thesis
  proof (intro conjI ballI)
    show "successor_id ids k \<in> set ids" using mem s by simp
    fix y assume y: "y \<in> set ids"
    show "cdist N k (successor_id ids k) \<le> cdist N k y"
    proof (cases "y \<ge> k")
      case True
      with y le [of y] mem s show ?thesis by (auto simp: cdist_def)
    next
      case False
      have "Min ?S < N" "k \<le> Min ?S" "0 \<le> y" using mem rng y by auto
      with False s show ?thesis by (auto simp: cdist_def)
    qed
  qed
next
  case False
  have s: "successor_id ids k = Min (set ids)" using False by (simp add: successor_id_def)
  have mem: "Min (set ids) \<in> set ids" using ne by (intro Min_in) auto
  have le: "\<And>y. y \<in> set ids \<Longrightarrow> Min (set ids) \<le> y" by (intro Min_le) auto
  show ?thesis
  proof (intro conjI ballI)
    show "successor_id ids k \<in> set ids" using mem s by simp
    fix y assume y: "y \<in> set ids"
    with False le [of y] mem s show "cdist N k (successor_id ids k) \<le> cdist N k y"
      by (auto simp: cdist_def)
  qed
qed

text \<open>On a ring with ascending distinct IDs the \<^verbatim>\<open>next\<close> of a machine is the nearest other ID.\<close>

lemma next_nearest:
  assumes srt: "sorted ids" and dst: "distinct ids" and rng: "\<forall>i \<in> set ids. 0 \<le> i \<and> i < N"
    and cur: "cur < length ids" and y: "y \<in> set ids" "y \<noteq> ids ! cur"
  shows "0 < cdist N (ids ! cur) (ids ! (Suc cur mod length ids)) \<and>
         cdist N (ids ! cur) (ids ! (Suc cur mod length ids)) \<le> cdist N (ids ! cur) y"
proof -
  have strict: "a < b \<Longrightarrow> b < length ids \<Longrightarrow> ids ! a < ids ! b" for a b
  proof -
    assume ab: "a < b" "b < length ids"
    then have "ids ! a \<le> ids ! b" using srt by (simp add: sorted_nth_mono)
    moreover have "ids ! a \<noteq> ids ! b" using ab dst by (simp add: nth_eq_iff_index_eq)
    ultimately show "ids ! a < ids ! b" by simp
  qed
  from y obtain b where b: "b < length ids" "y = ids ! b" "b \<noteq> cur"
    by (auto simp: in_set_conv_nth)
  have yr: "0 \<le> y" "y < N" using y rng by auto
  have cr: "0 \<le> ids ! cur" "ids ! cur < N" using cur rng by auto
  show ?thesis
  proof (cases "Suc cur < length ids")
    case True
    then have nx: "Suc cur mod length ids = Suc cur" by simp
    have lt: "ids ! cur < ids ! Suc cur" using strict [of cur "Suc cur"] True by simp
    have nr: "ids ! Suc cur < N" using True rng by auto
    show ?thesis
    proof (cases "b < cur")
      case True
      with strict [of b cur] cur b have "y < ids ! cur" by simp
      with lt yr nr nx show ?thesis by (auto simp: cdist_def)
    next
      case False
      with b have "Suc cur \<le> b" by simp
      then have "ids ! Suc cur \<le> y"
        using strict [of "Suc cur" b] b by (cases "Suc cur = b") auto
      with lt nx show ?thesis by (auto simp: cdist_def)
    qed
  next
    case False
    with cur have last: "Suc cur = length ids" by simp
    then have nx: "Suc cur mod length ids = 0" by simp
    from b last have bl: "b < cur" by simp
    then have c0: "0 < cur" by simp
    have h0: "ids ! 0 < ids ! cur" using strict [of 0 cur] c0 cur by simp
    have "ids ! 0 \<le> y" using strict [of 0 b] b by (cases "b = 0") auto
    moreover have "y < ids ! cur" using strict [of b cur] bl cur b by simp
    moreover have "0 \<le> ids ! 0" using rng cur by (cases ids) auto
    ultimately show ?thesis using h0 nx cr by (auto simp: cdist_def)
  qed
qed

lemma findPredecessor_next:
  assumes "findPredecessor r x = Some p"
  shows "p < length (nodes r) \<and> key (nodes r ! (Suc p mod length (nodes r))) = x"
  using assms by (auto simp: findPredecessor_def first_index_Some nth_rotate1)

lemma findPredecessor_exists:
  assumes "cur < length (nodes r)"
  shows "\<exists>p. findPredecessor r (key (nodes r ! cur)) = Some p"
proof -
  have "nodes r ! cur \<in> set (rotate1 (nodes r))" using assms by simp
  then have "first_index (\<lambda>c. key c = key (nodes r ! cur)) (rotate1 (nodes r)) \<noteq> None"
    by (auto simp: first_index_None)
  then show ?thesis by (auto simp: findPredecessor_def)
qed

lemma cdist_resp_unique:
  assumes "0 \<le> pk" "pk < N" "0 \<le> ck" "ck < N" "0 \<le> k" "k < N" "0 \<le> s" "s < N"
    and "0 < cdist N pk k" "cdist N pk k \<le> cdist N pk ck" "cdist N k s \<le> cdist N k ck"
    and "s = pk \<or> cdist N pk ck \<le> cdist N pk s"
  shows "s = ck"
  using assms by (auto simp: cdist_def split: if_splits)

text \<open>
  The responsibility test, given the ID of the machine, the ID \<open>pk\<close> of the machine
  found as its predecessor and the number of machines.
\<close>

lemma responsible_unfold:
  assumes "findPredecessor r (key (nodes r ! cur)) = Some p"
  shows "responsible r cur k \<longleftrightarrow>
         (length (nodes r) = 1 \<or> isBetween k (key (nodes r ! p)) (key (nodes r ! cur)))"
  using assms by (auto simp: responsible_def Let_def getMachineCount_def isBetween_def)

lemma responsible_iff:
  assumes srt: "sorted (map key (nodes r))" and dst: "distinct (map key (nodes r))"
    and rng: "\<forall>i \<in> set (map key (nodes r)). 0 \<le> i \<and> i < N"
    and cur: "cur < length (nodes r)" and k: "0 \<le> k" "k < N"
  shows "responsible r cur k \<longleftrightarrow> key (nodes r ! cur) = successor_id (map key (nodes r)) k"
proof -
  let ?ns = "nodes r" and ?ids = "map key (nodes r)"
  let ?s = "successor_id ?ids k" and ?ck = "key (?ns ! cur)"
  have ne: "?ids \<noteq> []" using cur by auto
  note near = successor_id_nearest [OF ne rng k]
  obtain p where p: "findPredecessor r ?ck = Some p"
    using findPredecessor_exists [OF cur] by blast
  note pn = findPredecessor_next [OF p]
  have sr: "0 \<le> ?s" "?s < N" using near rng by auto
  have cr: "0 \<le> ?ck" "?ck < N" "?ck \<in> set ?ids" using cur rng by auto
  show ?thesis
  proof (cases "length ?ns = 1")
    case True
    then have "set ?ids = {?ck}" using cur by (cases ?ns) auto
    with near True p show ?thesis by (auto simp: responsible_unfold)
  next
    case False
    let ?pk = "key (?ns ! p)"
    have pr: "0 \<le> ?pk" "?pk < N" using pn rng by auto
    have sl: "Suc p mod length ?ns < length ?ns" using cur by (intro mod_less_divisor) auto
    then have "?ids ! (Suc p mod length ?ns) = ?ids ! cur" using pn cur by simp
    then have nx: "Suc p mod length ?ns = cur"
      using dst cur sl nth_eq_iff_index_eq [of ?ids "Suc p mod length ?ns" cur] by simp
    have pc: "p \<noteq> cur"
    proof
      assume "p = cur"
      with nx have e: "Suc cur mod length ?ns = cur" by simp
      show False
      proof (cases "Suc cur < length ?ns")
        case True
        with e show False by simp
      next
        case False
        with cur have "Suc cur = length ?ns" by simp
        with e have "cur = 0" by simp
        with \<open>Suc cur = length ?ns\<close> \<open>length ?ns \<noteq> 1\<close> show False by simp
      qed
    qed
    then have pck: "?pk \<noteq> ?ck"
      using dst cur pn nth_eq_iff_index_eq [of ?ids p cur] by simp
    have btw: "isBetween k ?pk ?ck \<longleftrightarrow> 0 < cdist N ?pk k \<and> cdist N ?pk k \<le> cdist N ?pk ?ck"
      using pr cr k pck by (intro isBetween_cdist) simp_all
    have nn: "\<And>y. y \<in> set ?ids \<Longrightarrow> y \<noteq> ?pk \<Longrightarrow> cdist N ?pk ?ck \<le> cdist N ?pk y"
      using next_nearest [OF srt dst rng, of p] pn nx cur by simp
    show ?thesis
    proof
      assume "responsible r cur k"
      with p False btw have b: "0 < cdist N ?pk k" "cdist N ?pk k \<le> cdist N ?pk ?ck"
        by (auto simp: responsible_unfold)
      have m: "cdist N k ?s \<le> cdist N k ?ck" using near cr by blast
      have "?s = ?pk \<or> cdist N ?pk ?ck \<le> cdist N ?pk ?s"
        using nn [of ?s] near by blast
      from cdist_resp_unique [OF pr cr(1,2) k sr b m this] show "?ck = ?s" by simp
    next
      assume e: "?ck = ?s"
      have "?pk \<in> set ?ids" using pn by simp
      with near have "cdist N k ?s \<le> cdist N k ?pk" by blast
      with e have m: "cdist N k ?ck \<le> cdist N k ?pk" by simp
      from cdist_key_before_resp [OF pr k cr(1,2) m pck]
      have "cdist N ?pk k \<le> cdist N ?pk ?ck" "?pk \<noteq> k" by auto
      moreover have "0 < cdist N ?pk k"
        using \<open>?pk \<noteq> k\<close> pr k by (auto simp: cdist_def)
      ultimately show "responsible r cur k"
        using p btw by (simp add: responsible_unfold)
    qed
  qed
qed

lemma bestFinger_foldl_between:
  "foldl (\<lambda>nextHop f. if m_ptr f \<noteq> None \<and> isBetween (machinekey f) a k then m_ptr f else nextHop)
         acc fs = Some j
   \<Longrightarrow> acc = Some j \<or> (\<exists>f \<in> set fs. m_ptr f = Some j \<and> isBetween (machinekey f) a k)"
  by (induction fs arbitrary: acc) (auto split: if_splits)

lemma bestFinger_between:
  "bestFinger c k = Some j \<Longrightarrow> \<exists>f \<in> set (RT c). m_ptr f = Some j \<and> isBetween (machinekey f) (key c) k"
  unfolding bestFinger_def by (drule bestFinger_foldl_between) simp

lemma fingers_correct_ptr:
  assumes fc: "fingers_correct r" and c: "c \<in> set (nodes r)" and f: "f \<in> set (RT c)"
    and m: "m_ptr f = Some j"
  shows "j < length (nodes r) \<and> key (nodes r ! j) = machinekey f"
proof -
  from f obtain i where i: "i < length (RT c)" "f = RT c ! i" by (auto simp: in_set_conv_nth)
  from fc c have "length (RT c) = nat (bits r)"
    and "\<forall>i \<in> {0 ..< nat (bits r)}. finger_correct (map key (nodes r)) (identifierSpace r) (key c) i (RT c ! i)"
    by (auto simp: fingers_correct_def)
  with i have "finger_correct (map key (nodes r)) (identifierSpace r) (key c) i f" by simp
  with m show ?thesis by (auto simp: finger_correct_def)
qed

lemma nextHop_progress:
  assumes ok: "ring_ok r" and cur: "cur < length (nodes r)"
    and k: "0 \<le> k" "k < identifierSpace r"
    and nr: "key (nodes r ! cur) \<noteq> successor_id (map key (nodes r)) k"
  shows "nextHop r cur k < length (nodes r) \<and>
         0 < cdist (identifierSpace r) (key (nodes r ! cur)) (key (nodes r ! nextHop r cur k)) \<and>
         cdist (identifierSpace r) (key (nodes r ! cur)) (key (nodes r ! nextHop r cur k))
           \<le> cdist (identifierSpace r) (key (nodes r ! cur)) (successor_id (map key (nodes r)) k)"
proof -
  let ?ns = "nodes r" and ?ids = "map key (nodes r)" and ?N = "identifierSpace r"
  let ?s = "successor_id ?ids k" and ?ck = "key (?ns ! cur)"
  from ok have srt: "sorted ?ids" and dst: "distinct ?ids"
    and rng: "\<forall>i \<in> set ?ids. 0 \<le> i \<and> i < ?N" and fc: "fingers_correct r"
    by (auto simp: ring_ok_def ring_wf_def)
  have ne: "?ids \<noteq> []" using cur by auto
  note near = successor_id_nearest [OF ne rng k]
  have sr: "0 \<le> ?s" "?s < ?N" using near rng by auto
  have cr: "0 \<le> ?ck" "?ck < ?N" "?ck \<in> set ?ids" using cur rng by auto
  show ?thesis
  proof (cases "bestFinger (?ns ! cur) k")
    case None
    then have nh: "nextHop r cur k = Suc cur mod length ?ns" by (simp add: nextHop_def)
    have "Suc cur mod length ?ns < length ?ns" using cur by (intro mod_less_divisor) auto
    moreover have "?ids ! (Suc cur mod length ?ns) = key (?ns ! (Suc cur mod length ?ns))"
      using calculation by simp
    ultimately show ?thesis
      using next_nearest [OF srt dst rng, of cur ?s] cur near nr nh by simp
  next
    case (Some j)
    then have nh: "nextHop r cur k = j" by (simp add: nextHop_def)
    from bestFinger_between [OF Some] obtain f where
      f: "f \<in> set (RT (?ns ! cur))" "m_ptr f = Some j" "isBetween (machinekey f) ?ck k" by blast
    have "?ns ! cur \<in> set ?ns" using cur by simp
    from fingers_correct_ptr [OF fc this f(1,2)]
    have j: "j < length ?ns" "key (?ns ! j) = machinekey f" by auto
    have mr: "0 \<le> machinekey f" "machinekey f < ?N" using j rng by (metis nth_map nth_mem length_map)+
    have m: "cdist ?N k ?s \<le> cdist ?N k ?ck" using near cr by blast
    from cdist_key_before_resp [OF cr(1,2) k sr m nr]
    have b: "cdist ?N ?ck k \<le> cdist ?N ?ck ?s" "?ck \<noteq> k" by auto
    from isBetween_cdist [OF cr(1,2) k mr b(2)] f(3)
    have "0 < cdist ?N ?ck (machinekey f)" "cdist ?N ?ck (machinekey f) \<le> cdist ?N ?ck k" by auto
    with b j nh show ?thesis by simp
  qed
qed

lemma route_loop_sound:
  assumes ok: "ring_ok r" and k: "0 \<le> k" "k < identifierSpace r"
  shows "cur < length (nodes r) \<Longrightarrow> path \<noteq> [] \<Longrightarrow> last path = key (nodes r ! cur) \<Longrightarrow>
         (\<forall>y \<in> visited. cdist (identifierSpace r) (key (nodes r ! cur)) (successor_id (map key (nodes r)) k)
                          \<le> cdist (identifierSpace r) y (successor_id (map key (nodes r)) k)) \<Longrightarrow>
         \<exists>p. route_loop r k cur path visited = Some p \<and> p \<noteq> [] \<and>
             last p = successor_id (map key (nodes r)) k"
proof (induction "nat (cdist (identifierSpace r) (key (nodes r ! cur)) (successor_id (map key (nodes r)) k))"
       arbitrary: cur path visited rule: less_induct)
  case less
  let ?ns = "nodes r" and ?ids = "map key (nodes r)" and ?N = "identifierSpace r"
  let ?s = "successor_id ?ids k" and ?ck = "key (?ns ! cur)"
  from ok have srt: "sorted ?ids" and dst: "distinct ?ids"
    and rng: "\<forall>i \<in> set ?ids. 0 \<le> i \<and> i < ?N"
    by (auto simp: ring_ok_def ring_wf_def)
  note cur = less.prems(1)
  have ne: "?ids \<noteq> []" using cur by auto
  note near = successor_id_nearest [OF ne rng k]
  have sr: "0 \<le> ?s" "?s < ?N" using near rng by auto
  have cr: "0 \<le> ?ck" "?ck < ?N" using cur rng by auto
  note resp = responsible_iff [OF srt dst rng cur k]
  show ?case
  proof (cases "responsible r cur k")
    case True
    with resp less.prems show ?thesis by (subst route_loop.simps) simp
  next
    case False
    with resp have nr: "?ck \<noteq> ?s" by simp
    let ?nh = "nextHop r cur k"
    let ?x = "key (?ns ! ?nh)"
    from nextHop_progress [OF ok cur k nr]
    have nh: "?nh < length ?ns" "0 < cdist ?N ?ck ?x" "cdist ?N ?ck ?x \<le> cdist ?N ?ck ?s" by auto
    have xr: "0 \<le> ?x" "?x < ?N" using nh(1) rng by auto
    from cdist_progress [OF cr xr sr nh(2,3)]
    have lt: "cdist ?N ?x ?s < cdist ?N ?ck ?s" .
    have nonneg: "0 \<le> cdist ?N ?x ?s" using xr sr by (auto simp: cdist_def)
    have nv: "?x \<notin> visited" using less.prems(4) lt by force
    have "\<exists>p. route_loop r k ?nh (path @ [?x]) (insert ?x visited) = Some p \<and> p \<noteq> [] \<and> last p = ?s"
    proof (rule less.hyps)
      show "nat (cdist ?N ?x ?s) < nat (cdist ?N ?ck ?s)" using lt nonneg by simp
      show "?nh < length ?ns" by (rule nh(1))
      show "path @ [?x] \<noteq> []" by simp
      show "last (path @ [?x]) = ?x" by simp
      show "\<forall>y \<in> insert ?x visited. cdist ?N ?x ?s \<le> cdist ?N y ?s"
        using less.prems(4) lt by auto
    qed
    then show ?thesis
      using False nh(1) nv by (subst route_loop.simps) simp
  qed
qed

lemma routeToKey_sound:
  assumes ok: "ring_ok r" and s: "s \<in> key ` set (nodes r)" and k: "0 \<le> k" "k < identifierSpace r"
  shows "\<exists>p. routeToKey r s k = Some p \<and> p \<noteq> [] \<and> last p = successor_id (map key (nodes r)) k"
proof -
  from s have "first_index (\<lambda>c. key c = s) (nodes r) \<noteq> None" by (auto simp: first_index_None)
  then obtain cur where c: "first_index (\<lambda>c. key c = s) (nodes r) = Some cur" by auto
  then have cur: "cur < length (nodes r)" by (simp add: first_index_Some)
  from route_loop_sound [OF ok k cur, of "[key (nodes r ! cur)]" "{key (nodes r ! cur)}"] c
  show ?thesis by (simp add: routeToKey_def)
qed

lemma findResponsibleMachine_sound:
  assumes ok: "ring_ok r" and ne: "nodes r \<noteq> []" and k: "0 \<le> k" "k < identifierSpace r"
  shows "\<exists>j. findResponsibleMachine r k = Some j \<and> j < length (nodes r) \<and>
             key (nodes r ! j) = successor_id (map key (nodes r)) k"
proof -
  let ?ns = "nodes r" and ?ids = "map key (nodes r)" and ?N = "identifierSpace r"
  from ok have srt: "sorted ?ids" and dst: "distinct ?ids"
    and rng: "\<forall>i \<in> set ?ids. 0 \<le> i \<and> i < ?N"
    by (auto simp: ring_ok_def ring_wf_def)
  have ne': "?ids \<noteq> []" using ne by simp
  note near = successor_id_nearest [OF ne' rng k]
  have same: "responsibleFRM r k (?ns ! i) \<longleftrightarrow> key (?ns ! i) = successor_id ?ids k"
    if i: "i < length ?ns" for i
  proof -
    obtain p where p: "findPredecessor r (key (?ns ! i)) = Some p"
      using findPredecessor_exists [OF i] by blast
    then have "responsibleFRM r k (?ns ! i) = responsible r i k"
      by (simp add: responsibleFRM_def responsible_def Let_def)
    with responsible_iff [OF srt dst rng i k] show ?thesis by simp
  qed
  from near obtain i where i: "i < length ?ns" "key (?ns ! i) = successor_id ?ids k"
    by (auto simp: in_set_conv_nth)
  with same have "responsibleFRM r k (?ns ! i)" by simp
  then have "first_index (responsibleFRM r k) ?ns \<noteq> None"
    using i by (auto simp: first_index_None)
  then obtain j where j: "first_index (responsibleFRM r k) ?ns = Some j" by auto
  then have "j < length ?ns" "responsibleFRM r k (?ns ! j)" by (auto simp: first_index_Some)
  with same j ne show ?thesis by (simp add: findResponsibleMachine_def)
qed

lemma ring_ok_cong:
  assumes "map key (nodes r') = map key (nodes r)" "map RT (nodes r') = map RT (nodes r)"
    "identifierSpace r' = identifierSpace r" "bits r' = bits r"
  shows "ring_ok r' = ring_ok r"
  using assms ring_wf_cong [of r' r] fingers_correct_cong [of r' r]
  by (simp add: ring_ok_def)

lemma ring_ok_set_tree:
  "ring_ok (r\<lparr>nodes := (nodes r)[i := (nodes r ! i)\<lparr>BTreeroot := t\<rparr>]\<rparr>) = ring_ok r"
  by (rule ring_ok_cong) (simp_all add: map_update_frame [where g = "\<lambda>c. c\<lparr>BTreeroot := t\<rparr>"])

lemma InsertFileToTree_ring:
  assumes "InsertFileToTree r s k path ord = Some (e, r')"
  shows "r' = r \<or> (\<exists>i t. r' = r\<lparr>nodes := (nodes r)[i := (nodes r ! i)\<lparr>BTreeroot := t\<rparr>]\<rparr>)"
  using assms
  by (auto simp: InsertFileToTree_def split: if_splits option.splits bool.splits)

lemma DeleteFileFromTree_ring:
  assumes "DeleteFileFromTree r s k = Some (e, r')"
  shows "r' = r \<or> (\<exists>i t. r' = r\<lparr>nodes := (nodes r)[i := (nodes r ! i)\<lparr>BTreeroot := t\<rparr>]\<rparr>)"
  using assms
  by (auto simp: DeleteFileFromTree_def split: if_splits option.splits)

lemma insertAfter_cases:
  assumes "insertAfter r v ord = Some (e, r')"
  shows "e = Added \<or> r' = r"
  using assms by (auto simp: insertAfter_def Let_def split: if_splits option.splits)

lemma deletekey_cases:
  assumes "deletekey r v ord = Some (e, r')"
  shows "e = Removed \<or> r' = r"
  using assms by (auto simp: deletekey_def Let_def split: if_splits option.splits)

lemma ring_ok_insertAfter:
  assumes ok: "ring_ok r" and a: "insertAfter r v ord = Some (e, r')"
  shows "ring_ok r'"
proof (cases "e = Added")
  case False
  with insertAfter_cases [OF a] ok show ?thesis by simp
next
  case True
  with a have a': "insertAfter r v ord = Some (Added, r')" by simp
  from ok have wf: "ring_wf r" and dst: "distinct (map key (nodes r))" by (auto simp: ring_ok_def)
  note f = insertAfter_Added [OF a']
  from wf have "sorted (map key (nodes r))" by (simp add: ring_wf_def)
  from keys_insert_machine_sorted [OF this, of v] f
  have "map key (nodes r') = insort v (map key (nodes r))" by simp
  moreover have "v \<notin> set (map key (nodes r))" using f by (simp add: search_iff)
  ultimately have "distinct (map key (nodes r'))" using dst by (simp add: distinct_insort)
  with ring_wf_insertAfter [OF wf a'] show ?thesis by (simp add: ring_ok_def)
qed

lemma fingers_correct_empty: "nodes r = [] \<Longrightarrow> fingers_correct r"
  by (simp add: fingers_correct_def)

lemma ring_ok_deletekey:
  assumes ok: "ring_ok r" and d: "deletekey r v ord = Some (e, r')"
  shows "ring_ok r'"
proof (cases "e = Removed")
  case False
  with deletekey_cases [OF d] ok show ?thesis by simp
next
  case True
  with d have d': "deletekey r v ord = Some (Removed, r')" by simp
  from ok have wf: "ring_wf r" and dst: "distinct (map key (nodes r))" by (auto simp: ring_ok_def)
  from d' obtain cur r2 where
    k: "map key (nodes r2) = take cur (map key (nodes r)) @ drop (Suc cur) (map key (nodes r))"
    and r': "r' = (if nodes r2 \<noteq> [] then updateRT r2 else r2)"
    by (rule deletekey_Removed)
  have "distinct (map key (nodes r2))" by (metis k dst distinct_remove_nth)
  with r' have "distinct (map key (nodes r'))" by (simp split: if_splits)
  with ring_wf_deletekey [OF wf d'] fingers_correct_empty [of r'] show ?thesis
    by (auto simp: ring_ok_def)
qed

lemma ring_ok_InsertMachines:
  assumes ok: "ring_ok r" and d: "distinct (filter (isValidMachineId r) arr)"
    and n: "\<forall>a \<in> set arr. a \<notin> key ` set (nodes r)"
  shows "ring_ok (InsertMachines r arr)"
proof -
  from ok have wf: "ring_wf r" and dst: "distinct (map key (nodes r))" by (auto simp: ring_ok_def)
  have v: "filter (\<lambda>a. 0 \<le> a \<and> a < identifierSpace r) arr = filter (isValidMachineId r) arr"
    by (rule filter_cong) (simp_all add: isValidMachineId_def)
  have "mset (map key (nodes (InsertMachines r arr)))
      = mset (map key (nodes r) @ filter (isValidMachineId r) arr)"
    using keys_insert_loop [of r arr] v by (simp add: InsertMachines_def)
  then have "distinct (map key (nodes (InsertMachines r arr)))
      = distinct (map key (nodes r) @ filter (isValidMachineId r) arr)"
    by (rule mset_eq_imp_distinct_iff)
  moreover have "distinct (map key (nodes r) @ filter (isValidMachineId r) arr)"
    using dst d n by auto
  ultimately show ?thesis
    using ring_wf_InsertMachines [OF wf, of arr] fingers_correct_empty [of "InsertMachines r arr"]
    by (auto simp: ring_ok_def)
qed

lemma reachable_ring_ok: "reachable r \<Longrightarrow> ring_ok r"
proof (induction rule: reachable.induct)
  case (start r)
  then show ?case by (simp add: ring_ok_def ring_wf_def fingers_correct_empty)
next
  case (bulk r arr)
  then show ?case by (intro ring_ok_InsertMachines)
next
  case (join r v e r')
  from join.hyps(2) have "r' = r \<or> insertAfter r v (btreeOrder r) = Some (e, r')"
    by (auto simp: InsertMachine_def split: if_splits)
  with join.IH ring_ok_insertAfter show ?case by blast
next
  case (leave r v e r')
  from leave.hyps(2) have "deletekey r v (btreeOrder r) = Some (e, r')"
    by (simp add: DeleteMachine_def)
  with leave.IH ring_ok_deletekey show ?case by blast
next
  case (put r s k path e r')
  from InsertFileToTree_ring [OF put.hyps(2)] put.IH show ?case
    by (auto simp: ring_ok_set_tree)
next
  case (remove r s k e r')
  from DeleteFileFromTree_ring [OF remove.hyps(2)] remove.IH show ?case
    by (auto simp: ring_ok_set_tree)
qed

text \<open>
  Claim C1. On every reachable ring, for every start ID of a machine of the ring and
  every key of the identifier space, \<^verbatim>\<open>routeToKey\<close> returns a non-empty path whose last
  ID is the successor of the key (in the words of the specification), which is also the
  ID of the machine \<^verbatim>\<open>findResponsibleMachine\<close> returns. On the empty ring the path is
  empty.
\<close>

theorem router_sound:
  "(nodes r = [] \<longrightarrow> routeToKey r s k = Some []) \<and>
   (reachable r \<and> s \<in> key ` set (nodes r) \<and> 0 \<le> k \<and> k < identifierSpace r \<longrightarrow>
      (\<exists>path. routeToKey r s k = Some path \<and> path \<noteq> [] \<and>
         last path = successor_id (map key (nodes r)) k \<and>
         (\<exists>j. findResponsibleMachine r k = Some j \<and> j < length (nodes r) \<and>
              key (nodes r ! j) = last path)))"
proof (intro conjI impI)
  assume "nodes r = []"
  then show "routeToKey r s k = Some []" by (simp add: routeToKey_def)
next
  assume a: "reachable r \<and> s \<in> key ` set (nodes r) \<and> 0 \<le> k \<and> k < identifierSpace r"
  then have ok: "ring_ok r" by (simp add: reachable_ring_ok)
  from a have ne: "nodes r \<noteq> []" by auto
  from routeToKey_sound [OF ok, of s k] findResponsibleMachine_sound [OF ok ne, of k] a
  show "\<exists>path. routeToKey r s k = Some path \<and> path \<noteq> [] \<and>
         last path = successor_id (map key (nodes r)) k \<and>
         (\<exists>j. findResponsibleMachine r k = Some j \<and> j < length (nodes r) \<and>
              key (nodes r ! j) = last path)"
    by auto
qed

lemma reachable_ring16: "reachable ring16"
  by (rule reachable.start) (simp_all add: ring16_def valid_config_def valid_order_def)

theorem router_sound_witness:
  "reachable ring_1_4_9_11_14 \<and> routeToKey ring_1_4_9_11_14 14 3 = Some [14, 1, 4] \<and>
   successor_id (map key (nodes ring_1_4_9_11_14)) 3 = 4 \<and>
   findResponsibleMachine ring_1_4_9_11_14 3 = Some 1"
proof -
  have r: "reachable ring_1_4_9_11_14"
    unfolding ring_1_4_9_11_14_def
    by (rule reachable.bulk [OF reachable_ring16]) (simp_all add: ring16_def isValidMachineId_def)
  have a: "14 \<in> key ` set (nodes ring_1_4_9_11_14)" by code_simp
  have b: "identifierSpace ring_1_4_9_11_14 = 16" by code_simp
  have c: "routeToKey ring_1_4_9_11_14 14 3 = Some [14, 1, 4]" by code_simp
  have d: "findResponsibleMachine ring_1_4_9_11_14 3 = Some 1" by code_simp
  from router_sound [of ring_1_4_9_11_14 14 3] r a b c d show ?thesis by auto
qed

section \<open>The B-tree keeps its shape\<close>

lemma MIN_of_valid: "valid_order ord \<Longrightarrow> MIN_of ord = (ord + 1) div 2 - 1"
  unfolding valid_order_def MIN_of_def cpp_rem_def cpp_div_def Let_def
  by (auto simp: sgn_if) presburger+

lemma params_valid:
  assumes "valid_order ord"
  shows "1 \<le> MIN_of ord" "2 * MIN_of ord \<le> MAX_of ord" "MIN_of ord + 1 \<le> MAX_of ord"
  using assms MIN_of_valid [OF assms] by (auto simp: valid_order_def MAX_of_def)

lemma slots_Node [simp]: "slots (BTreeNode mx mn c0 es) = (dummy, c0) # es"
  by (simp add: slots_def)

lemma count_Node [simp]: "count (BTreeNode mx mn c0 es) = length es"
  by (simp add: count_def)

lemma length_slots [simp]: "length (slots n) = Suc (count n)"
  by (simp add: slots_def count_def)

lemma child_slots: "n \<noteq> Null \<Longrightarrow> i \<le> count n \<Longrightarrow> child n i = snd (slots n ! i)"
  by (cases n; cases i) (auto simp: child_def)

lemma value_slots: "0 < i \<Longrightarrow> value n i = fst (slots n ! i)"
  by (cases i) (auto simp: value_def slots_def)

lemma bt_inv_height: "bt_inv ord lo h n \<Longrightarrow> height n = h"
proof (induction h arbitrary: lo n)
  case 0
  then show ?case by simp
next
  case (Suc h)
  then show ?case by (cases n) auto
qed

lemma bt_inv_mono: "bt_inv ord lo h n \<Longrightarrow> lo' \<le> lo \<Longrightarrow> bt_inv ord lo' h n"
  by (cases h) auto

lemma bt_inv_child:
  "bt_inv ord lo (Suc h) n \<Longrightarrow> i \<le> count n \<Longrightarrow> bt_inv ord (MIN_of ord) h (child n i)"
  by (simp add: child_slots)

lemma set_child_fields [simp]:
  "nMAX (set_child n i c) = nMAX n" "nMIN (set_child n i c) = nMIN n"
  "count (set_child n i c) = count n" "(set_child n i c = Null) = (n = Null)"
  by (cases n; simp add: set_child_def)+

lemma slots_set_child:
  "n \<noteq> Null \<Longrightarrow> slots (set_child n i c) = (slots n)[i := (fst (slots n ! i), c)]"
  by (cases n; cases i) (auto simp: set_child_def)

lemma fillnode_fields [simp]:
  "nMAX (fillnode f c n k) = nMAX n" "nMIN (fillnode f c n k) = nMIN n"
  "(fillnode f c n k = Null) = (n = Null)"
  by (cases n; simp add: fillnode_def)+

lemma slots_fillnode:
  "n \<noteq> Null \<Longrightarrow> slots (fillnode f c n k) = take (Suc k) (slots n) @ (f, c) # drop (Suc k) (slots n)"
  by (cases n) (auto simp: fillnode_def)

lemma count_fillnode: "n \<noteq> Null \<Longrightarrow> k \<le> count n \<Longrightarrow> count (fillnode f c n k) = Suc (count n)"
  by (cases n) (auto simp: fillnode_def)

lemma set_update_slots:
  assumes "\<forall>s \<in> set xs. P (snd s)" "P c"
  shows "\<forall>s \<in> set (xs[i := (v, c)]). P (snd s)"
  using assms by (auto dest: set_update_subset_insert [THEN subsetD])

lemma set_insert_slots:
  assumes "\<forall>s \<in> set xs. P (snd s)" "P c"
  shows "\<forall>s \<in> set (take j xs @ (v, c) # drop j xs). P (snd s)"
  using assms by (auto dest: in_set_takeD in_set_dropD)

lemma length_insert_at: "length (take j xs @ e # drop j xs) = Suc (length xs)"
proof -
  have "length (take j xs @ e # drop j xs) = Suc (length (take j xs @ drop j xs))" by simp
  then show ?thesis by (simp only: append_take_drop_id)
qed

lemma searchNode_Some:
  assumes "n \<noteq> Null" "0 < count n"
  shows "\<exists>found pos. searchNode k n = Some (found, pos)"
  using assms by (cases n) (auto simp: searchNode_def Let_def)

text \<open>The result of a split, in the two cases of the position.\<close>

lemma split_low:
  assumes "int k \<le> mn" "k \<le> nat mn" "nat mn \<le> length es"
  shows "split f c (BTreeNode mx mn c0 es) k =
     (let l1 = take k (take (nat mn) es) @ (f, c) # drop k (take (nat mn) es)
      in (fst (last l1), BTreeNode mx mn (snd (last l1)) (drop (nat mn) (take (nat mx) es)),
          BTreeNode mx mn c0 (butlast l1)))"
proof -
  let ?l1 = "take k (take (nat mn) es) @ (f, c) # drop k (take (nat mn) es)"
  have "length ?l1 = Suc (nat mn)" using assms by simp
  then have "?l1 ! nat mn = last ?l1"
    by (metis diff_Suc_1 last_conv_nth length_0_conv nat.distinct(1))
  with assms show ?thesis
    by (simp add: split_def Let_def fillnode_def value_def child_def set_child_def count_def)
qed

lemma split_high:
  assumes "\<not> int k \<le> mn" "0 \<le> mn" "Suc (nat mn) \<le> length es"
  shows "split f c (BTreeNode mx mn c0 es) k =
     (let l1 = take (Suc (nat mn)) es;
          r0 = drop (Suc (nat mn)) (take (nat mx) es)
      in (fst (last l1),
          BTreeNode mx mn (snd (last l1))
            (take (k - Suc (nat mn)) r0 @ (f, c) # drop (k - Suc (nat mn)) r0),
          BTreeNode mx mn c0 (butlast l1)))"
proof -
  let ?l1 = "take (Suc (nat mn)) es"
  have mid: "nat (mn + 1) = Suc (nat mn)" using assms by simp
  have "length ?l1 = Suc (nat mn)" using assms by simp
  then have "?l1 ! nat mn = last ?l1"
    by (metis diff_Suc_1 last_conv_nth length_0_conv nat.distinct(1))
  with assms mid show ?thesis
    by (simp add: split_def Let_def fillnode_def value_def child_def set_child_def count_def)
qed

text \<open>The two nodes a split leaves, for a node with \<open>MAX\<close> records.\<close>

lemma split_shape:
  assumes v: "valid_order ord" and n: "n \<noteq> Null" "nMAX n = MAX_of ord" "nMIN n = MIN_of ord"
    and full: "int (count n) = MAX_of ord" and k: "k \<le> count n"
    and kids: "\<forall>s \<in> set (slots n). P (snd s)" and c: "P c"
    and sp: "split f c n k = (y, r, l)"
  shows "l \<noteq> Null \<and> r \<noteq> Null \<and> nMAX l = MAX_of ord \<and> nMIN l = MIN_of ord \<and>
         nMAX r = MAX_of ord \<and> nMIN r = MIN_of ord \<and>
         int (count l) = MIN_of ord \<and> int (count r) = MAX_of ord - MIN_of ord \<and>
         (\<forall>s \<in> set (slots l). P (snd s)) \<and> (\<forall>s \<in> set (slots r). P (snd s))"
proof -
  obtain mx mn c0 es where N: "n = BTreeNode mx mn c0 es" using n(1) by (cases n) auto
  note pv = params_valid [OF v]
  let ?m = "nat (MIN_of ord)"
  have F: "mx = MAX_of ord" "mn = MIN_of ord" using n N by auto
  have len: "int (length es) = MAX_of ord" using full N by simp
  have tk: "take (nat mx) es = es" using len F by simp
  have m1: "1 \<le> ?m" "2 * ?m \<le> length es" "?m + 1 \<le> length es" using pv len by auto
  have Pe: "\<And>e. e \<in> set es \<Longrightarrow> P (snd e)" and P0: "P c0" using kids N by auto
  have "\<exists>L R rc. l = BTreeNode mx mn c0 L \<and> r = BTreeNode mx mn rc R \<and> length L = ?m \<and>
          length R = length es - ?m \<and> P rc \<and> (\<forall>e \<in> set L. P (snd e)) \<and> (\<forall>e \<in> set R. P (snd e))"
  proof (cases "int k \<le> MIN_of ord")
    case True
    then have km: "k \<le> ?m" by simp
    let ?l1 = "take k (take ?m es) @ (f, c) # drop k (take ?m es)"
    have "length ?l1 = Suc (length (take ?m es))" by (rule length_insert_at)
    then have l1: "length ?l1 = Suc ?m" using m1 by simp
    have P1: "\<And>e. e \<in> set ?l1 \<Longrightarrow> P (snd e)"
      using Pe c by (auto dest!: in_set_takeD in_set_dropD)
    have ne: "?l1 \<noteq> []" by simp
    have sp': "r = BTreeNode mx mn (snd (last ?l1)) (drop ?m es)"
        "l = BTreeNode mx mn c0 (butlast ?l1)"
      using sp N True km m1 F tk split_low [of k mn es f c mx c0]
      by (simp_all add: Let_def)
    have a: "P (snd (last ?l1))" using P1 [of "last ?l1"] ne last_in_set by blast
    have b: "\<forall>e \<in> set (butlast ?l1). P (snd e)"
      using P1 by (auto dest: in_set_butlastD)
    have d: "\<forall>e \<in> set (drop ?m es). P (snd e)"
      using Pe by (auto dest: in_set_dropD)
    have e: "length (butlast ?l1) = ?m" by (metis l1 length_butlast diff_Suc_1)
    have g: "length (drop ?m es) = length es - ?m" by simp
    from sp' a b d e g show ?thesis by blast
  next
    case False
    then have km: "?m < k" using pv by linarith
    let ?mid = "Suc ?m"
    let ?l1 = "take ?mid es"
    let ?r0 = "drop ?mid es"
    let ?r1 = "take (k - ?mid) ?r0 @ (f, c) # drop (k - ?mid) ?r0"
    have l1: "length ?l1 = ?mid" using m1 by simp
    have kk: "k - ?mid \<le> length ?r0" using k N by simp
    have "length ?r1 = Suc (length ?r0)" by (rule length_insert_at)
    also have "\<dots> = length es - ?m" using m1 by simp
    finally have r1: "length ?r1 = length es - ?m" .
    have ne: "?l1 \<noteq> []" using m1 by auto
    have P1: "\<And>e. e \<in> set ?l1 \<Longrightarrow> P (snd e)" using Pe by (auto dest: in_set_takeD)
    have sp': "r = BTreeNode mx mn (snd (last ?l1)) ?r1"
        "l = BTreeNode mx mn c0 (butlast ?l1)"
      using sp N False km m1 F tk pv split_high [of k mn es f c mx c0]
      by (simp_all add: Let_def)
    have a: "P (snd (last ?l1))" using P1 [of "last ?l1"] ne last_in_set by blast
    have b: "\<forall>e \<in> set (butlast ?l1). P (snd e)"
      using P1 by (auto dest: in_set_butlastD)
    have "\<forall>e \<in> set ?r0. P (snd e)" using Pe by (auto dest: in_set_dropD)
    then have d: "\<forall>e \<in> set ?r1. P (snd e)" using c by (rule set_insert_slots)
    have e: "length (butlast ?l1) = ?m" by (metis l1 length_butlast diff_Suc_1)
    from sp' a b d e r1 show ?thesis by blast
  qed
  then obtain L R rc where lr: "l = BTreeNode mx mn c0 L" "r = BTreeNode mx mn rc R"
    "length L = ?m" "length R = length es - ?m" "P rc" "\<forall>e \<in> set L. P (snd e)"
    "\<forall>e \<in> set R. P (snd e)" by blast
  have "int (length R) = MAX_of ord - MIN_of ord" using lr(4) len m1 pv by simp
  moreover have "int (length L) = MIN_of ord" using lr(3) pv by simp
  ultimately show ?thesis using lr F P0 by simp
qed

declare bt_inv.simps(2) [simp del]

lemma bt_inv_Suc:
  "bt_inv ord lo (Suc h) n \<longleftrightarrow>
     n \<noteq> Null \<and> nMAX n = MAX_of ord \<and> nMIN n = MIN_of ord \<and>
     lo \<le> int (count n) \<and> int (count n) \<le> MAX_of ord \<and> kids_ok ord h n"
  by (simp add: kids_ok_def bt_inv.simps(2))

lemma kids_ok_set_child:
  "n \<noteq> Null \<Longrightarrow> kids_ok ord h n \<Longrightarrow> bt_inv ord (MIN_of ord) h c \<Longrightarrow>
   kids_ok ord h (set_child n i c)"
  unfolding kids_ok_def by (simp add: slots_set_child set_update_slots)

lemma kids_ok_fillnode:
  "n \<noteq> Null \<Longrightarrow> kids_ok ord h n \<Longrightarrow> bt_inv ord (MIN_of ord) h c \<Longrightarrow>
   kids_ok ord h (fillnode f c n k)"
proof -
  assume n: "n \<noteq> Null" and k: "kids_ok ord h n" and c: "bt_inv ord (MIN_of ord) h c"
  have "\<forall>s \<in> set (take (Suc k) (slots n) @ (f, c) # drop (Suc k) (slots n)).
          bt_inv ord (MIN_of ord) h (snd s)"
    using k c unfolding kids_ok_def by (rule set_insert_slots)
  then show ?thesis using n by (simp add: kids_ok_def slots_fillnode)
qed

lemma setval_shape:
  assumes v: "valid_order ord"
  shows "bt_inv ord lo h n \<Longrightarrow> 1 \<le> lo \<Longrightarrow>
         \<exists>res. setval f n = Some res \<and> setval_ok ord lo h res"
proof (induction h arbitrary: n lo)
  case 0
  then show ?case by (subst setval.simps) simp
next
  case (Suc h)
  note pv = params_valid [OF v]
  from Suc.prems have n: "n \<noteq> Null" "nMAX n = MAX_of ord" "nMIN n = MIN_of ord"
    and cnt: "lo \<le> int (count n)" "int (count n) \<le> MAX_of ord" and kids: "kids_ok ord h n"
    by (auto simp: bt_inv_Suc)
  from cnt Suc.prems(2) have "0 < count n" by simp
  from searchNode_Some [OF n(1) this] obtain found k where
    sn: "searchNode (fkey f) n = Some (found, k)" by blast
  from searchNode_pos [OF sn] have k: "k \<le> count n" by simp
  show ?case
  proof (cases found)
    case True
    with sn n Suc.prems show ?thesis by (subst setval.simps) simp
  next
    case False
    have "bt_inv ord (MIN_of ord) h (child n k)"
      using Suc.prems(1) k by (rule bt_inv_child)
    from Suc.IH [OF this pv(1)] obtain res where
      res: "setval f (child n k) = Some res" "setval_ok ord (MIN_of ord) h res" by blast
    show ?thesis
    proof (cases res)
      case (Settled ch dup)
      with res have "bt_inv ord (MIN_of ord) h ch" by simp
      with kids n have "kids_ok ord h (set_child n k ch)" by (simp add: kids_ok_set_child)
      with n cnt have "bt_inv ord lo (Suc h) (set_child n k ch)" by (simp add: bt_inv_Suc)
      with sn n False res Settled show ?thesis by (subst setval.simps) simp
    next
      case (Pushed p c ch)
      with res have ch: "bt_inv ord (MIN_of ord) h ch" and c: "bt_inv ord (MIN_of ord) h c" by auto
      let ?n1 = "set_child n k ch"
      have k1: "kids_ok ord h ?n1" using kids n ch by (simp add: kids_ok_set_child)
      show ?thesis
      proof (cases "int (count n) < nMAX n")
        case True
        have "kids_ok ord h (fillnode p c ?n1 k)" using k1 n c by (simp add: kids_ok_fillnode)
        moreover have "count (fillnode p c ?n1 k) = Suc (count n)"
          using n k by (simp add: count_fillnode)
        ultimately have "bt_inv ord lo (Suc h) (fillnode p c ?n1 k)"
          using n cnt True by (simp add: bt_inv_Suc)
        with sn n False res Pushed True show ?thesis by (subst setval.simps) simp
      next
        case F: False
        with cnt n have full: "int (count ?n1) = MAX_of ord" by simp
        obtain y r l where sp: "split p c ?n1 k = (y, r, l)" by (cases "split p c ?n1 k") auto
        have "l \<noteq> Null \<and> r \<noteq> Null \<and> nMAX l = MAX_of ord \<and> nMIN l = MIN_of ord \<and>
           nMAX r = MAX_of ord \<and> nMIN r = MIN_of ord \<and>
           int (count l) = MIN_of ord \<and> int (count r) = MAX_of ord - MIN_of ord \<and>
           (\<forall>s \<in> set (slots l). bt_inv ord (MIN_of ord) h (snd s)) \<and>
           (\<forall>s \<in> set (slots r). bt_inv ord (MIN_of ord) h (snd s))"
          using v _ _ _ full _ _ c sp
        proof (rule split_shape)
          show "?n1 \<noteq> Null" "nMAX ?n1 = MAX_of ord" "nMIN ?n1 = MIN_of ord" using n by simp_all
          show "k \<le> count ?n1" using k by simp
          show "\<forall>s \<in> set (slots ?n1). bt_inv ord (MIN_of ord) h (snd s)"
            using k1 by (simp add: kids_ok_def)
        qed
        then have "bt_inv ord (MIN_of ord) (Suc h) l \<and> bt_inv ord (MIN_of ord) (Suc h) r"
          using pv by (simp add: bt_inv_Suc kids_ok_def)
        with sn n False res Pushed F sp show ?thesis by (subst setval.simps) simp
      qed
    qed
  qed
qed

lemma insertHelper_shape:
  assumes v: "valid_order ord" and ok: "btree_ok ord t"
  shows "\<exists>t' dup. insertHelper t f ord = Some (t', dup) \<and> btree_ok ord t' \<and> t' \<noteq> Null"
proof -
  from ok have inv: "bt_inv ord 1 (height t) t" by (simp add: btree_ok_def)
  from setval_shape [OF v inv, of f] obtain res where
    res: "setval f t = Some res" "setval_ok ord 1 (height t) res" by auto
  note pv = params_valid [OF v]
  show ?thesis
  proof (cases res)
    case (Settled n' dup)
    with res have i: "bt_inv ord 1 (height t) n'" by simp
    then have "height n' = height t" by (rule bt_inv_height)
    moreover have "n' \<noteq> Null"
    proof (cases t)
      case Null
      then have "setval f t = Some (Pushed f Null Null)" by (subst setval.simps) simp
      with res Settled show ?thesis by simp
    next
      case (BTreeNode mx mn c0 es)
      with i show ?thesis by (auto simp: bt_inv_Suc)
    qed
    ultimately show ?thesis
      using res Settled i by (simp add: insertHelper_def insert_node_def btree_ok_def)
  next
    case (Pushed p c n')
    with res have i: "bt_inv ord (MIN_of ord) (height t) n'" "bt_inv ord (MIN_of ord) (height t) c"
      by auto
    let ?mx = "if t \<noteq> Null then nMAX t else MAX_of ord"
    let ?mn = "if t \<noteq> Null then nMIN t else MIN_of ord"
    have f: "?mx = MAX_of ord" "?mn = MIN_of ord"
      using inv by (cases t; simp add: bt_inv_Suc)+
    let ?root = "BTreeNode (MAX_of ord) (MIN_of ord) n' [(p, c)]"
    have "bt_inv ord 1 (Suc (height t)) ?root"
      using i pv by (simp add: bt_inv_Suc kids_ok_def)
    moreover have "height ?root = Suc (height t)" using bt_inv_height [OF i(1)] by simp
    moreover have "insertHelper t f ord = Some (?root, False)"
      using res Pushed f by (auto simp: insertHelper_def insert_node_def)
    ultimately show ?thesis
      by (intro exI [of _ ?root] exI [of _ False]) (simp add: btree_ok_def)
  qed
qed

lemma kids_ok_iff:
  "n \<noteq> Null \<Longrightarrow> kids_ok ord h n \<longleftrightarrow> (\<forall>j \<le> count n. bt_inv ord (MIN_of ord) h (child n j))"
proof -
  assume n: "n \<noteq> Null"
  have "kids_ok ord h n \<longleftrightarrow> (\<forall>j < length (slots n). bt_inv ord (MIN_of ord) h (snd (slots n ! j)))"
    unfolding kids_ok_def by (simp add: all_set_conv_all_nth)
  also have "\<dots> \<longleftrightarrow> (\<forall>j \<le> count n. bt_inv ord (MIN_of ord) h (child n j))"
    using n by (auto simp: child_slots less_Suc_eq_le)
  finally show ?thesis .
qed

lemma child_set_child:
  "n \<noteq> Null \<Longrightarrow> i \<le> count n \<Longrightarrow> child (set_child n i c) j = (if j = i then c else child n j)"
  by (cases n; cases i; cases j) (auto simp: child_def set_child_def nth_list_update)

lemma set_value_fields [simp]:
  "nMAX (set_value n i v) = nMAX n" "nMIN (set_value n i v) = nMIN n"
  "count (set_value n i v) = count n" "(set_value n i v = Null) = (n = Null)"
  by (cases n; simp add: set_value_def)+

lemma snd_update_fst: "snd (xs[a := (v, snd (xs ! a))] ! b) = snd (xs ! b)"
  by (cases "a = b"; cases "b < length xs"; simp add: list_update_beyond)

lemma child_set_value [simp]: "child (set_value n i v) j = child n j"
  by (cases n; cases j) (auto simp: child_def set_value_def snd_update_fst)

lemma clear_fields [simp]:
  "nMAX (clear n k) = nMAX n" "nMIN (clear n k) = nMIN n" "(clear n k = Null) = (n = Null)"
  by (cases n; simp add: clear_def)+

lemma count_clear: "n \<noteq> Null \<Longrightarrow> 1 \<le> k \<Longrightarrow> k \<le> count n \<Longrightarrow> count (clear n k) = count n - 1"
  by (cases n) (auto simp: clear_def)

lemma child_clear:
  "n \<noteq> Null \<Longrightarrow> 1 \<le> k \<Longrightarrow> k \<le> count n \<Longrightarrow> j < count n \<Longrightarrow>
   child (clear n k) j = (if j < k then child n j else child n (Suc j))"
  by (cases n; cases j) (auto simp: child_def clear_def nth_append min_def)

text \<open>The results of the three repairs, on nodes whose two children exist.\<close>

lemma rightshift_eq:
  assumes "child n k = BTreeNode tmx tmn tc0 tes" "child n (k - 1) = BTreeNode lmx lmn lc0 les"
    "les \<noteq> []"
  shows "rightshift n k =
     Some (set_child (set_child (set_value n k (fst (last les))) k
                        (BTreeNode tmx tmn (snd (last les)) ((value n k, tc0) # tes)))
             (k - 1) (BTreeNode lmx lmn lc0 (butlast les)))"
  using assms by (simp add: rightshift_def Let_def)

lemma leftshift_eq:
  assumes "child n (k - 1) = BTreeNode lmx lmn lc0 les" "child n k = BTreeNode rmx rmn rc0 res"
    "res \<noteq> []"
  shows "leftshift n k =
     Some (set_child (set_child (set_value n k (fst (hd res))) (k - 1)
                        (BTreeNode lmx lmn lc0 (les @ [(value n k, rc0)])))
             k (BTreeNode rmx rmn (snd (hd res)) (tl res)))"
  using assms by (simp add: leftshift_def Let_def)

lemma merge_eq:
  assumes "child n k = BTreeNode rmx rmn rc0 res" "child n (k - 1) = BTreeNode lmx lmn lc0 les"
    "rc0 = Null \<longrightarrow> is_leaf (BTreeNode lmx lmn lc0 les)"
  shows "merge n k =
     Some (clear (set_child n (k - 1) (BTreeNode lmx lmn lc0 (les @ (value n k, rc0) # res))) k)"
  using assms by (auto simp: merge_def Let_def)

lemma bt_inv_Node:
  "bt_inv ord lo (Suc h) (BTreeNode mx mn c0 es) \<longleftrightarrow>
     mx = MAX_of ord \<and> mn = MIN_of ord \<and> lo \<le> int (length es) \<and> int (length es) \<le> MAX_of ord \<and>
     bt_inv ord (MIN_of ord) h c0 \<and> (\<forall>e \<in> set es. bt_inv ord (MIN_of ord) h (snd e))"
  by (simp add: bt_inv_Suc kids_ok_def)

lemma bt_inv_0 [simp]: "bt_inv ord lo 0 n \<longleftrightarrow> n = Null"
  by simp

lemma bt_inv_Null [simp]: "bt_inv ord lo h Null \<longleftrightarrow> h = 0"
  by (cases h) (simp_all add: bt_inv_Suc)

lemma rightshift_shape:
  assumes v: "valid_order ord" and n: "n \<noteq> Null" and k: "1 \<le> k" "k \<le> count n"
    and but: "kids_but ord (Suc h) n k"
    and T: "bt_inv ord (MIN_of ord - 1) (Suc h) (child n k)" "int (count (child n k)) < MIN_of ord"
    and L: "int (count (child n (k - 1))) > MIN_of ord"
  shows "\<exists>n'. rightshift n k = Some n' \<and> n' \<noteq> Null \<and> nMAX n' = nMAX n \<and> nMIN n' = nMIN n \<and>
              count n' = count n \<and> kids_ok ord (Suc h) n'"
proof -
  note pv = params_valid [OF v]
  have Li: "bt_inv ord (MIN_of ord) (Suc h) (child n (k - 1))"
    using but k by (simp add: kids_but_def)
  obtain tmx tmn tc0 tes where Te: "child n k = BTreeNode tmx tmn tc0 tes"
    using T(1) by (cases "child n k") (auto simp: bt_inv_Suc)
  obtain lmx lmn lc0 les where Le: "child n (k - 1) = BTreeNode lmx lmn lc0 les"
    using Li by (cases "child n (k - 1)") (auto simp: bt_inv_Suc)
  have les: "les \<noteq> []" using L Le pv by auto
  let ?T' = "BTreeNode tmx tmn (snd (last les)) ((value n k, tc0) # tes)"
  let ?L' = "BTreeNode lmx lmn lc0 (butlast les)"
  let ?n' = "set_child (set_child (set_value n k (fst (last les))) k ?T') (k - 1) ?L'"
  have rs: "rightshift n k = Some ?n'" using Te Le les by (rule rightshift_eq)
  have "bt_inv ord (MIN_of ord) h (snd (last les))"
    using Li Le les by (auto simp: bt_inv_Node)
  then have T': "bt_inv ord (MIN_of ord) (Suc h) ?T'"
    using T Te pv by (auto simp: bt_inv_Node)
  have L': "bt_inv ord (MIN_of ord) (Suc h) ?L'"
    using Li L Le by (auto simp: bt_inv_Node dest: in_set_butlastD)
  have "bt_inv ord (MIN_of ord) (Suc h) (child ?n' j)" if j: "j \<le> count n" for j
    using but j n k T' L' by (auto simp: child_set_child kids_but_def)
  then have "kids_ok ord (Suc h) ?n'" using n by (simp add: kids_ok_iff)
  with rs n show ?thesis by simp
qed

lemma leftshift_shape:
  assumes v: "valid_order ord" and n: "n \<noteq> Null" and k: "1 \<le> k" "k \<le> count n"
    and but: "kids_but ord (Suc h) n (k - 1)"
    and T: "bt_inv ord (MIN_of ord - 1) (Suc h) (child n (k - 1))"
      "int (count (child n (k - 1))) < MIN_of ord"
    and R: "int (count (child n k)) > MIN_of ord"
  shows "\<exists>n'. leftshift n k = Some n' \<and> n' \<noteq> Null \<and> nMAX n' = nMAX n \<and> nMIN n' = nMIN n \<and>
              count n' = count n \<and> kids_ok ord (Suc h) n'"
proof -
  note pv = params_valid [OF v]
  have Ri: "bt_inv ord (MIN_of ord) (Suc h) (child n k)"
    using but k by (simp add: kids_but_def)
  obtain lmx lmn lc0 les where Le: "child n (k - 1) = BTreeNode lmx lmn lc0 les"
    using T(1) by (cases "child n (k - 1)") (auto simp: bt_inv_Suc)
  obtain rmx rmn rc0 res where Re: "child n k = BTreeNode rmx rmn rc0 res"
    using Ri by (cases "child n k") (auto simp: bt_inv_Suc)
  have res: "res \<noteq> []" using R Re pv by auto
  let ?L' = "BTreeNode lmx lmn lc0 (les @ [(value n k, rc0)])"
  let ?R' = "BTreeNode rmx rmn (snd (hd res)) (tl res)"
  let ?n' = "set_child (set_child (set_value n k (fst (hd res))) (k - 1) ?L') k ?R'"
  have ls: "leftshift n k = Some ?n'" using Le Re res by (rule leftshift_eq)
  have L': "bt_inv ord (MIN_of ord) (Suc h) ?L'"
    using T Le Ri Re pv by (auto simp: bt_inv_Node)
  have "bt_inv ord (MIN_of ord) h (snd (hd res))"
    using Ri Re res by (cases res) (auto simp: bt_inv_Node)
  then have R': "bt_inv ord (MIN_of ord) (Suc h) ?R'"
    using Ri R Re by (cases res) (auto simp: bt_inv_Node)
  have "bt_inv ord (MIN_of ord) (Suc h) (child ?n' j)" if j: "j \<le> count n" for j
    using but j n k L' R' by (auto simp: child_set_child kids_but_def)
  then have "kids_ok ord (Suc h) ?n'" using n by (simp add: kids_ok_iff)
  with ls n show ?thesis by simp
qed

lemma kids_level0_leaf:
  assumes "bt_inv ord lo (Suc 0) n"
  shows "is_leaf n"
  using assms by (cases n) (auto simp: bt_inv_Node is_leaf_def)

lemma merge_shape:
  assumes v: "valid_order ord" and n: "n \<noteq> Null" and k: "1 \<le> k" "k \<le> count n"
    and others: "\<forall>j \<le> count n. j \<noteq> k \<longrightarrow> j \<noteq> k - 1 \<longrightarrow> bt_inv ord (MIN_of ord) (Suc h) (child n j)"
    and L: "bt_inv ord (MIN_of ord - 1) (Suc h) (child n (k - 1))"
    and R: "bt_inv ord (MIN_of ord - 1) (Suc h) (child n k)"
    and sum: "int (count (child n (k - 1))) + int (count (child n k)) < 2 * MIN_of ord"
  shows "\<exists>n'. merge n k = Some n' \<and> n' \<noteq> Null \<and> nMAX n' = nMAX n \<and> nMIN n' = nMIN n \<and>
              Suc (count n') = count n \<and> kids_ok ord (Suc h) n'"
proof -
  note pv = params_valid [OF v]
  obtain lmx lmn lc0 les where Le: "child n (k - 1) = BTreeNode lmx lmn lc0 les"
    using L by (cases "child n (k - 1)") (auto simp: bt_inv_Suc)
  obtain rmx rmn rc0 res where Re: "child n k = BTreeNode rmx rmn rc0 res"
    using R by (cases "child n k") (auto simp: bt_inv_Suc)
  have leaf: "rc0 = Null \<longrightarrow> is_leaf (BTreeNode lmx lmn lc0 les)"
  proof
    assume "rc0 = Null"
    with R Re have "h = 0" by (simp add: bt_inv_Node)
    with L Le show "is_leaf (BTreeNode lmx lmn lc0 les)" by (auto intro: kids_level0_leaf)
  qed
  let ?L' = "BTreeNode lmx lmn lc0 (les @ (value n k, rc0) # res)"
  let ?n1 = "set_child n (k - 1) ?L'"
  let ?n' = "clear ?n1 k"
  have mg: "merge n k = Some ?n'" using Re Le leaf by (rule merge_eq)
  have L': "bt_inv ord (MIN_of ord) (Suc h) ?L'"
    using L R Le Re sum pv by (auto simp: bt_inv_Node)
  have cnt: "count ?n' = count n - 1" using n k by (simp add: count_clear)
  have "bt_inv ord (MIN_of ord) (Suc h) (child ?n' j)" if j: "j \<le> count ?n'" for j
  proof -
    from j cnt k have jl: "j < count n" by simp
    have "child ?n' j = (if j < k then child ?n1 j else child ?n1 (Suc j))"
      using n k jl by (simp add: child_clear)
    also have "\<dots> = (if j < k then (if j = k - 1 then ?L' else child n j) else child n (Suc j))"
      using n k jl by (auto simp: child_set_child)
    finally show ?thesis using others jl L' k by auto
  qed
  then have "kids_ok ord (Suc h) ?n'" using n by (simp add: kids_ok_iff)
  with mg n cnt k show ?thesis by simp
qed

lemma bt_inv_raise:
  "bt_inv ord lo h n \<Longrightarrow> (n \<noteq> Null \<Longrightarrow> lo' \<le> int (count n)) \<Longrightarrow> bt_inv ord lo' h n"
  by (cases h) (auto simp: bt_inv_Suc)

lemma restore_via_shift:
  assumes "restore n i = r"
    and "\<exists>n'. r = Some n' \<and> n' \<noteq> Null \<and> nMAX n' = nMAX n \<and> nMIN n' = nMIN n \<and>
              count n' = count n \<and> kids_ok ord h n'"
  shows "\<exists>n'. restore n i = Some n' \<and> n' \<noteq> Null \<and> nMAX n' = nMAX n \<and> nMIN n' = nMIN n \<and>
              count n' \<le> count n \<and> count n \<le> Suc (count n') \<and> kids_ok ord h n'"
proof -
  from assms(2) obtain n' where "r = Some n'" "n' \<noteq> Null" "nMAX n' = nMAX n" "nMIN n' = nMIN n"
    "count n' = count n" "kids_ok ord h n'" by blast
  with assms(1) show ?thesis by (intro exI [of _ n']) simp
qed

lemma restore_via_merge:
  assumes "restore n i = r"
    and "\<exists>n'. r = Some n' \<and> n' \<noteq> Null \<and> nMAX n' = nMAX n \<and> nMIN n' = nMIN n \<and>
              Suc (count n') = count n \<and> kids_ok ord h n'"
  shows "\<exists>n'. restore n i = Some n' \<and> n' \<noteq> Null \<and> nMAX n' = nMAX n \<and> nMIN n' = nMIN n \<and>
              count n' \<le> count n \<and> count n \<le> Suc (count n') \<and> kids_ok ord h n'"
proof -
  from assms(2) obtain n' where "r = Some n'" "n' \<noteq> Null" "nMAX n' = nMAX n" "nMIN n' = nMIN n"
    "Suc (count n') = count n" "kids_ok ord h n'" by blast
  with assms(1) show ?thesis by (intro exI [of _ n']) simp
qed

lemma restore_shape:
  assumes v: "valid_order ord" and n: "n \<noteq> Null" "nMIN n = MIN_of ord"
    and c1: "1 \<le> count n" and i: "i \<le> count n"
    and but: "kids_but ord (Suc h) n i"
    and df: "bt_inv ord (MIN_of ord - 1) (Suc h) (child n i)" "int (count (child n i)) < MIN_of ord"
  shows "\<exists>n'. restore n i = Some n' \<and> n' \<noteq> Null \<and> nMAX n' = nMAX n \<and> nMIN n' = nMIN n \<and>
              count n' \<le> count n \<and> count n \<le> Suc (count n') \<and> kids_ok ord (Suc h) n'"
proof -
  note pv = params_valid [OF v]
  have sib: "bt_inv ord (MIN_of ord) (Suc h) (child n j)" if "j \<le> count n" "j \<noteq> i" for j
    using but that by (simp add: kids_but_def)
  have sibN: "child n j \<noteq> Null" if "j \<le> count n" "j \<noteq> i" for j
    using sib [OF that] by (auto simp: bt_inv_Suc)
  have sib': "bt_inv ord (MIN_of ord - 1) (Suc h) (child n j)" if "j \<le> count n" for j
    using sib [OF that] df(1) by (cases "j = i") (auto intro: bt_inv_mono)
  have sibc: "int (count (child n j)) \<le> MAX_of ord" if "j \<le> count n" for j
    using sib' [OF that] by (simp add: bt_inv_Suc)
  consider (first) "i = 0" | (last) "i \<noteq> 0" "i = count n" | (mid) "i \<noteq> 0" "i \<noteq> count n"
    by blast
  then show ?thesis
  proof cases
    case first
    have nn: "child n 1 \<noteq> Null" using sibN [of 1] c1 first by simp
    show ?thesis
    proof (cases "int (count (child n 1)) > MIN_of ord")
      case True
      have "\<exists>n'. leftshift n 1 = Some n' \<and> n' \<noteq> Null \<and> nMAX n' = nMAX n \<and> nMIN n' = nMIN n \<and>
              count n' = count n \<and> kids_ok ord (Suc h) n'"
        using v n(1) _ _ _ _ _ True
      proof (rule leftshift_shape)
        show "1 \<le> (1::nat)" by simp
        show "1 \<le> count n" by (rule c1)
        show "kids_but ord (Suc h) n (1 - 1)" using but first by simp
        show "bt_inv ord (MIN_of ord - 1) (Suc h) (child n (1 - 1))" using df first by simp
        show "int (count (child n (1 - 1))) < MIN_of ord" using df first by simp
      qed
      moreover have "restore n i = leftshift n 1"
        using first c1 n nn True by (simp add: restore_def)
      ultimately show ?thesis by (intro restore_via_shift)
    next
      case False
      have "\<exists>n'. merge n 1 = Some n' \<and> n' \<noteq> Null \<and> nMAX n' = nMAX n \<and> nMIN n' = nMIN n \<and>
              Suc (count n') = count n \<and> kids_ok ord (Suc h) n'"
        using v n(1)
      proof (rule merge_shape)
        show "1 \<le> (1::nat)" by simp
        show "1 \<le> count n" by (rule c1)
        show "\<forall>j \<le> count n. j \<noteq> 1 \<longrightarrow> j \<noteq> 1 - 1 \<longrightarrow> bt_inv ord (MIN_of ord) (Suc h) (child n j)"
          using sib first by simp
        show "bt_inv ord (MIN_of ord - 1) (Suc h) (child n (1 - 1))" using df first by simp
        show "bt_inv ord (MIN_of ord - 1) (Suc h) (child n 1)" using sib' c1 by simp
        show "int (count (child n (1 - 1))) + int (count (child n 1)) < 2 * MIN_of ord"
          using df first False by simp
      qed
      moreover have "restore n i = merge n 1"
        using first c1 n nn False by (simp add: restore_def)
      ultimately show ?thesis by (intro restore_via_merge)
    qed
  next
    case last
    then have i1: "1 \<le> i" by simp
    have nn: "child n (i - 1) \<noteq> Null" using sibN [of "i - 1"] i i1 by simp
    show ?thesis
    proof (cases "int (count (child n (i - 1))) > MIN_of ord")
      case True
      have "restore n i = rightshift n i"
        using last n nn True i by (simp add: restore_def)
      with rightshift_shape [OF v n(1) i1 i but df True]
      show ?thesis by (intro restore_via_shift)
    next
      case False
      have "\<exists>n'. merge n i = Some n' \<and> n' \<noteq> Null \<and> nMAX n' = nMAX n \<and> nMIN n' = nMIN n \<and>
              Suc (count n') = count n \<and> kids_ok ord (Suc h) n'"
        using v n(1) i1 i
      proof (rule merge_shape)
        show "\<forall>j \<le> count n. j \<noteq> i \<longrightarrow> j \<noteq> i - 1 \<longrightarrow> bt_inv ord (MIN_of ord) (Suc h) (child n j)"
          using sib by simp
        show "bt_inv ord (MIN_of ord - 1) (Suc h) (child n (i - 1))" using sib' i by simp
        show "bt_inv ord (MIN_of ord - 1) (Suc h) (child n i)" by (rule df)
        show "int (count (child n (i - 1))) + int (count (child n i)) < 2 * MIN_of ord"
          using df False by simp
      qed
      moreover have "restore n i = merge n i"
        using last n nn False i by (simp add: restore_def)
      ultimately show ?thesis by (intro restore_via_merge)
    qed
  next
    case mid
    then have i1: "1 \<le> i" and i2: "Suc i \<le> count n" using i by simp_all
    have nn: "child n (i - 1) \<noteq> Null" using sibN [of "i - 1"] i i1 by simp
    have nr: "child n (i + 1) \<noteq> Null" using sibN [of "i + 1"] i2 by simp
    show ?thesis
    proof (cases "int (count (child n (i - 1))) > MIN_of ord")
      case True
      have "restore n i = rightshift n i"
        using mid n nn True i by (simp add: restore_def)
      with rightshift_shape [OF v n(1) i1 i but df True]
      show ?thesis by (intro restore_via_shift)
    next
      case False
      show ?thesis
      proof (cases "int (count (child n (i + 1))) > MIN_of ord")
        case R: True
        have "\<exists>n'. leftshift n (i + 1) = Some n' \<and> n' \<noteq> Null \<and> nMAX n' = nMAX n \<and>
              nMIN n' = nMIN n \<and> count n' = count n \<and> kids_ok ord (Suc h) n'"
          using v n(1) _ _ _ _ _ R
        proof (rule leftshift_shape)
          show "1 \<le> i + 1" by simp
          show "i + 1 \<le> count n" using i2 by simp
          show "kids_but ord (Suc h) n (i + 1 - 1)" using but by simp
          show "bt_inv ord (MIN_of ord - 1) (Suc h) (child n (i + 1 - 1))" using df by simp
          show "int (count (child n (i + 1 - 1))) < MIN_of ord" using df by simp
        qed
        moreover have "restore n i = leftshift n (i + 1)"
          using mid n nn nr False R i by (simp add: restore_def)
        ultimately show ?thesis by (intro restore_via_shift)
      next
        case R: False
        have "\<exists>n'. merge n i = Some n' \<and> n' \<noteq> Null \<and> nMAX n' = nMAX n \<and> nMIN n' = nMIN n \<and>
              Suc (count n') = count n \<and> kids_ok ord (Suc h) n'"
          using v n(1) i1 i
        proof (rule merge_shape)
          show "\<forall>j \<le> count n. j \<noteq> i \<longrightarrow> j \<noteq> i - 1 \<longrightarrow> bt_inv ord (MIN_of ord) (Suc h) (child n j)"
            using sib by simp
          show "bt_inv ord (MIN_of ord - 1) (Suc h) (child n (i - 1))" using sib' i by simp
          show "bt_inv ord (MIN_of ord - 1) (Suc h) (child n i)" by (rule df)
          show "int (count (child n (i - 1))) + int (count (child n i)) < 2 * MIN_of ord"
            using df False by simp
        qed
        moreover have "restore n i = merge n i"
          using mid n nn nr False R i by (simp add: restore_def)
        ultimately show ?thesis by (intro restore_via_merge)
      qed
    qed
  qed
qed

lemma kids_but_set_child:
  assumes "n \<noteq> Null" "kids_ok ord h n" "i \<le> count n"
  shows "kids_but ord h (set_child n i ch) i"
  unfolding kids_but_def
proof (intro allI impI)
  fix j assume j: "j \<le> count (set_child n i ch)" "j \<noteq> i"
  then have "child (set_child n i ch) j = child n j" using assms by (simp add: child_set_child)
  moreover have "bt_inv ord (MIN_of ord) h (child n j)"
    using assms j by (simp add: kids_ok_iff)
  ultimately show "bt_inv ord (MIN_of ord) h (child (set_child n i ch) j)" by simp
qed

lemma restore_if_shape:
  assumes v: "valid_order ord" and n: "n \<noteq> Null" "nMAX n = MAX_of ord" "nMIN n = MIN_of ord"
    and cnt: "lo \<le> int (count n)" "int (count n) \<le> MAX_of ord" and lo: "1 \<le> lo"
    and kids: "kids_ok ord h n" and i: "i \<le> count n"
    and ch: "bt_inv ord (if flag then MIN_of ord - 1 else MIN_of ord) h ch"
  shows "\<exists>n'. restore_if (set_child n i ch) i flag = Some (flag, n') \<and>
              bt_inv ord (if flag then lo - 1 else lo) (Suc h) n'"
proof -
  let ?n2 = "set_child n i ch"
  have c2: "child ?n2 i = ch" using n i by (simp add: child_set_child)
  have but: "kids_but ord h ?n2 i" using n(1) kids i by (rule kids_but_set_child)
  show ?thesis
  proof (cases "ch \<noteq> Null \<and> int (count ch) < MIN_of ord")
    case True
    have fl: flag
    proof (rule ccontr)
      assume "\<not> flag"
      with ch have "bt_inv ord (MIN_of ord) h ch" by simp
      with True show False by (cases h) (simp_all add: bt_inv_Suc)
    qed
    from True ch obtain h' where h: "h = Suc h'" by (cases h) auto
    have "\<exists>n'. restore ?n2 i = Some n' \<and> n' \<noteq> Null \<and> nMAX n' = nMAX ?n2 \<and> nMIN n' = nMIN ?n2 \<and>
              count n' \<le> count ?n2 \<and> count ?n2 \<le> Suc (count n') \<and> kids_ok ord (Suc h') n'"
      using v
    proof (rule restore_shape)
      show "?n2 \<noteq> Null" "nMIN ?n2 = MIN_of ord" using n by simp_all
      show "1 \<le> count ?n2" using cnt lo by simp
      show "i \<le> count ?n2" using i by simp
      show "kids_but ord (Suc h') ?n2 i" using but h by simp
      show "bt_inv ord (MIN_of ord - 1) (Suc h') (child ?n2 i)" using ch fl c2 h by simp
      show "int (count (child ?n2 i)) < MIN_of ord" using True c2 by simp
    qed
    then obtain n' where r: "restore ?n2 i = Some n'" and n': "n' \<noteq> Null" "nMAX n' = nMAX ?n2"
      "nMIN n' = nMIN ?n2" "count n' \<le> count ?n2" "count ?n2 \<le> Suc (count n')"
      "kids_ok ord (Suc h') n'" by blast
    have "int (count n') \<le> MAX_of ord" "lo - 1 \<le> int (count n')" using n' cnt by simp_all
    then have inv: "bt_inv ord (lo - 1) (Suc h) n'"
      using n' n h by (simp add: bt_inv_Suc)
    have "restore_if ?n2 i flag = map_option (Pair flag) (restore ?n2 i)"
      unfolding restore_if_def using True c2 n by simp
    with r inv fl show ?thesis by simp
  next
    case False
    have "bt_inv ord (MIN_of ord) h ch"
    proof (rule bt_inv_raise)
      show "bt_inv ord (if flag then MIN_of ord - 1 else MIN_of ord) h ch" by (rule ch)
      show "MIN_of ord \<le> int (count ch)" if "ch \<noteq> Null" using False that by simp
    qed
    then have "kids_ok ord h ?n2" using kids n by (simp add: kids_ok_set_child)
    then have "bt_inv ord lo (Suc h) ?n2" using n cnt by (simp add: bt_inv_Suc)
    then have inv: "bt_inv ord (if flag then lo - 1 else lo) (Suc h) ?n2"
      by (cases flag) (auto intro: bt_inv_mono)
    have "restore_if ?n2 i flag = Some (flag, ?n2)"
      unfolding restore_if_def using False c2 n by auto
    with inv show ?thesis by simp
  qed
qed

lemma searchNode_loop_pos: "0 < p \<Longrightarrow> 0 < searchNode_loop k es p"
  by (induction p) auto

lemma searchNode_found_pos: "searchNode k n = Some (True, pos) \<Longrightarrow> 1 \<le> pos"
  using searchNode_loop_pos [of "length (entries n)" k "entries n"]
  by (cases n) (auto simp: searchNode_def Let_def split: if_splits)

lemma leftmost_shape:
  assumes v: "valid_order ord"
  shows "bt_inv ord lo (Suc h) c \<Longrightarrow> 1 \<le> lo \<Longrightarrow> \<exists>t. leftmost c = Some t \<and> 0 < count t"
proof (induction h arbitrary: c lo)
  case 0
  then show ?case by (cases c) (auto simp: bt_inv_Node)
next
  case (Suc h)
  from Suc.prems obtain mx mn c0 es where c: "c = BTreeNode mx mn c0 es"
    by (cases c) (auto simp: bt_inv_Suc)
  with Suc.prems have c0: "bt_inv ord (MIN_of ord) (Suc h) c0" by (simp add: bt_inv_Node)
  then have "c0 \<noteq> Null" by (auto simp: bt_inv_Suc)
  with Suc.IH [OF c0] params_valid(1) [OF v] c show ?case by simp
qed

lemma kids_ok_clear:
  assumes "n \<noteq> Null" "kids_ok ord h n"
  shows "kids_ok ord h (clear n k)"
  using assms unfolding kids_ok_def
  by (cases n) (auto simp: clear_def dest: in_set_takeD in_set_dropD)

lemma kids_ok_image: "kids_ok ord h n = (\<forall>c \<in> snd ` set (slots n). bt_inv ord (MIN_of ord) h c)"
  by (auto simp: kids_ok_def)

lemma kids_ok_set_value: "kids_ok ord h (set_value n i v) = kids_ok ord h n"
proof (cases n)
  case Null
  then show ?thesis by (simp add: set_value_def)
next
  case (BTreeNode mx mn c0 es)
  have "map snd (es[i - 1 := (v, snd (es ! (i - 1)))]) = map snd es"
  proof (cases "i - 1 < length es")
    case True
    then show ?thesis by (simp add: map_update list_update_same_conv)
  next
    case False
    then show ?thesis by (simp add: list_update_beyond)
  qed
  then have "snd ` set (es[i - 1 := (v, snd (es ! (i - 1)))]) = snd ` set es"
    by (metis set_map)
  then have "snd ` set (slots (set_value n i v)) = snd ` set (slots n)"
    using BTreeNode by (simp add: slots_def set_value_def)
  then show ?thesis by (simp only: kids_ok_image)
qed

lemma delhelp_shape:
  assumes v: "valid_order ord"
  shows "bt_inv ord lo h n \<Longrightarrow> 1 \<le> lo \<Longrightarrow>
         \<exists>flag n'. delhelp k n = Some (flag, n') \<and> bt_inv ord (if flag then lo - 1 else lo) h n'"
proof (induction h arbitrary: n lo k)
  case 0
  then show ?case by (subst delhelp.simps) auto
next
  case (Suc h)
  note pv = params_valid [OF v]
  from Suc.prems have n: "n \<noteq> Null" "nMAX n = MAX_of ord" "nMIN n = MIN_of ord"
    and cnt: "lo \<le> int (count n)" "int (count n) \<le> MAX_of ord" and kids: "kids_ok ord h n"
    by (auto simp: bt_inv_Suc)
  from cnt Suc.prems(2) have "0 < count n" by simp
  from searchNode_Some [OF n(1) this] obtain found i where
    sn: "searchNode k n = Some (found, i)" by blast
  from searchNode_pos [OF sn] have i: "i \<le> count n" by simp
  have chi: "bt_inv ord (MIN_of ord) h (child n i)"
    using Suc.prems(1) i by (rule bt_inv_child)
  show ?case
  proof (cases found)
    case False
    from Suc.IH [OF chi pv(1), of k] obtain flag ch where
      rec: "delhelp k (child n i) = Some (flag, ch)"
      and ch: "bt_inv ord (if flag then MIN_of ord - 1 else MIN_of ord) h ch" by blast
    from restore_if_shape [OF v n cnt Suc.prems(2) kids i ch] obtain n' where
      "restore_if (set_child n i ch) i flag = Some (flag, n')"
      "bt_inv ord (if flag then lo - 1 else lo) (Suc h) n'" by blast
    with sn n False rec show ?thesis by (subst delhelp.simps) simp
  next
    case True
    with sn have i1: "1 \<le> i" by (auto dest: searchNode_found_pos)
    have chp: "bt_inv ord (MIN_of ord) h (child n (i - 1))"
      using Suc.prems(1) i by (intro bt_inv_child) auto
    show ?thesis
    proof (cases "child n (i - 1) \<noteq> Null")
      case inner: True
      with chp obtain h' where h: "h = Suc h'" by (cases h) auto
      from leftmost_shape [OF v chi [unfolded h] pv(1)] obtain t where
        t: "leftmost (child n i) = Some t" "0 < count t" by blast
      let ?n1 = "set_value n i (value t 1)"
      have cs: "copysucc n i = Some ?n1" using t by (simp add: copysucc_def)
      from Suc.IH [OF chi pv(1), of "fkey (value ?n1 i)"] obtain flag ch where
        rec: "delhelp (fkey (value ?n1 i)) (child n i) = Some (flag, ch)"
        and ch: "bt_inv ord (if flag then MIN_of ord - 1 else MIN_of ord) h ch" by blast
      have "\<exists>n'. restore_if (set_child ?n1 i ch) i flag = Some (flag, n') \<and>
              bt_inv ord (if flag then lo - 1 else lo) (Suc h) n'"
        using v _ _ _ _ _ Suc.prems(2) _ _ ch
      proof (rule restore_if_shape)
        show "?n1 \<noteq> Null" "nMAX ?n1 = MAX_of ord" "nMIN ?n1 = MIN_of ord" using n by simp_all
        show "lo \<le> int (count ?n1)" "int (count ?n1) \<le> MAX_of ord" using cnt by simp_all
        show "kids_ok ord h ?n1" using kids by (simp add: kids_ok_set_value)
        show "i \<le> count ?n1" using i by simp
      qed
      then obtain n' where "restore_if (set_child ?n1 i ch) i flag = Some (flag, n')"
        "bt_inv ord (if flag then lo - 1 else lo) (Suc h) n'" by blast
      with sn n True inner cs rec show ?thesis by (subst delhelp.simps) simp
    next
      case leaf: False
      with chp have h: "h = 0" by simp
      let ?n1 = "clear n i"
      have all_null: "child n j = Null" if "j \<le> count n" for j
        using bt_inv_child [OF Suc.prems(1) that] h by simp
      have c1: "count ?n1 = count n - 1" using n i i1 by (simp add: count_clear)
      have "child ?n1 i = Null" if "i < count n"
        using that n i i1 all_null by (simp add: child_clear)
      then have slot: "(if i < count n then child ?n1 i else child n i) = Null"
        using all_null [OF i] by simp
      have "kids_ok ord h ?n1" using n(1) kids by (rule kids_ok_clear)
      then have "bt_inv ord (lo - 1) (Suc h) ?n1"
        using n cnt c1 i i1 by (simp add: bt_inv_Suc)
      with sn n True leaf slot show ?thesis by (subst delhelp.simps) (auto simp: Let_def)
    qed
  qed
qed

lemma deleteHelper_shape:
  assumes v: "valid_order ord" and ok: "btree_ok ord t"
  shows "\<exists>t' missing. deleteHelper t k = Some (t', missing) \<and> btree_ok ord t'"
proof (cases t)
  case Null
  then show ?thesis by (auto simp: deleteHelper_def del_def btree_ok_def)
next
  case (BTreeNode mx mn c0 es)
  note pv = params_valid [OF v]
  let ?h = "height c0"
  from ok BTreeNode have inv: "bt_inv ord 1 (Suc ?h) t" by (simp add: btree_ok_def)
  from delhelp_shape [OF v inv, of k] obtain flag n' where
    d: "delhelp k t = Some (flag, n')" and n': "bt_inv ord (if flag then 1 - 1 else 1) (Suc ?h) n'"
    by auto
  show ?thesis
  proof (cases flag)
    case False
    with n' have "btree_ok ord n'" using bt_inv_height [of ord 1 "Suc ?h" n']
      by (simp add: btree_ok_def)
    with d False BTreeNode show ?thesis by (auto simp: deleteHelper_def del_def)
  next
    case True
    with n' have i0: "bt_inv ord 0 (Suc ?h) n'" by simp
    show ?thesis
    proof (cases "count n' = 0")
      case z: True
      from i0 have "bt_inv ord (MIN_of ord) ?h (child n' 0)" by (rule bt_inv_child) simp
      moreover have "child n' 0 = child0 n'" using i0 by (cases n') (auto simp: child_def)
      ultimately have c: "bt_inv ord 1 ?h (child0 n')" using pv by (auto intro: bt_inv_mono)
      then have "btree_ok ord (child0 n')" using bt_inv_height [OF c] by (simp add: btree_ok_def)
      with d True z BTreeNode show ?thesis by (auto simp: deleteHelper_def del_def)
    next
      case nz: False
      have "bt_inv ord 1 (Suc ?h) n'" using i0 nz by (intro bt_inv_raise [OF i0]) simp
      then have "btree_ok ord n'" using bt_inv_height [of ord 1 "Suc ?h" n']
        by (simp add: btree_ok_def)
      with d True nz BTreeNode show ?thesis by (auto simp: deleteHelper_def del_def)
    qed
  qed
qed

lemma MIN_of_ceiling: "valid_order ord \<Longrightarrow> MIN_of ord = \<lceil>real_of_int ord / 2\<rceil> - 1"
proof -
  assume v: "valid_order ord"
  have "\<lceil>real_of_int ord / 2\<rceil> = (ord + 1) div 2" by linarith
  with MIN_of_valid [OF v] show ?thesis by simp
qed

lemma subtrees_bounds:
  "bt_inv ord lo h t \<Longrightarrow> n \<in> set (subtrees t) \<Longrightarrow>
   min lo (MIN_of ord) \<le> int (count n) \<and> int (count n) \<le> MAX_of ord"
proof (induction h arbitrary: t lo)
  case 0
  then show ?case by simp
next
  case (Suc h)
  then obtain mx mn c0 es where t: "t = BTreeNode mx mn c0 es"
    by (cases t) (auto simp: bt_inv_Suc)
  from Suc.prems(2) t consider "n = t" | "n \<in> set (subtrees c0)"
    | e where "e \<in> set es" "n \<in> set (subtrees (snd e))" by auto
  then show ?case
  proof cases
    case 1
    with Suc.prems(1) show ?thesis by (auto simp: bt_inv_Suc)
  next
    case 2
    from Suc.prems(1) t have "bt_inv ord (MIN_of ord) h c0" by (simp add: bt_inv_Node)
    from Suc.IH [OF this 2] show ?thesis by auto
  next
    case 3
    from Suc.prems(1) t 3(1) have "bt_inv ord (MIN_of ord) h (snd e)"
      by (auto simp: bt_inv_Node)
    from Suc.IH [OF this 3(2)] show ?thesis by auto
  qed
qed

lemma btree_ok_occupancy:
  assumes v: "valid_order ord" and ok: "btree_ok ord t"
  shows "occupancy_ok ord t"
proof -
  have low: "\<lceil>real_of_int ord / 2\<rceil> - 1 \<le> int (count n)" if n: "n \<in> set (nonroot_nodes t)" for n
  proof -
    from n obtain mx mn c0 es where t: "t = BTreeNode mx mn c0 es" by (cases t) auto
    from ok t have inv: "bt_inv ord 1 (Suc (height c0)) t" by (simp add: btree_ok_def)
    from n t consider "n \<in> set (subtrees c0)"
      | e where "e \<in> set es" "n \<in> set (subtrees (snd e))" by auto
    then have "MIN_of ord \<le> int (count n)"
    proof cases
      case 1
      from inv t have "bt_inv ord (MIN_of ord) (height c0) c0" by (simp add: bt_inv_Node)
      from subtrees_bounds [OF this 1] show ?thesis by simp
    next
      case 2
      from inv t 2(1) have "bt_inv ord (MIN_of ord) (height c0) (snd e)"
        by (auto simp: bt_inv_Node)
      from subtrees_bounds [OF this 2(2)] show ?thesis by simp
    qed
    then show ?thesis using MIN_of_ceiling [OF v] by simp
  qed
  have up: "int (count n) \<le> ord - 1" if n: "n \<in> set (subtrees t)" for n
    using subtrees_bounds [OF ok [unfolded btree_ok_def] n] by (simp add: MAX_of_def)
  from low up show ?thesis unfolding occupancy_ok_def by blast
qed

lemma run_ops_shape:
  assumes v: "valid_order ord"
  shows "btree_ok ord t \<Longrightarrow> \<exists>t'. run_ops ord t xs = Some t' \<and> btree_ok ord t'"
proof (induction xs arbitrary: t)
  case Nil
  then show ?case by simp
next
  case (Cons x xs)
  have "\<exists>t1. apply_op ord t x = Some t1 \<and> btree_ok ord t1"
  proof (cases x)
    case (Insert f)
    with insertHelper_shape [OF v Cons.prems, of f] show ?thesis by auto
  next
    case (Delete k)
    with deleteHelper_shape [OF v Cons.prems, of k] show ?thesis by auto
  qed
  then obtain t1 where "apply_op ord t x = Some t1" "btree_ok ord t1" by blast
  with Cons.IH [OF this(2)] show ?case by simp
qed

text \<open>
  Claim C4. For every order \<open>t\<close> from 3 to 100 the constructor's \<^verbatim>\<open>MIN\<close> is
  \<open>\<lceil>t / 2\<rceil> - 1\<close> and its \<^verbatim>\<open>MAX\<close> is \<open>t - 1\<close>, and every sequence of \<^verbatim>\<open>insertHelper\<close>
  and \<^verbatim>\<open>deleteHelper\<close> calls from the empty tree runs without a fault and builds a tree
  in which every node other than the root holds at least \<open>\<lceil>t / 2\<rceil> - 1\<close> records and
  every node at most \<open>t - 1\<close>.
\<close>

theorem btree_occupancy_invariant:
  assumes "valid_order ord"
  shows "MIN_of ord = \<lceil>real_of_int ord / 2\<rceil> - 1 \<and> MAX_of ord = ord - 1 \<and>
         (\<exists>t. run_ops ord Null xs = Some t \<and> occupancy_ok ord t)"
proof -
  have "btree_ok ord Null" by (simp add: btree_ok_def)
  from run_ops_shape [OF assms this, of xs] obtain t where
    t: "run_ops ord Null xs = Some t" "btree_ok ord t" by blast
  with btree_ok_occupancy [OF assms t(2)] MIN_of_ceiling [OF assms] show ?thesis
    by (simp add: MAX_of_def)
qed

theorem btree_occupancy_invariant_witness:
  "valid_order 3 \<and> MIN_of 3 = 1 \<and> MAX_of 3 = 2 \<and>
   run_ops 3 Null ops17 = Some tree17 \<and> occupancy_ok 3 tree17"
proof -
  have v: "valid_order 3" by (simp add: valid_order_def)
  have r: "run_ops 3 Null ops17 = Some tree17" by code_simp
  from btree_occupancy_invariant [OF v, of ops17] v r show ?thesis by simp
qed

section \<open>The B-tree keeps its records in order\<close>

lemma inorder_Node: "inorder (BTreeNode mx mn c0 es) = inorder c0 @ flat es"
  by (simp add: flat_def)

declare inorder.simps(2) [simp del]
declare inorder_Node [simp]

lemma flat_Nil [simp]: "flat [] = []"
  by (simp add: flat_def)

lemma flat_Cons [simp]: "flat (e # es) = fst e # inorder (snd e) @ flat es"
  by (simp add: flat_def)

lemma flat_append [simp]: "flat (xs @ ys) = flat xs @ flat ys"
  by (simp add: flat_def)

lemma flat_take_drop: "flat es = flat (take p es) @ flat (drop p es)"
  by (metis append_take_drop_id flat_append)

lemma inorder_split:
  assumes "n \<noteq> Null" "p \<le> count n"
  shows "inorder n = before n p @ inorder (child n p) @ behind n p"
proof (cases n)
  case Null
  with assms show ?thesis by simp
next
  case (BTreeNode mx mn c0 es)
  show ?thesis
  proof (cases p)
    case 0
    with BTreeNode show ?thesis by (simp add: before_def behind_def child_def)
  next
    case (Suc q)
    with assms BTreeNode have q: "q < length es" by simp
    then have "take (Suc q) es = take q es @ [es ! q]" by (simp add: take_Suc_conv_app_nth)
    then have "flat es = flat (take q es) @ fst (es ! q) # inorder (snd (es ! q)) @ flat (drop (Suc q) es)"
      using flat_take_drop [of es "Suc q"] by simp
    with BTreeNode Suc q show ?thesis
      by (simp add: before_def behind_def child_def value_def)
  qed
qed

lemma fst_update_snd: "fst (xs[a := (fst (xs ! a), c)] ! b) = fst (xs ! b)"
  by (cases "a = b"; cases "b < length xs"; simp add: list_update_beyond)

lemma before_set_child [simp]: "before (set_child n p c) p = before n p"
  by (cases n; cases p) (auto simp: before_def set_child_def value_def fst_update_snd)

lemma behind_set_child [simp]: "behind (set_child n p c) p = behind n p"
  by (cases n; cases p) (auto simp: behind_def set_child_def drop_update_cancel)

lemma inorder_set_child:
  assumes "n \<noteq> Null" "p \<le> count n"
  shows "inorder (set_child n p c) = before n p @ inorder c @ behind n p"
  using inorder_split [of "set_child n p c" p] assms by (simp add: child_set_child)

text \<open>The position that the scan of a node returns.\<close>

lemma searchNode_loop_spec:
  "0 < m \<Longrightarrow> searchNode_loop k es m = p \<Longrightarrow>
   1 \<le> p \<and> p \<le> m \<and> (\<forall>j. p \<le> j \<and> j < m \<longrightarrow> k < fkey (fst (es ! j))) \<and>
   (1 < p \<longrightarrow> \<not> k < fkey (fst (es ! (p - 1))))"
proof (induction m arbitrary: p)
  case 0
  then show ?case by simp
next
  case (Suc m)
  show ?case
  proof (cases "k < fkey (fst (es ! m)) \<and> Suc m > 1")
    case True
    with Suc.prems have "searchNode_loop k es m = p" "0 < m" by auto
    from Suc.IH [OF this(2,1)] True show ?thesis by (auto simp: less_Suc_eq)
  next
    case False
    with Suc.prems have "p = Suc m" by auto
    with False show ?thesis by auto
  qed
qed

lemma searchNode_spec:
  assumes "searchNode k n = Some (found, p)"
  shows "p \<le> count n \<and> (p < count n \<longrightarrow> k < fkey (value n (Suc p))) \<and>
         (if p = 0 then \<not> found
          else fkey (value n p) \<le> k \<and> found = (k = fkey (value n p)))"
proof (cases n)
  case Null
  with assms show ?thesis by (simp add: searchNode_def)
next
  case (BTreeNode mx mn c0 es)
  with assms have es: "es \<noteq> []" by (auto simp: searchNode_def split: if_splits)
  show ?thesis
  proof (cases "k < fkey (fst (es ! 0))")
    case True
    with assms BTreeNode es have "p = 0" "\<not> found" by (auto simp: searchNode_def)
    with True BTreeNode show ?thesis by (simp add: value_def)
  next
    case False
    let ?p = "searchNode_loop k es (length es)"
    from assms BTreeNode es False have p: "p = ?p" and f: "found = (k = fkey (fst (es ! (?p - 1))))"
      by (auto simp: searchNode_def Let_def)
    from es have "0 < length es" by simp
    from searchNode_loop_spec [OF this refl, of k es] p
    have s: "1 \<le> p" "p \<le> length es" "\<forall>j. p \<le> j \<and> j < length es \<longrightarrow> k < fkey (fst (es ! j))"
      "1 < p \<longrightarrow> \<not> k < fkey (fst (es ! (p - 1)))" by auto
    have "\<not> k < fkey (fst (es ! (p - 1)))" using s(1,4) False by (cases "p = 1") auto
    with s f p BTreeNode show ?thesis by (auto simp: value_def)
  qed
qed

text \<open>In an ordered node the scan separates the records around the position.\<close>

lemma sorted_last_bound:
  assumes "sorted_wrt (<) (map fkey (xs @ [x]))" "y \<in> set xs"
  shows "fkey y < fkey x"
  using assms by (auto simp: sorted_wrt_append)

lemma sorted_hd_bound:
  assumes "sorted_wrt (<) (map fkey (x # xs))" "y \<in> set xs"
  shows "fkey x < fkey y"
  using assms by auto

lemma behind_hd:
  assumes "p < count n"
  shows "\<exists>ys. behind n p = value n (Suc p) # ys"
proof -
  from assms have "drop p (entries n) = entries n ! p # drop (Suc p) (entries n)"
    by (simp add: count_def Cons_nth_drop_Suc)
  then show ?thesis by (simp add: behind_def value_def)
qed

lemma search_bounds:
  assumes o: "ordered n" and n: "n \<noteq> Null" and s: "searchNode k n = Some (found, p)"
  shows "\<forall>x \<in> set (behind n p). k < fkey x"
    and "\<not> found \<Longrightarrow> \<forall>x \<in> set (before n p). fkey x < k"
    and "found \<Longrightarrow> \<exists>xs. before n p = xs @ [value n p] \<and> fkey (value n p) = k \<and>
           (\<forall>x \<in> set xs. fkey x < k)"
proof -
  note sp = searchNode_spec [OF s]
  then have p: "p \<le> count n" by simp
  from o inorder_split [OF n p]
  have srt: "sorted_wrt (<) (map fkey (before n p @ inorder (child n p) @ behind n p))"
    by (simp add: ordered_def)
  then have sb: "sorted_wrt (<) (map fkey (behind n p))" and sa: "sorted_wrt (<) (map fkey (before n p))"
    by (simp_all add: sorted_wrt_append)
  show "\<forall>x \<in> set (behind n p). k < fkey x"
  proof (cases "p < count n")
    case True
    from behind_hd [OF True] obtain ys where ys: "behind n p = value n (Suc p) # ys" by blast
    from sp True have "k < fkey (value n (Suc p))" by simp
    with sb ys show ?thesis by fastforce
  next
    case False
    with p show ?thesis by (simp add: behind_def count_def)
  qed
  define xs where "xs = inorder (child0 n) @ flat (take (p - 1) (entries n))"
  have bf: "before n p = xs @ [value n p]" if "p \<noteq> 0"
    using that by (simp add: before_def xs_def)
  show "\<forall>x \<in> set (before n p). fkey x < k" if "\<not> found"
  proof (cases "p = 0")
    case True
    then show ?thesis by (simp add: before_def)
  next
    case False
    with sp that have lt: "fkey (value n p) < k" by auto
    from sa bf [OF False] have "\<forall>x \<in> set xs. fkey x < fkey (value n p)"
      by (metis sorted_last_bound)
    with lt bf [OF False] show ?thesis by fastforce
  qed
  show "\<exists>xs. before n p = xs @ [value n p] \<and> fkey (value n p) = k \<and> (\<forall>x \<in> set xs. fkey x < k)"
    if "found"
  proof -
    from sp that have p0: "p \<noteq> 0" and eq: "fkey (value n p) = k" by (auto split: if_splits)
    from sa bf [OF p0] have "\<forall>x \<in> set xs. fkey x < fkey (value n p)"
      by (metis sorted_last_bound)
    with eq bf [OF p0] show ?thesis by blast
  qed
qed

lemma ordered_Null [simp]: "ordered Null"
  by (simp add: ordered_def)

lemma ordered_child:
  assumes "ordered n" "n \<noteq> Null" "p \<le> count n"
  shows "ordered (child n p)"
  using assms(1) inorder_split [OF assms(2,3)] by (simp add: ordered_def sorted_wrt_append)

lemma find_skip: "\<forall>x \<in> set xs. \<not> P x \<Longrightarrow> find P (xs @ ys) = find P ys"
  by (induction xs) auto

lemma find_stop: "\<forall>x \<in> set ys. \<not> P x \<Longrightarrow> find P (xs @ ys) = find P xs"
  by (induction xs) (auto simp: find_None_iff)

text \<open>\<^verbatim>\<open>findFile\<close> on an ordered tree returns the record with the key, if there is one.\<close>

lemma findFile_node_find:
  assumes v: "valid_order ord"
  shows "bt_inv ord lo h n \<Longrightarrow> 1 \<le> lo \<Longrightarrow> ordered n \<Longrightarrow>
         findFile_node k n = Some (find (\<lambda>f. fkey f = k) (inorder n))"
proof (induction h arbitrary: n lo)
  case 0
  then show ?case by (subst findFile_node.simps) simp
next
  case (Suc h)
  note pv = params_valid [OF v]
  from Suc.prems have n: "n \<noteq> Null" and cnt: "0 < count n" by (auto simp: bt_inv_Suc)
  from searchNode_Some [OF n cnt] obtain found p where s: "searchNode k n = Some (found, p)" by blast
  from searchNode_pos [OF s] have p: "p \<le> count n" by simp
  note sb = search_bounds [OF Suc.prems(3) n s]
  note sp = inorder_split [OF n p]
  show ?case
  proof (cases found)
    case True
    from sb(3) [OF True] obtain xs where xs: "before n p = xs @ [value n p]"
      "fkey (value n p) = k" "\<forall>x \<in> set xs. fkey x < k" by blast
    have "find (\<lambda>f. fkey f = k) (xs @ value n p # inorder (child n p) @ behind n p) =
          find (\<lambda>f. fkey f = k) (value n p # inorder (child n p) @ behind n p)"
      using xs(3) by (intro find_skip) auto
    with xs sp have "find (\<lambda>f. fkey f = k) (inorder n) = Some (value n p)" by simp
    with s n True show ?thesis by (subst findFile_node.simps) simp
  next
    case False
    have ch: "bt_inv ord (MIN_of ord) h (child n p)" using Suc.prems(1) p by (rule bt_inv_child)
    have oc: "ordered (child n p)" using Suc.prems(3) n p by (rule ordered_child)
    have "find (\<lambda>f. fkey f = k) (before n p @ inorder (child n p) @ behind n p) =
          find (\<lambda>f. fkey f = k) (inorder (child n p) @ behind n p)"
      using sb(2) [OF False] by (intro find_skip) auto
    also have "\<dots> = find (\<lambda>f. fkey f = k) (inorder (child n p))"
      using sb(1) by (intro find_stop) auto
    finally have "find (\<lambda>f. fkey f = k) (inorder n) = find (\<lambda>f. fkey f = k) (inorder (child n p))"
      using sp by simp
    with Suc.IH [OF ch pv(1) oc] s n False show ?thesis by (subst findFile_node.simps) simp
  qed
qed

lemma ins_Nil [simp]: "ins f [] = [f]"
  by (simp add: ins_def)

lemma filter_all: "\<forall>x \<in> set xs. P x \<Longrightarrow> filter P xs = xs"
  by (induction xs) auto

lemma filter_none: "\<forall>x \<in> set xs. \<not> P x \<Longrightarrow> filter P xs = []"
  by (induction xs) auto

lemma ins_mid:
  assumes "\<forall>x \<in> set pre. fkey x < fkey f" "\<forall>x \<in> set post. fkey f < fkey x"
  shows "ins f (pre @ mid @ post) = pre @ ins f mid @ post"
proof -
  have "filter (\<lambda>x. fkey x < fkey f) pre = pre" "filter (\<lambda>x. fkey f < fkey x) post = post"
    using assms by (simp_all add: filter_all)
  moreover have "filter (\<lambda>x. fkey f < fkey x) pre = []" "filter (\<lambda>x. fkey x < fkey f) post = []"
    using assms by (auto intro!: filter_none)
  ultimately show ?thesis by (simp add: ins_def)
qed

lemma sorted_ins:
  assumes "sorted_wrt (<) (map fkey xs)"
  shows "sorted_wrt (<) (map fkey (ins f xs))"
proof -
  have "sorted_wrt (<) (map fkey (filter P xs))" for P
    using assms by (induction xs) auto
  then show ?thesis by (auto simp: ins_def sorted_wrt_append)
qed

lemma set_ins: "fkey f \<notin> fkey ` set xs \<Longrightarrow> set (ins f xs) = insert f (set xs)"
  by (auto simp: ins_def)

text \<open>The records of a node seen from a position: those up to the child, and the rest.\<close>

lemma front:
  assumes "n \<noteq> Null" "p \<le> count n"
  shows "before n p @ inorder (child n p) = inorder (child0 n) @ flat (take p (entries n))"
proof (cases n)
  case Null
  with assms show ?thesis by simp
next
  case (BTreeNode mx mn c0 es)
  show ?thesis
  proof (cases p)
    case 0
    with BTreeNode show ?thesis by (simp add: before_def child_def)
  next
    case (Suc q)
    with assms BTreeNode have q: "q < length es" by simp
    then have "take (Suc q) es = take q es @ [es ! q]" by (simp add: take_Suc_conv_app_nth)
    with BTreeNode Suc q show ?thesis by (simp add: before_def child_def value_def)
  qed
qed

lemma before_Suc:
  assumes "n \<noteq> Null" "q < count n"
  shows "before n (Suc q) = before n q @ inorder (child n q) @ [value n (Suc q)]"
  using front [OF assms(1), of q] assms(2) by (simp add: before_def)

lemma inorder_fillnode:
  assumes "n \<noteq> Null" "k \<le> count n"
  shows "inorder (fillnode p c n k) = before n k @ inorder (child n k) @ p # inorder c @ behind n k"
proof -
  from assms obtain mx mn c0 es where N: "n = BTreeNode mx mn c0 es" by (cases n) auto
  have "inorder (fillnode p c n k) = (inorder c0 @ flat (take k es)) @ p # inorder c @ flat (drop k es)"
    using N by (simp add: fillnode_def)
  with front [OF assms] N show ?thesis by (simp add: behind_def)
qed

lemma flat_butlast:
  "xs \<noteq> [] \<Longrightarrow> flat (butlast xs) @ fst (last xs) # inorder (snd (last xs)) = flat xs"
  using flat_append [of "butlast xs" "[last xs]"] by simp

lemma split_inorder:
  assumes len: "nat mx = length es" and mn: "0 \<le> mn" "Suc (nat mn) \<le> length es"
    and k: "k \<le> length es" and sp: "split f c (BTreeNode mx mn c0 es) k = (y, r, l)"
  shows "inorder l @ y # inorder r = inorder c0 @ flat (take k es) @ f # inorder c @ flat (drop k es)"
proof (cases "int k \<le> mn")
  case True
  let ?m = "nat mn"
  let ?l1 = "take k (take ?m es) @ (f, c) # drop k (take ?m es)"
  from True mn have km: "k \<le> ?m" by simp
  from sp split_low [OF True km, where es = es and f = f and c = c and mx = mx and ?c0.0 = c0] mn len
  have r: "r = BTreeNode mx mn (snd (last ?l1)) (drop ?m es)" and l: "l = BTreeNode mx mn c0 (butlast ?l1)"
    and y: "y = fst (last ?l1)" by (simp_all add: Let_def)
  have ne: "?l1 \<noteq> []" by simp
  have "inorder l @ y # inorder r =
        inorder c0 @ (flat (butlast ?l1) @ fst (last ?l1) # inorder (snd (last ?l1))) @ flat (drop ?m es)"
    unfolding r l y by simp
  also have "\<dots> = inorder c0 @ flat ?l1 @ flat (drop ?m es)"
    by (simp only: flat_butlast [OF ne])
  also have "\<dots> = inorder c0 @ flat (take k es) @ f # inorder c @ flat (drop k (take ?m es) @ drop ?m es)"
    using km by (simp add: min_def)
  also have "drop k (take ?m es) @ drop ?m es = drop k es"
    using km by (metis append_take_drop_id drop_append length_take min.absorb2 mn(2) Suc_leD drop_all diff_is_0_eq drop0 le_trans)
  finally show ?thesis .
next
  case False
  let ?m = "nat mn"
  let ?l1 = "take (Suc ?m) es"
  let ?r0 = "drop (Suc ?m) es"
  from False mn have km: "Suc ?m \<le> k" by simp
  from sp split_high [OF False mn, where f = f and c = c and mx = mx and ?c0.0 = c0] len
  have r: "r = BTreeNode mx mn (snd (last ?l1)) (take (k - Suc ?m) ?r0 @ (f, c) # drop (k - Suc ?m) ?r0)"
    and l: "l = BTreeNode mx mn c0 (butlast ?l1)" and y: "y = fst (last ?l1)"
    by (simp_all add: Let_def)
  have ne: "?l1 \<noteq> []" using mn by auto
  have "inorder l @ y # inorder r =
        inorder c0 @ (flat (butlast ?l1) @ fst (last ?l1) # inorder (snd (last ?l1))) @
        flat (take (k - Suc ?m) ?r0) @ f # inorder c @ flat (drop (k - Suc ?m) ?r0)"
    unfolding r l y by simp
  also have "\<dots> = inorder c0 @ flat (?l1 @ take (k - Suc ?m) ?r0) @ f # inorder c @ flat (drop (k - Suc ?m) ?r0)"
    by (simp add: flat_butlast [OF ne])
  also have "?l1 @ take (k - Suc ?m) ?r0 = take k es"
    using km by (metis le_add_diff_inverse take_add)
  also have "drop (k - Suc ?m) ?r0 = drop k es"
    using km by simp
  finally show ?thesis .
qed

lemma setval_inorder:
  assumes v: "valid_order ord"
  shows "bt_inv ord lo h n \<Longrightarrow> 1 \<le> lo \<Longrightarrow> ordered n \<Longrightarrow> setval f n = Some res \<Longrightarrow>
         setval_content f n res"
proof (induction h arbitrary: n lo res)
  case 0
  then show ?case by (subst (asm) setval.simps) auto
next
  case (Suc h)
  note pv = params_valid [OF v]
  from Suc.prems have n: "n \<noteq> Null" "nMAX n = MAX_of ord" "nMIN n = MIN_of ord"
    and cnt: "lo \<le> int (count n)" "int (count n) \<le> MAX_of ord"
    by (auto simp: bt_inv_Suc)
  from cnt Suc.prems(2) have "0 < count n" by simp
  from searchNode_Some [OF n(1) this] obtain found k where
    sn: "searchNode (fkey f) n = Some (found, k)" by blast
  from searchNode_pos [OF sn] have k: "k \<le> count n" by simp
  note sb = search_bounds [OF Suc.prems(3) n(1) sn]
  note sp = inorder_split [OF n(1) k]
  show ?case
  proof (cases found)
    case True
    from sb(3) [OF True] obtain xs where xs: "before n k = xs @ [value n k]"
      "fkey (value n k) = fkey f" by blast
    have "value n k \<in> set (inorder n)" by (subst sp) (simp add: xs(1))
    with xs(2) have "fkey f \<in> fkey ` set (inorder n)" by (metis imageI)
    moreover have "setval f n = Some (Settled n True)"
      using sn n(1) True by (subst setval.simps) simp
    with Suc.prems(4) have "res = Settled n True" by simp
    ultimately show ?thesis by simp
  next
    case False
    have lt: "\<forall>x \<in> set (before n k). fkey x < fkey f" using sb(2) False by simp
    have gt: "\<forall>x \<in> set (behind n k). fkey f < fkey x" using sb(1) by simp
    have chi: "bt_inv ord (MIN_of ord) h (child n k)"
      using Suc.prems(1) k by (rule bt_inv_child)
    have oc: "ordered (child n k)" using Suc.prems(3) n(1) k by (rule ordered_child)
    have unf: "setval f n =
        (case setval f (child n k) of
           None \<Rightarrow> None
         | Some (Pushed p c ch) \<Rightarrow>
             if int (count n) < nMAX n
             then Some (Settled (fillnode p c (set_child n k ch) k) False)
             else (case split p c (set_child n k ch) k of
                     (y, nn, n2) \<Rightarrow> Some (Pushed y nn n2))
         | Some (Settled ch dup) \<Rightarrow> Some (Settled (set_child n k ch) dup))"
      using sn n(1) False by (subst setval.simps) simp
    from Suc.prems(4) obtain r1 where r1: "setval f (child n k) = Some r1"
      unfolding unf by (cases "setval f (child n k)") simp_all
    note ih = Suc.IH [OF chi pv(1) oc r1]
    have mid: "ins f (inorder n) = before n k @ ins f (inorder (child n k)) @ behind n k"
      using ins_mid [OF lt gt] sp by simp
    have notin: "fkey f \<notin> fkey ` set (inorder n)"
      if "fkey f \<notin> fkey ` set (inorder (child n k))"
    proof
      assume "fkey f \<in> fkey ` set (inorder n)"
      then obtain x where x: "x \<in> set (inorder n)" "fkey x = fkey f" by auto
      from x(1) have "x \<in> set (before n k) \<or> x \<in> set (inorder (child n k)) \<or> x \<in> set (behind n k)"
        by (subst (asm) sp) simp
      with lt gt x(2) that show False by (metis imageI less_irrefl)
    qed
    show ?thesis
    proof (cases r1)
      case (Settled ch dup)
      with Suc.prems(4) r1 have res: "res = Settled (set_child n k ch) dup"
        unfolding unf by simp
      show ?thesis
      proof (cases dup)
        case True
        with ih Settled have "ch = child n k" "fkey f \<in> fkey ` set (inorder (child n k))" by auto
        moreover have "set (inorder (child n k)) \<subseteq> set (inorder n)" by (subst sp) auto
        ultimately show ?thesis using res True k by (auto simp: set_child_child)
      next
        case F: False
        with ih Settled have "inorder ch = ins f (inorder (child n k))"
          "fkey f \<notin> fkey ` set (inorder (child n k))" by auto
        with res F mid notin inorder_set_child [OF n(1) k, of ch] show ?thesis by simp
      qed
    next
      case (Pushed p c ch)
      with ih have c: "inorder ch @ p # inorder c = ins f (inorder (child n k))"
        "fkey f \<notin> fkey ` set (inorder (child n k))" by auto
      let ?n1 = "set_child n k ch"
      have n1: "?n1 \<noteq> Null" "k \<le> count ?n1" using n k by simp_all
      have fill: "before n k @ inorder ch @ p # inorder c @ behind n k = ins f (inorder n)"
        by (simp add: mid c(1) [symmetric])
      show ?thesis
      proof (cases "int (count n) < nMAX n")
        case True
        with Suc.prems(4) r1 Pushed have res: "res = Settled (fillnode p c ?n1 k) False"
          unfolding unf by simp
        have "inorder (fillnode p c ?n1 k) = before n k @ inorder ch @ p # inorder c @ behind n k"
          using inorder_fillnode [OF n1, of p c] n k by (simp add: child_set_child)
        with res fill notin [OF c(2)] show ?thesis by simp
      next
        case F: False
        obtain y r l where spl: "split p c ?n1 k = (y, r, l)" by (cases "split p c ?n1 k") auto
        with Suc.prems(4) r1 Pushed F have res: "res = Pushed y r l"
          unfolding unf by simp
        obtain mx mn c0 es where N1: "?n1 = BTreeNode mx mn c0 es" using n1(1) by (cases ?n1) auto
        have f1: "mx = MAX_of ord" "mn = MIN_of ord" "length es = count n"
          using N1 n set_child_fields [of n k ch] by (auto simp: count_def)
        have full: "nat mx = length es" using F cnt n f1 by simp
        have "inorder l @ y # inorder r = inorder c0 @ flat (take k es) @ p # inorder c @ flat (drop k es)"
        proof (rule split_inorder [OF full _ _ _ spl [unfolded N1]])
          show "0 \<le> mn" "Suc (nat mn) \<le> length es" using pv f1 full by auto
          show "k \<le> length es" using k f1 by simp
        qed
        also have "\<dots> = inorder (fillnode p c ?n1 k)"
          unfolding N1 by (simp add: fillnode_def)
        also have "\<dots> = before n k @ inorder ch @ p # inorder c @ behind n k"
          using inorder_fillnode [OF n1, of p c] n k by (simp add: child_set_child)
        finally show ?thesis using res fill notin [OF c(2)] by simp
      qed
    qed
  qed
qed

text \<open>
  \<^verbatim>\<open>insertHelper\<close> on a sound, ordered tree: a key that is present leaves the tree as it
  is, with the duplicate message; a new key is added at its place in the order.
\<close>

lemma insertHelper_inorder:
  assumes v: "valid_order ord" and ok: "btree_ok ord t" and o: "ordered t"
    and i: "insertHelper t f ord = Some (t', dup)"
  shows "if dup then t' = t \<and> fkey f \<in> fkey ` set (inorder t)
         else inorder t' = ins f (inorder t) \<and> fkey f \<notin> fkey ` set (inorder t)"
proof -
  from ok have inv: "bt_inv ord 1 (height t) t" by (simp add: btree_ok_def)
  from i obtain res where res: "setval f t = Some res"
    by (auto simp: insertHelper_def insert_node_def split: option.splits)
  from setval_inorder [OF v inv _ o res] have c: "setval_content f t res" by simp
  show ?thesis
  proof (cases res)
    case (Settled n' d)
    with i res have "t' = n'" "dup = d" by (auto simp: insertHelper_def insert_node_def)
    with c Settled show ?thesis by simp
  next
    case (Pushed p c' n')
    with i res have "dup = False" "inorder t' = inorder n' @ p # inorder c'"
      by (auto simp: insertHelper_def insert_node_def)
    with c Pushed show ?thesis by simp
  qed
qed

lemma insertHelper_ordered:
  assumes v: "valid_order ord" and ok: "btree_ok ord t" and o: "ordered t"
    and i: "insertHelper t f ord = Some (t', dup)"
  shows "ordered t'"
  using insertHelper_inorder [OF assms] o sorted_ins [of "inorder t" f]
  by (auto simp: ordered_def split: if_splits)

lemma value_set_child [simp]: "value (set_child n i c) j = value n j"
  by (cases n; cases i) (auto simp: value_def set_child_def fst_update_snd)

lemma value_set_value:
  "n \<noteq> Null \<Longrightarrow> 1 \<le> i \<Longrightarrow> i \<le> count n \<Longrightarrow> 1 \<le> j \<Longrightarrow>
   value (set_value n i v) j = (if j = i then v else value n j)"
  by (cases n) (auto simp: value_def set_value_def nth_list_update)

lemma value_set_value_other:
  "j \<noteq> i \<Longrightarrow> 1 \<le> i \<Longrightarrow> 1 \<le> j \<Longrightarrow> value (set_value n i v) j = value n j"
  by (cases n) (auto simp: value_def set_value_def)

lemma child0_set_child: "0 < i \<Longrightarrow> child0 (set_child n i c) = child0 n"
  by (cases n) (auto simp: set_child_def)

lemma child0_set_value [simp]: "child0 (set_value n i v) = child0 n"
  by (cases n) (auto simp: set_value_def)

lemma entries_set_child:
  "n \<noteq> Null \<Longrightarrow> 0 < i \<Longrightarrow>
   entries (set_child n i c) = (entries n)[i - 1 := (fst (entries n ! (i - 1)), c)]"
  by (cases n) (auto simp: set_child_def)

lemma entries_set_child0: "n \<noteq> Null \<Longrightarrow> entries (set_child n 0 c) = entries n"
  by (cases n) (auto simp: set_child_def)

lemma entries_set_value:
  "n \<noteq> Null \<Longrightarrow> entries (set_value n i v) = (entries n)[i - 1 := (v, snd (entries n ! (i - 1)))]"
  by (cases n) (auto simp: set_value_def)

lemma before_set_child_ge: "n \<noteq> Null \<Longrightarrow> p \<le> i \<Longrightarrow> before (set_child n i c) p = before n p"
  by (cases "p = 0") (simp_all add: before_def child0_set_child entries_set_child)

lemma before_set_value_gt: "n \<noteq> Null \<Longrightarrow> p < i \<Longrightarrow> before (set_value n i v) p = before n p"
  by (cases "p = 0") (simp_all add: before_def entries_set_value value_set_value_other)

lemma behind_set_child_le: "n \<noteq> Null \<Longrightarrow> i \<le> p \<Longrightarrow> behind (set_child n i c) p = behind n p"
  by (cases "i = 0") (simp_all add: behind_def entries_set_child entries_set_child0)

lemma behind_set_value_le:
  "n \<noteq> Null \<Longrightarrow> 1 \<le> i \<Longrightarrow> i \<le> p \<Longrightarrow> behind (set_value n i v) p = behind n p"
  by (simp add: behind_def entries_set_value)

lemma before_set_value:
  assumes "n \<noteq> Null" "1 \<le> i" "i \<le> count n"
  shows "before (set_value n i v) i = butlast (before n i) @ [v]"
  using assms by (simp add: before_def entries_set_value value_set_value butlast_append)

lemma inorder_two:
  assumes "n \<noteq> Null" "q < count n"
  shows "inorder n = before n q @ inorder (child n q) @ value n (Suc q) #
                     inorder (child n (Suc q)) @ behind n (Suc q)"
  using inorder_split [OF assms(1), of "Suc q"] before_Suc [OF assms] assms(2) by simp

lemma inorder_clear:
  assumes "n \<noteq> Null" "q < count n"
  shows "inorder (clear n (Suc q)) = before n q @ inorder (child n q) @ behind n (Suc q)"
proof -
  from assms obtain mx mn c0 es where N: "n = BTreeNode mx mn c0 es" by (cases n) auto
  have "inorder (clear n (Suc q)) = (inorder c0 @ flat (take q es)) @ flat (drop (Suc q) es)"
    using N by (simp add: clear_def)
  with front [OF assms(1), of q] assms(2) N show ?thesis by (simp add: behind_def)
qed

lemma rightshift_inorder:
  assumes r: "rightshift n k = Some n'" and n: "n \<noteq> Null" and k: "1 \<le> k" "k \<le> count n"
  shows "inorder n' = inorder n"
proof -
  from k obtain q where q: "k = Suc q" "q < count n" by (cases k) auto
  from r obtain tmx tmn tc0 tes where T: "child n k = BTreeNode tmx tmn tc0 tes"
    by (cases "child n k") (auto simp: rightshift_def)
  from r T obtain lmx lmn lc0 les where L: "child n (k - 1) = BTreeNode lmx lmn lc0 les"
    by (cases "child n (k - 1)") (auto simp: rightshift_def)
  from r T L have les: "les \<noteq> []" by (auto simp: rightshift_def split: if_splits)
  let ?T' = "BTreeNode tmx tmn (snd (last les)) ((value n k, tc0) # tes)"
  let ?L' = "BTreeNode lmx lmn lc0 (butlast les)"
  let ?n1 = "set_value n k (fst (last les))"
  let ?n2 = "set_child ?n1 k ?T'"
  from r rightshift_eq [OF T L les] have n': "n' = set_child ?n2 (k - 1) ?L'" by simp
  have "inorder n' = before n' q @ inorder (child n' q) @ value n' (Suc q) #
                     inorder (child n' (Suc q)) @ behind n' (Suc q)"
    using n q n' by (intro inorder_two) simp_all
  moreover have "before n' q = before n q"
    using n q n' by (simp add: before_set_child_ge before_set_value_gt)
  moreover have "behind n' (Suc q) = behind n (Suc q)"
    using n q n' by (simp add: behind_set_child_le behind_set_value_le)
  moreover have "child n' q = ?L'" "child n' (Suc q) = ?T'"
    using n q n' by (simp_all add: child_set_child)
  moreover have "value n' (Suc q) = fst (last les)"
    using n q n' by (simp add: value_set_value)
  moreover have "flat les = flat (butlast les) @ fst (last les) # inorder (snd (last les))"
    using flat_butlast [OF les] by simp
  ultimately show ?thesis
    using inorder_two [OF n q(2)] T L q by simp
qed

lemma leftshift_inorder:
  assumes r: "leftshift n k = Some n'" and n: "n \<noteq> Null" and k: "1 \<le> k" "k \<le> count n"
  shows "inorder n' = inorder n"
proof -
  from k obtain q where q: "k = Suc q" "q < count n" by (cases k) auto
  from r obtain lmx lmn lc0 les where L: "child n (k - 1) = BTreeNode lmx lmn lc0 les"
    by (cases "child n (k - 1)") (auto simp: leftshift_def)
  from r L obtain rmx rmn rc0 res where R: "child n k = BTreeNode rmx rmn rc0 res"
    by (cases "child n k") (auto simp: leftshift_def)
  from r L R have res: "res \<noteq> []" by (auto simp: leftshift_def split: if_splits)
  let ?L' = "BTreeNode lmx lmn lc0 (les @ [(value n k, rc0)])"
  let ?R' = "BTreeNode rmx rmn (snd (hd res)) (tl res)"
  let ?n1 = "set_value n k (fst (hd res))"
  let ?n2 = "set_child ?n1 (k - 1) ?L'"
  from r leftshift_eq [OF L R res] have n': "n' = set_child ?n2 k ?R'" by simp
  have "inorder n' = before n' q @ inorder (child n' q) @ value n' (Suc q) #
                     inorder (child n' (Suc q)) @ behind n' (Suc q)"
    using n q n' by (intro inorder_two) simp_all
  moreover have "before n' q = before n q"
    using n q n' by (simp add: before_set_child_ge before_set_value_gt)
  moreover have "behind n' (Suc q) = behind n (Suc q)"
    using n q n' by (simp add: behind_set_child_le behind_set_value_le)
  moreover have "child n' q = ?L'" "child n' (Suc q) = ?R'"
    using n q n' by (simp_all add: child_set_child)
  moreover have "value n' (Suc q) = fst (hd res)"
    using n q n' by (simp add: value_set_value)
  moreover have "flat res = fst (hd res) # inorder (snd (hd res)) @ flat (tl res)"
    using res by (cases res) simp_all
  ultimately show ?thesis
    using inorder_two [OF n q(2)] L R q by simp
qed

lemma merge_inorder:
  assumes r: "merge n k = Some n'" and n: "n \<noteq> Null" and k: "1 \<le> k" "k \<le> count n"
  shows "inorder n' = inorder n"
proof -
  from k obtain q where q: "k = Suc q" "q < count n" by (cases k) auto
  from r obtain rmx rmn rc0 res where R: "child n k = BTreeNode rmx rmn rc0 res"
    by (cases "child n k") (auto simp: merge_def)
  from r R obtain lmx lmn lc0 les where L: "child n (k - 1) = BTreeNode lmx lmn lc0 les"
    by (cases "child n (k - 1)") (auto simp: merge_def)
  let ?L' = "BTreeNode lmx lmn lc0 (les @ (value n k, rc0) # res)"
  let ?m = "set_child n (k - 1) ?L'"
  from r R L have n': "n' = clear ?m k" by (auto simp: merge_def Let_def split: if_splits)
  have "inorder n' = before ?m q @ inorder (child ?m q) @ behind ?m (Suc q)"
    unfolding n' q(1) using n q by (intro inorder_clear) simp_all
  moreover have "before ?m q = before n q" using q by simp
  moreover have "behind ?m (Suc q) = behind n (Suc q)"
    using n q by (simp add: behind_set_child_le)
  moreover have "child ?m q = ?L'" using n q by (simp add: child_set_child)
  ultimately show ?thesis
    using inorder_two [OF n q(2)] L R q by simp
qed

lemma restore_inorder:
  assumes "restore n i = Some n'"
  shows "inorder n' = inorder n"
proof -
  from assms have n: "n \<noteq> Null" and i: "i \<le> count n"
    by (auto simp: restore_def split: if_splits)
  consider (l1) "i = 0" "0 < count n" "leftshift n 1 = Some n'"
    | (m1) "i = 0" "0 < count n" "merge n 1 = Some n'"
    | (r) "0 < i" "rightshift n i = Some n'"
    | (m) "0 < i" "merge n i = Some n'"
    | (l) "0 < i" "i < count n" "leftshift n (i + 1) = Some n'"
    using assms n i by (simp add: restore_def split: if_splits)
  then show ?thesis
  proof cases
    case l1
    then show ?thesis using n by (intro leftshift_inorder [of n 1]) simp_all
  next
    case m1
    then show ?thesis using n by (intro merge_inorder [of n 1]) simp_all
  next
    case r
    then show ?thesis using n i by (intro rightshift_inorder [of n i]) simp_all
  next
    case m
    then show ?thesis using n i by (intro merge_inorder [of n i]) simp_all
  next
    case l
    then show ?thesis using n by (intro leftshift_inorder [of n "i + 1"]) simp_all
  qed
qed

lemma restore_if_inorder:
  assumes "restore_if n i flag = Some (fl, n')"
  shows "fl = flag \<and> inorder n' = inorder n"
  using assms by (auto simp: restore_if_def restore_inorder split: if_splits)

lemma filter_remove:
  assumes "sorted_wrt (<) (map fkey (xs @ x # ys))"
  shows "filter (\<lambda>z. fkey z \<noteq> fkey x) (xs @ x # ys) = xs @ ys"
proof -
  from assms have "\<forall>z \<in> set xs. fkey z < fkey x" "\<forall>z \<in> set ys. fkey x < fkey z"
    by (auto simp: sorted_wrt_append)
  then have "filter (\<lambda>z. fkey z \<noteq> fkey x) xs = xs" "filter (\<lambda>z. fkey z \<noteq> fkey x) ys = ys"
    by (auto intro!: filter_all)
  then show ?thesis by simp
qed

lemma leftmost_hd:
  "bt_inv ord lo (Suc h) c \<Longrightarrow> 1 \<le> lo \<Longrightarrow> 1 \<le> MIN_of ord \<Longrightarrow> leftmost c = Some t \<Longrightarrow>
   \<exists>rest. inorder c = value t 1 # rest"
proof (induction h arbitrary: c lo)
  case 0
  then obtain mx mn c0 es where c: "c = BTreeNode mx mn c0 es" by (cases c) (auto simp: bt_inv_Suc)
  with 0 have "c0 = Null" "es \<noteq> []" "t = c" by (auto simp: bt_inv_Node)
  with c show ?case by (cases es) (auto simp: value_def)
next
  case (Suc h)
  then obtain mx mn c0 es where c: "c = BTreeNode mx mn c0 es" by (cases c) (auto simp: bt_inv_Suc)
  with Suc.prems have c0: "bt_inv ord (MIN_of ord) (Suc h) c0" by (simp add: bt_inv_Node)
  then have "c0 \<noteq> Null" by (auto simp: bt_inv_Suc)
  with Suc.prems(4) c have "leftmost c0 = Some t" by simp
  from Suc.IH [OF c0 Suc.prems(3) Suc.prems(3) this] c show ?case by auto
qed

text \<open>
  \<^verbatim>\<open>delhelp\<close> on a sound, ordered tree removes the record with the key, and its flag
  tells whether there was one.
\<close>

lemma delhelp_inorder:
  assumes v: "valid_order ord"
  shows "bt_inv ord lo h n \<Longrightarrow> 1 \<le> lo \<Longrightarrow> ordered n \<Longrightarrow> delhelp k n = Some (flag, n') \<Longrightarrow>
         inorder n' = filter (\<lambda>x. fkey x \<noteq> k) (inorder n) \<and> flag = (k \<in> fkey ` set (inorder n))"
proof (induction h arbitrary: n lo k flag n')
  case 0
  then show ?case by (subst (asm) delhelp.simps) auto
next
  case (Suc h)
  note pv = params_valid [OF v]
  from Suc.prems have n: "n \<noteq> Null" and cnt: "lo \<le> int (count n)"
    by (auto simp: bt_inv_Suc)
  from cnt Suc.prems(2) have "0 < count n" by simp
  from searchNode_Some [OF n this] obtain found i where
    sn: "searchNode k n = Some (found, i)" by blast
  from searchNode_pos [OF sn] have i: "i \<le> count n" by simp
  note sb = search_bounds [OF Suc.prems(3) n sn]
  note sp = inorder_split [OF n i]
  have chi: "bt_inv ord (MIN_of ord) h (child n i)"
    using Suc.prems(1) i by (rule bt_inv_child)
  have oc: "ordered (child n i)" using Suc.prems(3) n i by (rule ordered_child)
  have srt: "sorted_wrt (<) (map fkey (inorder n))" using Suc.prems(3) by (simp add: ordered_def)
  show ?case
  proof (cases found)
    case False
    have unf: "delhelp k n =
        (case delhelp k (child n i) of
           None \<Rightarrow> None
         | Some (fl, ch) \<Rightarrow> restore_if (set_child n i ch) i fl)"
      using sn n False by (subst delhelp.simps) simp
    from Suc.prems(4) obtain fl ch where rec: "delhelp k (child n i) = Some (fl, ch)"
      unfolding unf by (cases "delhelp k (child n i)") auto
    with Suc.prems(4) have ri: "restore_if (set_child n i ch) i fl = Some (flag, n')"
      unfolding unf by simp
    note ih = Suc.IH [OF chi pv(1) oc rec]
    from restore_if_inorder [OF ri] have fl: "flag = fl"
      and n': "inorder n' = before n i @ inorder ch @ behind n i"
      using inorder_set_child [OF n i, of ch] by simp_all
    have lt: "\<forall>x \<in> set (before n i). fkey x < k" using sb(2) False by simp
    have gt: "\<forall>x \<in> set (behind n i). k < fkey x" using sb(1) by simp
    have "filter (\<lambda>x. fkey x \<noteq> k) (before n i) = before n i"
      "filter (\<lambda>x. fkey x \<noteq> k) (behind n i) = behind n i"
      using lt gt by (auto intro!: filter_all)
    then have a: "filter (\<lambda>x. fkey x \<noteq> k) (inorder n) = before n i @ inorder ch @ behind n i"
      using ih by (subst sp) simp
    have "k \<in> fkey ` set (inorder n) \<longleftrightarrow> k \<in> fkey ` set (inorder (child n i))"
      using lt gt by (subst sp) auto
    with a n' fl ih show ?thesis by simp
  next
    case True
    from sn True have i1: "1 \<le> i" by (auto dest: searchNode_found_pos)
    then obtain q where q: "i = Suc q" "q < count n" using i by (cases i) auto
    from sb(3) [OF True] have key: "fkey (value n i) = k" by blast
    note two = inorder_two [OF n q(2)]
    have chp: "bt_inv ord (MIN_of ord) h (child n q)"
      using Suc.prems(1) q by (intro bt_inv_child) auto
    have mem: "k \<in> fkey ` set (inorder n)"
      using key q by (subst two) auto
    show ?thesis
    proof (cases "child n (i - 1) \<noteq> Null")
      case inner: True
      with chp q obtain h' where h: "h = Suc h'" by (cases h) auto
      have unf: "delhelp k n =
        (case copysucc n i of
           None \<Rightarrow> None
         | Some n1 \<Rightarrow>
             (case delhelp (fkey (value n1 i)) (child n i) of
                None \<Rightarrow> None
              | Some (fl, ch) \<Rightarrow> restore_if (set_child n1 i ch) i fl))"
        using sn n True inner by (subst delhelp.simps) simp
      from Suc.prems(4) obtain n1 where cs: "copysucc n i = Some n1"
        unfolding unf by (cases "copysucc n i") auto
      then obtain t where t: "leftmost (child n i) = Some t" "n1 = set_value n i (value t 1)"
        by (auto simp: copysucc_def split: option.splits if_splits)
      from leftmost_hd [OF chi [unfolded h] pv(1) pv(1) t(1)] obtain rest where
        rest: "inorder (child n i) = value t 1 # rest" by blast
      let ?s = "value t 1"
      have v1: "value n1 i = ?s" using t(2) n i i1 by (simp add: value_set_value)
      from Suc.prems(4) cs have e: "(case delhelp (fkey ?s) (child n i) of
           None \<Rightarrow> None
         | Some (fl, ch) \<Rightarrow> restore_if (set_child n1 i ch) i fl) = Some (flag, n')"
        unfolding unf by (simp add: v1)
      then obtain fl ch where rec: "delhelp (fkey ?s) (child n i) = Some (fl, ch)"
        by (cases "delhelp (fkey ?s) (child n i)") auto
      with e have ri: "restore_if (set_child n1 i ch) i fl = Some (flag, n')" by simp
      note ih = Suc.IH [OF chi pv(1) oc rec]
      have "sorted_wrt (<) (map fkey ([] @ ?s # rest))" using oc rest by (simp add: ordered_def)
      from filter_remove [OF this] ih rest have ch: "inorder ch = rest" and flt: "fl" by simp_all
      have n1: "n1 \<noteq> Null" "i \<le> count n1" using t(2) n i by simp_all
      have "before n1 i = butlast (before n i) @ [?s]"
        unfolding t(2) using n i1 i by (rule before_set_value)
      moreover have "behind n1 i = behind n i"
        unfolding t(2) using n i1 by (simp add: behind_set_value_le)
      moreover have "before n i = before n q @ inorder (child n q) @ [value n i]"
        using before_Suc [OF n q(2)] q by simp
      ultimately have "inorder (set_child n1 i ch) =
          (before n q @ inorder (child n q)) @ inorder (child n i) @ behind n i"
        using inorder_set_child [OF n1, of ch] ch rest by (simp add: butlast_append)
      with restore_if_inorder [OF ri] have
        n': "inorder n' = (before n q @ inorder (child n q)) @ inorder (child n i) @ behind n i"
        and fl: "flag = fl" by simp_all
      have "inorder n = (before n q @ inorder (child n q)) @ value n i #
              inorder (child n i) @ behind n i"
        using two q by simp
      with srt filter_remove [of "before n q @ inorder (child n q)" "value n i"
          "inorder (child n i) @ behind n i"] key
      have "filter (\<lambda>x. fkey x \<noteq> k) (inorder n) =
            (before n q @ inorder (child n q)) @ inorder (child n i) @ behind n i" by simp
      with n' fl flt mem show ?thesis by simp
    next
      case leaf: False
      with chp q have h: "h = 0" by simp
      have all_null: "child n j = Null" if "j \<le> count n" for j
        using bt_inv_child [OF Suc.prems(1) that] h by simp
      have "child (clear n i) i = Null" if "i < count n"
        using that n i i1 all_null by (simp add: child_clear)
      then have slot: "(if i < count n then child (clear n i) i else child n i) = Null"
        using all_null [OF i] by simp
      have "delhelp k n = Some (True, clear n i)"
        using sn n True leaf slot by (subst delhelp.simps) (simp add: Let_def)
      with Suc.prems(4) have r: "flag = True" "n' = clear n i" by simp_all
      have a: "inorder n' = before n q @ behind n i"
        using inorder_clear [OF n q(2)] all_null [of q] q r by simp
      have "inorder n = before n q @ value n i # behind n i"
        using two all_null [of q] all_null [of i] q i by simp
      with srt filter_remove [of "before n q" "value n i" "behind n i"] key
      have "filter (\<lambda>x. fkey x \<noteq> k) (inorder n) = before n q @ behind n i" by simp
      with a r mem show ?thesis by simp
    qed
  qed
qed

lemma deleteHelper_inorder:
  assumes v: "valid_order ord" and ok: "btree_ok ord t" and o: "ordered t"
    and d: "deleteHelper t k = Some (t', missing)"
  shows "inorder t' = filter (\<lambda>x. fkey x \<noteq> k) (inorder t) \<and>
         missing = (t \<noteq> Null \<and> k \<notin> fkey ` set (inorder t))"
proof (cases t)
  case Null
  with d show ?thesis by (auto simp: deleteHelper_def del_def)
next
  case (BTreeNode mx mn c0 es)
  let ?h = "height c0"
  from ok BTreeNode have inv: "bt_inv ord 1 (Suc ?h) t" by (simp add: btree_ok_def)
  from delhelp_shape [OF v inv, of k] obtain flag n' where
    dh: "delhelp k t = Some (flag, n')" and n': "bt_inv ord (if flag then 1 - 1 else 1) (Suc ?h) n'"
    by auto
  from delhelp_inorder [OF v inv _ o dh]
  have c: "inorder n' = filter (\<lambda>x. fkey x \<noteq> k) (inorder t)" "flag = (k \<in> fkey ` set (inorder t))"
    by simp_all
  from n' obtain mx' mn' c0' es' where N: "n' = BTreeNode mx' mn' c0' es'"
    by (cases n') (auto simp: bt_inv_Suc)
  show ?thesis
  proof (cases flag)
    case False
    with d dh BTreeNode c show ?thesis by (auto simp: deleteHelper_def del_def)
  next
    case True
    show ?thesis
    proof (cases "count n' = 0")
      case z: True
      with N have "inorder (child0 n') = inorder n'" by simp
      with d dh BTreeNode c True z show ?thesis by (auto simp: deleteHelper_def del_def)
    next
      case nz: False
      with d dh BTreeNode c True show ?thesis by (auto simp: deleteHelper_def del_def)
    qed
  qed
qed

lemma sorted_filter_keys:
  "sorted_wrt (<) (map fkey xs) \<Longrightarrow> sorted_wrt (<) (map fkey (filter P xs))"
  by (induction xs) auto

lemma deleteHelper_ordered:
  assumes v: "valid_order ord" and ok: "btree_ok ord t" and o: "ordered t"
    and d: "deleteHelper t k = Some (t', missing)"
  shows "ordered t'"
  using deleteHelper_inorder [OF assms] o by (simp add: ordered_def sorted_filter_keys)

lemma tree_ok_Null [simp]: "tree_ok ord Null"
  by (simp add: tree_ok_def btree_ok_def)

lemma set_flat: "set (flat es) = fst ` set es \<union> (\<Union>e \<in> set es. set (inorder (snd e)))"
  by (induction es) auto

lemma set_inorder_filter:
  "(\<Union>t \<in> set (filter (\<lambda>c. c \<noteq> Null) cs). set (inorder t)) = (\<Union>t \<in> set cs. set (inorder t))"
  by (induction cs) auto

lemma getAllFiles_queue_set: "set (getAllFiles_queue q) = (\<Union>t \<in> set q. set (inorder t))"
proof (induction q rule: getAllFiles_queue.induct)
  case 1
  then show ?case by simp
next
  case (2 q)
  then show ?case by simp
next
  case (3 mx mn c0 es q)
  have "(\<Union>t \<in> set (filter (\<lambda>c. c \<noteq> Null) (c0 # map snd es)). set (inorder t)) =
        set (inorder c0) \<union> (\<Union>e \<in> set es. set (inorder (snd e)))"
    by (simp only: set_inorder_filter) simp
  with 3 show ?case by (simp add: set_flat Un_ac)
qed

lemma getAllFiles_set: "set (getAllFiles t) = set (inorder t)"
  by (simp add: getAllFiles_def getAllFiles_queue_set)

lemma ordered_inj: "ordered t \<Longrightarrow> inj_on fkey (set (inorder t))"
  unfolding ordered_def
  by (metis distinct_map strict_sorted_iff sorted_wrt_map)

text \<open>The three operations on a sound tree.\<close>

lemma findFile_tree_ok:
  assumes "valid_order ord" "tree_ok ord t"
  shows "findFile t k = Some (find (\<lambda>f. fkey f = k) (inorder t))"
  using findFile_node_find [OF assms(1), of 1 "height t" t k] assms(2)
  by (simp add: tree_ok_def btree_ok_def findFile_def)

lemma searchFile_tree_ok:
  assumes "valid_order ord" "tree_ok ord t"
  shows "searchFile t k = Some (k \<in> fkey ` set (inorder t))"
proof -
  have "(find (\<lambda>f. fkey f = k) (inorder t) \<noteq> None) = (k \<in> fkey ` set (inorder t))"
    by (auto simp: find_None_iff)
  with findFile_tree_ok [OF assms, of k] show ?thesis
    by (simp add: searchFile_def findFile_def)
qed

lemma insertHelper_tree_ok:
  assumes v: "valid_order ord" and ok: "tree_ok ord t"
  shows "\<exists>t' dup. insertHelper t f ord = Some (t', dup) \<and> tree_ok ord t' \<and>
           dup = (fkey f \<in> fkey ` set (inorder t)) \<and>
           (if dup then t' = t else inorder t' = ins f (inorder t))"
proof -
  from ok have b: "btree_ok ord t" and o: "ordered t" by (simp_all add: tree_ok_def)
  from insertHelper_shape [OF v b, of f] obtain t' dup where
    i: "insertHelper t f ord = Some (t', dup)" and b': "btree_ok ord t'" by blast
  from insertHelper_inorder [OF v b o i] insertHelper_ordered [OF v b o i] b' i
  show ?thesis by (auto simp: tree_ok_def split: if_splits)
qed

lemma deleteHelper_tree_ok:
  assumes v: "valid_order ord" and ok: "tree_ok ord t"
  shows "\<exists>t' missing. deleteHelper t k = Some (t', missing) \<and> tree_ok ord t' \<and>
           inorder t' = filter (\<lambda>x. fkey x \<noteq> k) (inorder t)"
proof -
  from ok have b: "btree_ok ord t" and o: "ordered t" by (simp_all add: tree_ok_def)
  from deleteHelper_shape [OF v b, of k] obtain t' missing where
    d: "deleteHelper t k = Some (t', missing)" and b': "btree_ok ord t'" by blast
  from deleteHelper_inorder [OF v b o d] deleteHelper_ordered [OF v b o d] b' d
  show ?thesis by (auto simp: tree_ok_def)
qed

lemma find_ins:
  assumes "fkey f \<notin> fkey ` set xs"
  shows "find (\<lambda>x. fkey x = fkey f) (ins f xs) = Some f"
proof -
  have "find (\<lambda>x. fkey x = fkey f) (filter (\<lambda>x. fkey x < fkey f) xs @ f # filter (\<lambda>x. fkey f < fkey x) xs) =
        find (\<lambda>x. fkey x = fkey f) (f # filter (\<lambda>x. fkey f < fkey x) xs)"
    by (intro find_skip) auto
  then show ?thesis by (simp add: ins_def)
qed

lemma run_ops_tree_ok:
  assumes v: "valid_order ord"
  shows "tree_ok ord t \<Longrightarrow> \<exists>t'. run_ops ord t xs = Some t' \<and> tree_ok ord t'"
proof (induction xs arbitrary: t)
  case Nil
  then show ?case by simp
next
  case (Cons x xs)
  have "\<exists>t1. apply_op ord t x = Some t1 \<and> tree_ok ord t1"
  proof (cases x)
    case (Insert f)
    with insertHelper_tree_ok [OF v Cons.prems, of f] show ?thesis by auto
  next
    case (Delete k)
    with deleteHelper_tree_ok [OF v Cons.prems, of k] show ?thesis by auto
  qed
  then obtain t1 where "apply_op ord t x = Some t1" "tree_ok ord t1" by blast
  with Cons.IH [OF this(2)] show ?case by simp
qed

text \<open>
  Claim C6. On every tree built from the empty tree by \<^verbatim>\<open>insertHelper\<close> and
  \<^verbatim>\<open>deleteHelper\<close> calls, \<^verbatim>\<open>insertHelper\<close> of a record whose key is among the keys of
  the records of the tree prints the duplicate message and returns the tree it was given:
  no record is added, replaced or updated and no node changes.
\<close>

theorem duplicate_insert_rejected:
  assumes "valid_order ord" and "run_ops ord Null xs = Some t"
    and "fkey file \<in> fkey ` set (getAllFiles t)"
  shows "insertHelper t file ord = Some (t, True)"
proof -
  from run_ops_tree_ok [OF assms(1), of Null xs] assms(2) have ok: "tree_ok ord t" by simp
  from insertHelper_tree_ok [OF assms(1) ok, of "file"] assms(3) show ?thesis
    by (auto simp: getAllFiles_set)
qed

theorem duplicate_insert_rejected_witness:
  "insertHelper tree17 (FileNode 7 ''g'') 3 = Some (tree17, True) \<and>
   FileNode 7 ''f'' \<in> set (getAllFiles tree17)"
proof -
  have v: "valid_order 3" by (simp add: valid_order_def)
  have r: "run_ops 3 Null ops17 = Some tree17" by code_simp
  have g: "getAllFiles tree17 = map (\<lambda>k. FileNode k ''f'') [5, 9, 2, 3, 7, 10, 11]" by code_simp
  have "fkey (FileNode 7 ''g'') \<in> fkey ` set (getAllFiles tree17)" unfolding g by simp
  from duplicate_insert_rejected [OF v r this] g show ?thesis by simp
qed

section \<open>The B-trees of the ring\<close>

lemma trees_ok_cong:
  "map BTreeroot (nodes r') = map BTreeroot (nodes r) \<Longrightarrow> btreeOrder r' = btreeOrder r \<Longrightarrow>
   trees_ok r' = trees_ok r"
  by (simp add: trees_ok_def)

lemma trees_ok_nth:
  "trees_ok r \<Longrightarrow> i < length (nodes r) \<Longrightarrow> tree_ok (btreeOrder r) (BTreeroot (nodes r ! i))"
  by (simp add: trees_ok_def)

lemma updateRT_order [simp]: "btreeOrder (updateRT r) = btreeOrder r"
  by (simp add: updateRT_def)

lemma trees_updateRT [simp]: "map BTreeroot (nodes (updateRT r)) = map BTreeroot (nodes r)"
  by (simp add: updateRT_def comp_def)

lemma length_updateRT [simp]: "length (nodes (updateRT r)) = length (nodes r)"
  by (simp add: updateRT_def)

lemma tree_updateRT [simp]:
  "i < length (nodes r) \<Longrightarrow> BTreeroot (nodes (updateRT r) ! i) = BTreeroot (nodes r ! i)"
  by (simp add: updateRT_def)

lemma key_updateRT [simp]:
  "i < length (nodes r) \<Longrightarrow> key (nodes (updateRT r) ! i) = key (nodes r ! i)"
  by (simp add: updateRT_def)

lemma trees_ok_updateRT [simp]: "trees_ok (updateRT r) = trees_ok r"
  by (rule trees_ok_cong) simp_all

lemma renumber_fields [simp]: "key (renumber p c) = key c" "BTreeroot (renumber p c) = BTreeroot c"
  by (simp_all add: renumber_def)

text \<open>
  \<^verbatim>\<open>insert\<close> places the new machine between the machines with smaller IDs and the
  others.
\<close>

lemma dropWhile_sorted_ge:
  "sorted xs \<Longrightarrow> x \<in> set (dropWhile (\<lambda>y. y < v) xs) \<Longrightarrow> v \<le> x" for v :: int
  by (induction xs) (auto split: if_splits)

lemma insert_machine_split:
  assumes "sorted (map key (nodes r))" "v \<notin> key ` set (nodes r)"
  shows "\<exists>A B. nodes r = A @ B \<and>
           nodes (insert_machine r v) =
             map (renumber (length A)) A @ newNode r v # map (renumber (length A)) B \<and>
           (\<forall>c \<in> set A. key c < v) \<and> (\<forall>c \<in> set B. v < key c)"
proof (cases "nodes r")
  case Nil
  then show ?thesis by (simp add: insert_machine_def)
next
  case (Cons h t)
  from assms(1) Cons have ht: "\<forall>c \<in> set t. key h \<le> key c" and st: "sorted (map key t)"
    by simp_all
  from assms(2) Cons have nh: "v \<noteq> key h" and nt: "\<forall>c \<in> set t. key c \<noteq> v" by auto
  show ?thesis
  proof (cases "v < key h")
    case True
    have "v < key c" if "c \<in> set t" for c using ht that True by fastforce
    with True have B: "\<forall>c \<in> set (h # t). v < key c" by simp
    have A: "\<forall>c \<in> set ([] :: CircularNode list). key c < v" by simp
    have n1: "nodes r = [] @ (h # t)" using Cons by simp
    have n2: "nodes (insert_machine r v) =
        map (renumber (length ([] :: CircularNode list))) [] @ newNode r v #
        map (renumber (length ([] :: CircularNode list))) (h # t)"
      using Cons True by (simp add: insert_machine_def)
    show ?thesis
      by (rule exI [of _ "[]"], rule exI [of _ "h # t"]) (intro conjI n1 n2 A B)
  next
    case False
    let ?A = "h # takeWhile (\<lambda>c. key c < v) t"
    let ?B = "dropWhile (\<lambda>c. key c < v) t"
    from False nh have h: "key h < v" by simp
    have B: "\<forall>c \<in> set ?B. v < key c"
    proof
      fix c assume c: "c \<in> set ?B"
      then have "key c \<in> set (map key ?B)" by simp
      then have "key c \<in> set (dropWhile (\<lambda>y. y < v) (map key t))"
        by (simp only: map_dropWhile_key)
      with st have "v \<le> key c" by (rule dropWhile_sorted_ge)
      moreover have "c \<in> set t" using c by (rule set_dropWhileD)
      ultimately show "v < key c" using nt by fastforce
    qed
    have A: "\<forall>c \<in> set ?A. key c < v" using h by (auto dest: set_takeWhileD)
    have n1: "nodes r = ?A @ ?B" using Cons by simp
    have n2: "nodes (insert_machine r v) =
        map (renumber (length ?A)) ?A @ newNode r v # map (renumber (length ?A)) ?B"
      using Cons False by (simp add: insert_machine_def Let_def)
    show ?thesis
      by (rule exI [of _ ?A], rule exI [of _ ?B]) (intro conjI n1 n2 A B)
  qed
qed

lemma trees_insert_machine:
  "set (map BTreeroot (nodes (insert_machine r v))) = insert Null (set (map BTreeroot (nodes r)))"
proof (cases "nodes r")
  case Nil
  then show ?thesis by (simp add: insert_machine_def newNode_def)
next
  case (Cons h t)
  show ?thesis
  proof (cases "v < key h")
    case True
    with Cons show ?thesis by (simp add: insert_machine_def newNode_def comp_def)
  next
    case False
    let ?A = "h # takeWhile (\<lambda>c. key c < v) t"
    let ?B = "dropWhile (\<lambda>c. key c < v) t"
    have "map BTreeroot (nodes (insert_machine r v)) = map BTreeroot ?A @ Null # map BTreeroot ?B"
      using Cons False by (simp add: insert_machine_def newNode_def Let_def comp_def)
    then have e1: "set (map BTreeroot (nodes (insert_machine r v))) =
        insert Null (set (map BTreeroot ?A) \<union> set (map BTreeroot ?B))" by auto
    have e2: "set (map BTreeroot ?A) \<union> set (map BTreeroot ?B) = set (map BTreeroot (?A @ ?B))"
      by (simp only: map_append set_append)
    have e3: "?A @ ?B = nodes r" using Cons by simp
    show ?thesis by (simp only: e1 e2 e3)
  qed
qed

lemma trees_ok_insert_machine: "trees_ok r \<Longrightarrow> trees_ok (insert_machine r v)"
  unfolding trees_ok_def by (simp only: trees_insert_machine insert_machine_fields) simp

text \<open>The transfer of a leave keeps the tree of the destination sound.\<close>

lemma transfer_tree_ok:
  assumes v: "valid_order ord"
  shows "tree_ok ord t \<Longrightarrow> \<exists>t' dups. transfer fs ord t = Some (t', dups) \<and> tree_ok ord t'"
proof (induction fs arbitrary: t)
  case Nil
  then show ?case by simp
next
  case (Cons f fs)
  from insertHelper_tree_ok [OF v Cons.prems, of f] obtain t1 dup where
    i: "insertHelper t f ord = Some (t1, dup)" "tree_ok ord t1" by blast
  from Cons.IH [OF i(2)] obtain t' dups where "transfer fs ord t1 = Some (t', dups)" "tree_ok ord t'"
    by blast
  with i show ?case by simp
qed

text \<open>
  The hand-off of a join: the records of the list arrive in the tree of the new machine
  and leave the tree of the successor; no other machine changes.
\<close>

lemma move_files_content:
  assumes v: "valid_order ord" and ne: "new \<noteq> suc"
  shows "new < length ns \<Longrightarrow> suc < length ns \<Longrightarrow>
         tree_ok ord (BTreeroot (ns ! new)) \<Longrightarrow> tree_ok ord (BTreeroot (ns ! suc)) \<Longrightarrow>
         inj_on fkey (set (inorder (BTreeroot (ns ! new))) \<union> set fs) \<Longrightarrow>
         \<exists>ns'. move_files fs ord new suc ns = Some ns' \<and> length ns' = length ns \<and>
           (\<forall>j. j \<noteq> new \<longrightarrow> j \<noteq> suc \<longrightarrow> ns' ! j = ns ! j) \<and>
           tree_ok ord (BTreeroot (ns' ! new)) \<and> tree_ok ord (BTreeroot (ns' ! suc)) \<and>
           set (inorder (BTreeroot (ns' ! new))) = set (inorder (BTreeroot (ns ! new))) \<union> set fs \<and>
           inorder (BTreeroot (ns' ! suc)) =
             filter (\<lambda>x. fkey x \<notin> fkey ` set fs) (inorder (BTreeroot (ns ! suc)))"
proof (induction fs arbitrary: ns)
  case Nil
  then show ?case by simp
next
  case (Cons f fs)
  let ?tn = "BTreeroot (ns ! new)"
  let ?ts = "BTreeroot (ns ! suc)"
  from insertHelper_tree_ok [OF v Cons.prems(3), of f] obtain t1 dup where
    i: "insertHelper ?tn f ord = Some (t1, dup)" and t1: "tree_ok ord t1"
    and dup: "dup = (fkey f \<in> fkey ` set (inorder ?tn))"
    and c1: "if dup then t1 = ?tn else inorder t1 = ins f (inorder ?tn)" by blast
  have s1: "set (inorder t1) = insert f (set (inorder ?tn))"
  proof (cases dup)
    case True
    with dup obtain g where g: "g \<in> set (inorder ?tn)" "fkey g = fkey f" by auto
    have "g = f" using Cons.prems(5) g(2) by (rule inj_onD) (use g(1) in simp_all)
    with g c1 True show ?thesis by auto
  next
    case False
    with c1 dup show ?thesis by (simp add: set_ins)
  qed
  let ?ns1 = "ns[new := (ns ! new)\<lparr>BTreeroot := t1\<rparr>]"
  have suc1: "?ns1 ! suc = ns ! suc" using ne by simp
  from deleteHelper_tree_ok [OF v Cons.prems(4), of "fkey f"] obtain t2 missing where
    d: "deleteHelper ?ts (fkey f) = Some (t2, missing)" and t2: "tree_ok ord t2"
    and c2: "inorder t2 = filter (\<lambda>x. fkey x \<noteq> fkey f) (inorder ?ts)" by blast
  let ?ns2 = "?ns1[suc := (?ns1 ! suc)\<lparr>BTreeroot := t2\<rparr>]"
  have step: "move_files (f # fs) ord new suc ns = move_files fs ord new suc ?ns2"
    using i d suc1 by (simp add: Let_def)
  have n2: "?ns2 ! new = (ns ! new)\<lparr>BTreeroot := t1\<rparr>" "?ns2 ! suc = (ns ! suc)\<lparr>BTreeroot := t2\<rparr>"
    using ne Cons.prems(1,2) by simp_all
  have "\<exists>ns'. move_files fs ord new suc ?ns2 = Some ns' \<and> length ns' = length ?ns2 \<and>
           (\<forall>j. j \<noteq> new \<longrightarrow> j \<noteq> suc \<longrightarrow> ns' ! j = ?ns2 ! j) \<and>
           tree_ok ord (BTreeroot (ns' ! new)) \<and> tree_ok ord (BTreeroot (ns' ! suc)) \<and>
           set (inorder (BTreeroot (ns' ! new))) = set (inorder (BTreeroot (?ns2 ! new))) \<union> set fs \<and>
           inorder (BTreeroot (ns' ! suc)) =
             filter (\<lambda>x. fkey x \<notin> fkey ` set fs) (inorder (BTreeroot (?ns2 ! suc)))"
  proof (rule Cons.IH)
    show "new < length ?ns2" "suc < length ?ns2" using Cons.prems(1,2) by simp_all
    show "tree_ok ord (BTreeroot (?ns2 ! new))" "tree_ok ord (BTreeroot (?ns2 ! suc))"
      using t1 t2 by (simp_all only: n2) simp_all
    have "set (inorder (BTreeroot (?ns2 ! new))) \<union> set fs = set (inorder ?tn) \<union> set (f # fs)"
      using s1 by (simp only: n2) auto
    with Cons.prems(5) show "inj_on fkey (set (inorder (BTreeroot (?ns2 ! new))) \<union> set fs)"
      by simp
  qed
  then obtain ns' where r: "move_files fs ord new suc ?ns2 = Some ns'" "length ns' = length ?ns2"
    "\<forall>j. j \<noteq> new \<longrightarrow> j \<noteq> suc \<longrightarrow> ns' ! j = ?ns2 ! j"
    "tree_ok ord (BTreeroot (ns' ! new))" "tree_ok ord (BTreeroot (ns' ! suc))"
    "set (inorder (BTreeroot (ns' ! new))) = set (inorder (BTreeroot (?ns2 ! new))) \<union> set fs"
    "inorder (BTreeroot (ns' ! suc)) =
       filter (\<lambda>x. fkey x \<notin> fkey ` set fs) (inorder (BTreeroot (?ns2 ! suc)))" by blast
  have a: "set (inorder (BTreeroot (ns' ! new))) = set (inorder ?tn) \<union> set (f # fs)"
    using r(6) s1 by (simp only: n2) auto
  have b: "inorder (BTreeroot (ns' ! suc)) =
       filter (\<lambda>x. fkey x \<notin> fkey ` set (f # fs)) (inorder ?ts)"
    using r(7) c2 by (simp only: n2) simp
  have c: "\<forall>j. j \<noteq> new \<longrightarrow> j \<noteq> suc \<longrightarrow> ns' ! j = ns ! j" using r(3) by simp
  from step r(1,2,4,5) a b c show ?case by simp
qed

lemma shouldMove_key: "fkey f = fkey g \<Longrightarrow> shouldMove a b f = shouldMove a b g"
  by (simp add: shouldMove_def)

lemma Suc_mod_neq: "2 \<le> n \<Longrightarrow> i < n \<Longrightarrow> Suc i mod n \<noteq> i"
  by (cases "Suc i = n") auto

lemma Traverse_insert_content:
  assumes v: "valid_order ord"
    and len: "2 \<le> length (nodes r1)" and prev: "prev < length (nodes r1)"
    and new: "new = Suc prev mod length (nodes r1)" and suc: "suc = Suc new mod length (nodes r1)"
    and tn: "BTreeroot (nodes r1 ! new) = Null" and ts: "tree_ok ord (BTreeroot (nodes r1 ! suc))"
  shows "\<exists>r'. Traverse_insert r1 prev ord = Some r' \<and> length (nodes r') = length (nodes r1) \<and>
          (\<forall>j. j \<noteq> new \<longrightarrow> j \<noteq> suc \<longrightarrow> nodes r' ! j = nodes r1 ! j) \<and>
          tree_ok ord (BTreeroot (nodes r' ! new)) \<and> tree_ok ord (BTreeroot (nodes r' ! suc)) \<and>
          set (inorder (BTreeroot (nodes r' ! new))) =
            {f \<in> set (inorder (BTreeroot (nodes r1 ! suc))).
               shouldMove (key (nodes r1 ! prev)) (key (nodes r1 ! new)) f} \<and>
          set (inorder (BTreeroot (nodes r' ! suc))) =
            {f \<in> set (inorder (BTreeroot (nodes r1 ! suc))).
               \<not> shouldMove (key (nodes r1 ! prev)) (key (nodes r1 ! new)) f}"
proof -
  let ?ns = "nodes r1"
  let ?P = "shouldMove (key (?ns ! prev)) (key (?ns ! new))"
  let ?ts = "BTreeroot (?ns ! suc)"
  have n0: "0 < length ?ns" using len by linarith
  have nl: "new < length ?ns" unfolding new using n0 by simp
  have sl: "suc < length ?ns" unfolding suc using n0 by simp
  have ne: "new \<noteq> suc" unfolding suc using Suc_mod_neq [OF len nl] by simp
  show ?thesis
  proof (cases "?ts = Null")
    case True
    then have "Traverse_insert r1 prev ord = Some r1"
      using new suc by (simp add: Traverse_insert_def Let_def)
    with True tn show ?thesis by simp
  next
    case False
    let ?fs = "filter ?P (getAllFiles ?ts)"
    have sfs: "set ?fs = {f \<in> set (inorder ?ts). ?P f}" by (auto simp: getAllFiles_set)
    have "inj_on fkey (set (inorder ?ts))" using ts by (simp add: tree_ok_def ordered_inj)
    then have "inj_on fkey (set ?fs)" by (rule inj_on_subset) (auto simp: getAllFiles_set)
    then have inj: "inj_on fkey (set (inorder (BTreeroot (?ns ! new))) \<union> set ?fs)"
      using tn by simp
    have tno: "tree_ok ord (BTreeroot (?ns ! new))" using tn by simp
    from move_files_content [OF v ne nl sl tno ts inj] obtain ns' where
      m: "move_files ?fs ord new suc ?ns = Some ns'" "length ns' = length ?ns"
        "\<forall>j. j \<noteq> new \<longrightarrow> j \<noteq> suc \<longrightarrow> ns' ! j = ?ns ! j"
        "tree_ok ord (BTreeroot (ns' ! new))" "tree_ok ord (BTreeroot (ns' ! suc))"
        "set (inorder (BTreeroot (ns' ! new))) = set (inorder (BTreeroot (?ns ! new))) \<union> set ?fs"
        "inorder (BTreeroot (ns' ! suc)) = filter (\<lambda>x. fkey x \<notin> fkey ` set ?fs) (inorder ?ts)"
      by blast
    have ti: "Traverse_insert r1 prev ord = Some (r1\<lparr>nodes := ns'\<rparr>)"
      using False m(1) new suc by (simp add: Traverse_insert_def Let_def)
    have a: "set (inorder (BTreeroot (ns' ! new))) = {f \<in> set (inorder ?ts). ?P f}"
      using m(6) tn sfs by simp
    have "(fkey x \<notin> fkey ` set ?fs) = (\<not> ?P x)" if "x \<in> set (inorder ?ts)" for x
    proof
      assume "fkey x \<notin> fkey ` set ?fs"
      with that sfs show "\<not> ?P x" by blast
    next
      assume np: "\<not> ?P x"
      show "fkey x \<notin> fkey ` set ?fs"
      proof
        assume "fkey x \<in> fkey ` set ?fs"
        then obtain g where g: "g \<in> set ?fs" "fkey g = fkey x" by auto
        with sfs have "?P g" by simp
        with shouldMove_key [OF g(2)] np show False by simp
      qed
    qed
    then have "filter (\<lambda>x. fkey x \<notin> fkey ` set ?fs) (inorder ?ts) = filter (\<lambda>x. \<not> ?P x) (inorder ?ts)"
      by (intro filter_cong) simp_all
    with m(7) have b: "set (inorder (BTreeroot (ns' ! suc))) = {f \<in> set (inorder ?ts). \<not> ?P f}"
      by simp
    from ti m(2,3,4,5) a b show ?thesis by simp
  qed
qed

lemma shouldMove_interval: "shouldMove a b f = in_interval a b (fkey f)"
  by (simp add: shouldMove_def in_interval_def)

text \<open>The machines of the ring after \<^verbatim>\<open>insert\<close>, by position.\<close>

lemma insert_machine_nth:
  assumes "sorted (map key (nodes r))" "v \<notin> key ` set (nodes r)"
  shows "\<exists>a \<le> length (nodes r).
           length (nodes (insert_machine r v)) = Suc (length (nodes r)) \<and>
           key (nodes (insert_machine r v) ! a) = v \<and>
           BTreeroot (nodes (insert_machine r v) ! a) = Null \<and>
           (\<forall>m < length (nodes r).
              key (nodes (insert_machine r v) ! lift a m) = key (nodes r ! m) \<and>
              BTreeroot (nodes (insert_machine r v) ! lift a m) = BTreeroot (nodes r ! m) \<and>
              (if m < a then key (nodes r ! m) < v else v < key (nodes r ! m)))"
proof -
  from insert_machine_split [OF assms] obtain A B where
    s: "nodes r = A @ B"
    "nodes (insert_machine r v) = map (renumber (length A)) A @ newNode r v # map (renumber (length A)) B"
    "\<forall>c \<in> set A. key c < v" "\<forall>c \<in> set B. v < key c" by blast
  let ?a = "length A"
  let ?ns = "nodes (insert_machine r v)"
  have old: "key (?ns ! lift ?a m) = key (nodes r ! m) \<and>
        BTreeroot (?ns ! lift ?a m) = BTreeroot (nodes r ! m) \<and>
        (if m < ?a then key (nodes r ! m) < v else v < key (nodes r ! m))"
    if m: "m < length (nodes r)" for m
  proof (cases "m < ?a")
    case True
    then have "?ns ! lift ?a m = renumber ?a (A ! m)" "nodes r ! m = A ! m"
      unfolding s by (simp_all add: lift_def nth_append)
    with True s(3) show ?thesis by simp
  next
    case False
    with m s(1) have b: "m - ?a < length B" by simp
    have "lift ?a m = ?a + Suc (m - ?a)" using False by (simp add: lift_def)
    then have "?ns ! lift ?a m = renumber ?a (B ! (m - ?a))"
      unfolding s using b by (simp add: nth_append)
    moreover have "nodes r ! m = B ! (m - ?a)" unfolding s using False by (simp add: nth_append)
    ultimately show ?thesis using False s(4) b by simp
  qed
  have "?ns ! ?a = newNode r v" unfolding s by (simp add: nth_append)
  then have new: "key (?ns ! ?a) = v" "BTreeroot (?ns ! ?a) = Null" by (simp_all add: newNode_def)
  have len: "length ?ns = Suc (length (nodes r))" unfolding s by simp
  have a: "?a \<le> length (nodes r)" unfolding s by simp
  show ?thesis
    by (rule exI [of _ ?a]) (intro conjI a len new allI impI old)
qed

lemma lift_cases:
  assumes "i \<le> n" "k < Suc n" "k \<noteq> i"
  shows "\<exists>m < n. k = lift i m"
proof (cases "k < i")
  case True
  with assms have "k < n \<and> k = lift i k" by (simp add: lift_def)
  then show ?thesis by blast
next
  case False
  with assms have "i < k" by simp
  with assms have "k - 1 < n \<and> k = lift i (k - 1)" by (auto simp: lift_def)
  then show ?thesis by blast
qed

lemma lift_inj: "lift i m = lift i m' \<Longrightarrow> m = m'"
  by (auto simp: lift_def split: if_splits)

lemma lift_neq: "lift i m \<noteq> i"
  by (simp add: lift_def)

lemma pred_position:
  assumes "p < n" "Suc p mod n = a"
  shows "(a + n - 1) mod n = p"
proof (cases "Suc p = n")
  case True
  with assms show ?thesis by auto
next
  case False
  with assms have a: "a = Suc p" by simp
  have "(Suc p + n - 1) mod n = (p + n) mod n" by simp
  also have "\<dots> = p" using assms(1) by simp
  finally show ?thesis using a by simp
qed

lemma insertAfter_content:
  assumes wf: "ring_wf r" and tok: "trees_ok r" and ne: "nodes r \<noteq> []"
    and rng: "0 \<le> v" "v < identifierSpace r" and new: "v \<notin> key ` set (nodes r)"
  shows "\<exists>r' i j. insertAfter r v (btreeOrder r) = Some (Added, r') \<and> handoff r v r' i j \<and>
           trees_ok r'"
proof -
  let ?ord = "btreeOrder r"
  let ?r0 = "insert_machine r v"
  let ?r1 = "updateRT ?r0"
  let ?len = "length (nodes r)"
  let ?n = "Suc ?len"
  from wf have srt: "sorted (map key (nodes r))" by (simp add: ring_wf_def)
  from tok have v: "valid_order ?ord" by (simp add: trees_ok_def)
  from insert_machine_nth [OF srt new] obtain a where a: "a \<le> ?len"
    and len0: "length (nodes ?r0) = ?n"
    and ka: "key (nodes ?r0 ! a) = v" and ta: "BTreeroot (nodes ?r0 ! a) = Null"
    and old: "\<And>m. m < ?len \<Longrightarrow>
        key (nodes ?r0 ! lift a m) = key (nodes r ! m) \<and>
        BTreeroot (nodes ?r0 ! lift a m) = BTreeroot (nodes r ! m) \<and>
        (if m < a then key (nodes r ! m) < v else v < key (nodes r ! m))"
    by blast
  have len1: "length (nodes ?r1) = ?n" using len0 by simp
  have lift_lt: "lift a m < ?n" if "m < ?len" for m using that by (simp add: lift_def)
  have k1: "key (nodes ?r1 ! k) = key (nodes ?r0 ! k)" if "k < ?n" for k
    using that len0 by simp
  have t1: "BTreeroot (nodes ?r1 ! k) = BTreeroot (nodes ?r0 ! k)" if "k < ?n" for k
    using that len0 by simp
  have an: "a < ?n" using a by simp
  have uniq: "k = a" if "k < ?n" "key (nodes ?r1 ! k) = v" for k
  proof (rule ccontr)
    assume "k \<noteq> a"
    from lift_cases [OF a that(1) this] obtain m where m: "m < ?len" "k = lift a m" by blast
    with old [OF m(1)] k1 [OF that(1)] that(2) show False by (auto split: if_splits)
  qed
  from findPredecessor_exists [of a ?r1] an len1 k1 [OF an] ka
  obtain p where "findPredecessor ?r1 v = Some p" by auto
  then have snm: "SearchNewMachine ?r1 v = Some p"
    by (simp add: SearchNewMachine_def findPredecessor_def)
  from findPredecessor_next [OF \<open>findPredecessor ?r1 v = Some p\<close>] len1
  have p: "p < ?n" "key (nodes ?r1 ! (Suc p mod ?n)) = v" by simp_all
  have new_pos: "Suc p mod ?n = a" by (rule uniq) (use p in simp_all)
  define j where "j = (if a < ?len then a else 0)"
  have len_pos: "0 < ?len" using ne by simp
  have j: "j < ?len" using len_pos by (simp add: j_def)
  have suc_pos: "lift a j = Suc a mod ?n"
  proof (cases "a < ?len")
    case True
    then show ?thesis by (simp add: j_def lift_def)
  next
    case False
    with a have "a = ?len" by simp
    with len_pos show ?thesis by (simp add: j_def lift_def)
  qed
  have ts: "BTreeroot (nodes ?r1 ! (Suc a mod ?n)) = BTreeroot (nodes r ! j)"
    using old [OF j] t1 [OF lift_lt [OF j]] suc_pos by simp
  have tsok: "tree_ok ?ord (BTreeroot (nodes ?r1 ! (Suc a mod ?n)))"
    unfolding ts using tok j by (rule trees_ok_nth)
  have "\<exists>r'. Traverse_insert ?r1 p ?ord = Some r' \<and> length (nodes r') = length (nodes ?r1) \<and>
          (\<forall>k. k \<noteq> a \<longrightarrow> k \<noteq> Suc a mod ?n \<longrightarrow> nodes r' ! k = nodes ?r1 ! k) \<and>
          tree_ok ?ord (BTreeroot (nodes r' ! a)) \<and>
          tree_ok ?ord (BTreeroot (nodes r' ! (Suc a mod ?n))) \<and>
          set (inorder (BTreeroot (nodes r' ! a))) =
            {f \<in> set (inorder (BTreeroot (nodes ?r1 ! (Suc a mod ?n)))).
               shouldMove (key (nodes ?r1 ! p)) (key (nodes ?r1 ! a)) f} \<and>
          set (inorder (BTreeroot (nodes r' ! (Suc a mod ?n)))) =
            {f \<in> set (inorder (BTreeroot (nodes ?r1 ! (Suc a mod ?n)))).
               \<not> shouldMove (key (nodes ?r1 ! p)) (key (nodes ?r1 ! a)) f}"
  proof (rule Traverse_insert_content [OF v])
    show "2 \<le> length (nodes ?r1)" using len1 len_pos by linarith
    show "p < length (nodes ?r1)" using p len1 by simp
    show "a = Suc p mod length (nodes ?r1)" using new_pos len1 by simp
    show "Suc a mod ?n = Suc a mod length (nodes ?r1)" using len1 by simp
    show "BTreeroot (nodes ?r1 ! a) = Null" using t1 [OF an] ta by simp
    show "tree_ok ?ord (BTreeroot (nodes ?r1 ! (Suc a mod ?n)))" by (rule tsok)
  qed
  then obtain r' where ti: "Traverse_insert ?r1 p ?ord = Some r'"
    and len': "length (nodes r') = ?n"
    and same: "\<And>k. k \<noteq> a \<Longrightarrow> k \<noteq> Suc a mod ?n \<Longrightarrow> nodes r' ! k = nodes ?r1 ! k"
    and tn': "tree_ok ?ord (BTreeroot (nodes r' ! a))"
    and ts': "tree_ok ?ord (BTreeroot (nodes r' ! (Suc a mod ?n)))"
    and cn: "set (inorder (BTreeroot (nodes r' ! a))) =
            {f \<in> set (inorder (BTreeroot (nodes ?r1 ! (Suc a mod ?n)))).
               shouldMove (key (nodes ?r1 ! p)) (key (nodes ?r1 ! a)) f}"
    and cs: "set (inorder (BTreeroot (nodes r' ! (Suc a mod ?n)))) =
            {f \<in> set (inorder (BTreeroot (nodes ?r1 ! (Suc a mod ?n)))).
               \<not> shouldMove (key (nodes ?r1 ! p)) (key (nodes ?r1 ! a)) f}"
    using len1 by auto
  note fr = Traverse_insert_frame [OF ti]
  have k': "key (nodes r' ! k) = key (nodes ?r1 ! k)" if "k < ?n" for k
  proof -
    have "map key (nodes r') ! k = map key (nodes ?r1) ! k" using fr by simp
    with that len' len1 show ?thesis by simp
  qed
  have ia: "insertAfter r v ?ord = Some (Added, r')"
    using new rng snm ti len1 ne by (simp add: insertAfter_def search_iff Let_def getMachineCount_def)
  have pp: "(a + ?n - 1) mod ?n = p" using p(1) new_pos by (rule pred_position)
  have pk: "key (nodes r' ! ((a + ?n - 1) mod ?n)) = key (nodes ?r1 ! p)"
    unfolding pp using p(1) by (rule k')
  have kv: "key (nodes ?r1 ! a) = v" using k1 [OF an] ka by simp
  have fi: "first_index (\<lambda>c. key c \<ge> v) (nodes r) = (if a < ?len then Some a else None)"
  proof (cases "a < ?len")
    case True
    have "v \<le> key (nodes r ! a)" using old [OF True] by simp
    moreover have "\<forall>m < a. \<not> v \<le> key (nodes r ! m)"
    proof (intro allI impI)
      fix m assume "m < a"
      with True old [of m] show "\<not> v \<le> key (nodes r ! m)" by simp
    qed
    ultimately show ?thesis using True by (simp add: first_index_Some)
  next
    case False
    have "\<not> v \<le> key c" if "c \<in> set (nodes r)" for c
    proof -
      from that obtain m where m: "m < ?len" "c = nodes r ! m" by (auto simp: in_set_conv_nth)
      with False a old [OF m(1)] show ?thesis by simp
    qed
    with False show ?thesis by (simp add: first_index_None)
  qed
  have sj: "succ r v = Some j" using ne fi by (simp add: succ_def j_def)
  have keys: "key (nodes r' ! lift a m) = key (nodes r ! m)" if "m < ?len" for m
    using k' [OF lift_lt [OF that]] k1 [OF lift_lt [OF that]] old [OF that] by simp
  have trees: "BTreeroot (nodes r' ! lift a m) = BTreeroot (nodes r ! m)" if "m < ?len" "m \<noteq> j" for m
  proof -
    have "lift a m \<noteq> a" by (rule lift_neq)
    moreover have "lift a m \<noteq> Suc a mod ?n" using that(2) suc_pos lift_inj by metis
    ultimately have "nodes r' ! lift a m = nodes ?r1 ! lift a m" by (rule same)
    with t1 [OF lift_lt [OF that(1)]] old [OF that(1)] show ?thesis by simp
  qed
  have rn: "set (getAllFiles (BTreeroot (nodes r' ! a))) =
        set (filter (\<lambda>f. in_interval (key (nodes ?r1 ! p)) v (fkey f))
               (getAllFiles (BTreeroot (nodes r ! j))))"
    using cn by (auto simp: getAllFiles_set ts kv shouldMove_interval)
  have rs: "set (getAllFiles (BTreeroot (nodes r' ! lift a j))) =
        set (filter (\<lambda>f. \<not> in_interval (key (nodes ?r1 ! p)) v (fkey f))
               (getAllFiles (BTreeroot (nodes r ! j))))"
    unfolding suc_pos using cs by (auto simp: getAllFiles_set ts kv shouldMove_interval)
  have h: "handoff r v r' a j"
    unfolding handoff_def Let_def len' pk
    using an k' [OF an] kv j sj suc_pos keys trees rn rs by simp
  have "tree_ok ?ord (BTreeroot (nodes r' ! k))" if "k < ?n" for k
  proof (cases "k = a \<or> k = Suc a mod ?n")
    case True
    with tn' ts' show ?thesis by auto
  next
    case False
    then have ka: "k \<noteq> a" and "nodes r' ! k = nodes ?r1 ! k" using same by simp_all
    moreover from lift_cases [OF a that ka] obtain m where "m < ?len" "k = lift a m" by blast
    ultimately show ?thesis using t1 [OF that] old [of m] trees_ok_nth [OF tok, of m] by simp
  qed
  then have "trees_ok r'"
    using v fr len' by (auto simp: trees_ok_def in_set_conv_nth)
  with ia h show ?thesis by blast
qed

lemma tree_ok_update:
  assumes "trees_ok r" "tree_ok (btreeOrder r) t"
  shows "trees_ok (r\<lparr>nodes := (nodes r)[i := (nodes r ! i)\<lparr>BTreeroot := t\<rparr>]\<rparr>)"
proof -
  have "set (map BTreeroot ((nodes r)[i := (nodes r ! i)\<lparr>BTreeroot := t\<rparr>])) \<subseteq>
        insert t (set (map BTreeroot (nodes r)))"
    by (auto simp: map_update dest!: set_update_subset_insert [THEN subsetD])
  with assms show ?thesis by (auto simp: trees_ok_def)
qed

lemma trees_ok_InsertFileToTree:
  assumes tok: "trees_ok r" and i: "InsertFileToTree r s k path (btreeOrder r) = Some (e, r')"
  shows "trees_ok r'"
proof (cases "r' = r")
  case True
  with tok show ?thesis by simp
next
  case False
  from tok have v: "valid_order (btreeOrder r)" by (simp add: trees_ok_def)
  from i False obtain rp resp t dup where
    resp: "findMachineById r (last rp) = Some resp"
    and ins: "insertHelper (BTreeroot (nodes r ! resp)) (FileNode k path) (btreeOrder r) = Some (t, dup)"
    and r': "r' = r\<lparr>nodes := (nodes r)[resp := (nodes r ! resp)\<lparr>BTreeroot := t\<rparr>]\<rparr>"
    by (auto simp: InsertFileToTree_def split: if_splits option.splits bool.splits)
  from resp have "resp < length (nodes r)" by (simp add: findMachineById_def first_index_Some)
  from trees_ok_nth [OF tok this] insertHelper_tree_ok [OF v this [THEN trees_ok_nth [OF tok]], of "FileNode k path"] ins
  have "tree_ok (btreeOrder r) t" by auto
  with tok show ?thesis unfolding r' by (rule tree_ok_update)
qed

lemma trees_ok_DeleteFileFromTree:
  assumes tok: "trees_ok r" and i: "DeleteFileFromTree r s k = Some (e, r')"
  shows "trees_ok r'"
proof (cases "r' = r")
  case True
  with tok show ?thesis by simp
next
  case False
  from tok have v: "valid_order (btreeOrder r)" by (simp add: trees_ok_def)
  from i False obtain rp resp t missing where
    resp: "findMachineById r (last rp) = Some resp"
    and del: "deleteHelper (BTreeroot (nodes r ! resp)) k = Some (t, missing)"
    and r': "r' = r\<lparr>nodes := (nodes r)[resp := (nodes r ! resp)\<lparr>BTreeroot := t\<rparr>]\<rparr>"
    by (auto simp: DeleteFileFromTree_def split: if_splits option.splits)
  from resp have "resp < length (nodes r)" by (simp add: findMachineById_def first_index_Some)
  from deleteHelper_tree_ok [OF v this [THEN trees_ok_nth [OF tok]], of k] del
  have "tree_ok (btreeOrder r) t" by auto
  with tok show ?thesis unfolding r' by (rule tree_ok_update)
qed

lemma insert_loop_order [simp]:
  "btreeOrder (foldl (\<lambda>r' a. if isValidMachineId r' a then insert_machine r' a else r') r arr)
     = btreeOrder r"
  by (induction arr arbitrary: r) simp_all

lemma trees_ok_insert_loop:
  "trees_ok r \<Longrightarrow>
   trees_ok (foldl (\<lambda>r' a. if isValidMachineId r' a then insert_machine r' a else r') r arr)"
  by (induction arr arbitrary: r) (simp_all add: trees_ok_insert_machine)

lemma trees_ok_InsertMachines: "trees_ok r \<Longrightarrow> trees_ok (InsertMachines r arr)"
  by (simp add: InsertMachines_def trees_ok_insert_loop)

lemma trees_ok_remove_nth:
  assumes "\<forall>t \<in> set (map BTreeroot ns). P t"
  shows "\<forall>t \<in> set (map BTreeroot (take i ns @ drop (Suc i) ns)). P t"
  using assms by (auto dest: in_set_takeD in_set_dropD)

lemma trees_ok_deletekey:
  assumes tok: "trees_ok r" and d: "deletekey r v (btreeOrder r) = Some (e, r')"
  shows "trees_ok r'"
proof (cases "r' = r")
  case True
  with tok show ?thesis by simp
next
  case False
  let ?ord = "btreeOrder r"
  let ?ns = "nodes r"
  from tok have v: "valid_order ?ord" by (simp add: trees_ok_def)
  from d False have ne: "?ns \<noteq> []" by (auto simp: deletekey_def)
  from d False ne obtain cur where cur: "first_index (\<lambda>c. key c = v) ?ns = Some cur"
    by (auto simp: deletekey_def split: option.splits)
  then have cl: "cur < length ?ns" by (simp add: first_index_Some)
  let ?suc = "Suc cur mod length ?ns"
  have sl: "?suc < length ?ns" using ne by simp
  define ns1 where "ns1 =
    (if ?suc \<noteq> cur
     then map_option (\<lambda>(d, dups). ?ns[?suc := d]) (Traverse_delete (?ns ! cur) (?ns ! ?suc) ?ord)
     else Some ?ns)"
  have unf: "deletekey r v ?ord =
    (case ns1 of
       None \<Rightarrow> None
     | Some ns1 \<Rightarrow>
         let r2 = r\<lparr>nodes := take cur ns1 @ drop (Suc cur) ns1\<rparr>
         in Some (Removed, if nodes r2 \<noteq> [] then updateRT r2 else r2))"
    using ne cur by (simp add: deletekey_def ns1_def Let_def)
  from d obtain ns' where ns': "ns1 = Some ns'"
    and r': "r' = (let r2 = r\<lparr>nodes := take cur ns' @ drop (Suc cur) ns'\<rparr>
                  in if nodes r2 \<noteq> [] then updateRT r2 else r2)"
    unfolding unf by (cases ns1) (auto simp: Let_def)
  have all: "\<forall>t \<in> set (map BTreeroot ns'). tree_ok ?ord t"
  proof (cases "?suc \<noteq> cur")
    case False
    with ns' have "ns' = ?ns" by (simp add: ns1_def)
    with tok show ?thesis by (simp add: trees_ok_def)
  next
    case True
    from ns' True obtain dn dups where td: "Traverse_delete (?ns ! cur) (?ns ! ?suc) ?ord = Some (dn, dups)"
      and n: "ns' = ?ns[?suc := dn]" by (auto simp: ns1_def)
    have "tree_ok ?ord (BTreeroot dn)"
    proof (cases "BTreeroot (?ns ! cur) = Null")
      case True
      with td have "dn = ?ns ! ?suc" by (simp add: Traverse_delete_def)
      with trees_ok_nth [OF tok sl] show ?thesis by simp
    next
      case False
      from transfer_tree_ok [OF v trees_ok_nth [OF tok sl], of "getAllFiles (BTreeroot (?ns ! cur))"]
      obtain t' dups' where "transfer (getAllFiles (BTreeroot (?ns ! cur))) ?ord (BTreeroot (?ns ! ?suc))
          = Some (t', dups')" "tree_ok ?ord t'" by blast
      with td False show ?thesis by (auto simp: Traverse_delete_def)
    qed
    moreover have "set (map BTreeroot (?ns[?suc := dn])) \<subseteq> insert (BTreeroot dn) (set (map BTreeroot ?ns))"
      by (auto simp: map_update dest!: set_update_subset_insert [THEN subsetD])
    ultimately show ?thesis using tok n by (auto simp: trees_ok_def)
  qed
  let ?r2 = "r\<lparr>nodes := take cur ns' @ drop (Suc cur) ns'\<rparr>"
  from trees_ok_remove_nth [OF all, of cur] v have "trees_ok ?r2" by (simp add: trees_ok_def)
  moreover have "r' = updateRT ?r2 \<or> r' = ?r2" unfolding r' Let_def by simp
  ultimately show ?thesis by auto
qed

lemma trees_ok_insertAfter:
  assumes wf: "ring_wf r" and tok: "trees_ok r" and i: "insertAfter r v (btreeOrder r) = Some (e, r')"
  shows "trees_ok r'"
proof (cases "r' = r")
  case True
  with tok show ?thesis by simp
next
  case False
  with insertAfter_cases [OF i] have e: "e = Added" by simp
  from insertAfter_Added [OF i [unfolded e]] have
    a: "\<not> search r v" "0 \<le> v" "v < identifierSpace r" by simp_all
  show ?thesis
  proof (cases "nodes r = []")
    case True
    have "length (nodes (updateRT (insert_machine r v))) = 1"
      using True by (simp add: insert_machine_def)
    then have "r' = updateRT (insert_machine r v)"
      using i a by (auto simp: insertAfter_def Let_def getMachineCount_def split: option.splits)
    with tok show ?thesis by (simp add: trees_ok_insert_machine)
  next
    case ne: False
    from a(1) have "v \<notin> key ` set (nodes r)" by (simp add: search_iff)
    from insertAfter_content [OF wf tok ne a(2,3) this] i show ?thesis by auto
  qed
qed

lemma reachable_trees_ok: "reachable r \<Longrightarrow> trees_ok r"
proof (induction rule: reachable.induct)
  case (start r)
  then show ?case by (simp add: trees_ok_def)
next
  case (bulk r arr)
  then show ?case by (simp add: trees_ok_InsertMachines)
next
  case (join r v e r')
  from join.hyps(1) have wf: "ring_wf r" using reachable_ring_ok by (auto simp: ring_ok_def)
  show ?case
  proof (cases "isValidMachineId r v")
    case True
    with join.hyps(2) have "insertAfter r v (btreeOrder r) = Some (e, r')"
      by (simp add: InsertMachine_def)
    with wf join.IH show ?thesis by (rule trees_ok_insertAfter)
  next
    case False
    with join.hyps(2) join.IH show ?thesis by (simp add: InsertMachine_def)
  qed
next
  case (leave r v e r')
  then show ?case by (auto simp: DeleteMachine_def intro: trees_ok_deletekey)
next
  case (put r s k path e r')
  then show ?case by (auto intro: trees_ok_InsertFileToTree)
next
  case (remove r s k e r')
  then show ?case by (auto intro: trees_ok_DeleteFileFromTree)
qed

section \<open>Put and get\<close>

lemma first_index_key:
  "first_index (\<lambda>c. key c = x) ns = first_index (\<lambda>y. y = x) (map key ns)"
  by (induction ns) auto

lemma nth_set_tree:
  "j < length ns \<Longrightarrow> BTreeroot (ns[j := (ns ! j)\<lparr>BTreeroot := t\<rparr>] ! j) = t"
  by simp

text \<open>
  Claim C7. On every reachable ring, a put from a live machine \<open>s\<close> of a key in the
  identifier space returns; it reports that the file exists
  when the successor of the key stores the key already, and otherwise it reports
  success, and then a get of the key from any live machine \<open>s'\<close> returns the record with
  that key and path, on the machine that is the successor of the key.
\<close>

theorem put_get_round_trip:
  assumes re: "reachable r" and s: "s \<in> key ` set (nodes r)" and s': "s' \<in> key ` set (nodes r)"
    and k: "0 \<le> k" "k < identifierSpace r"
  shows "\<exists>e r' j. InsertFileToTree r s k path (btreeOrder r) = Some (e, r') \<and>
           j < length (nodes r) \<and> key (nodes r ! j) = successor_id (map key (nodes r)) k \<and>
           (if k \<in> fkey ` set (getAllFiles (BTreeroot (nodes r ! j)))
            then e = FileExists \<and> r' = r
            else e = Stored \<and> map key (nodes r') = map key (nodes r) \<and>
                 SearchFile_WithMachine r' s' k = Some (Some (j, FileNode k path)))"
proof -
  let ?ord = "btreeOrder r"
  let ?f = "FileNode k path"
  from re have ok: "ring_ok r" by (rule reachable_ring_ok)
  from re have tok: "trees_ok r" by (rule reachable_trees_ok)
  from tok have v: "valid_order ?ord" by (simp add: trees_ok_def)
  from s have ne: "nodes r \<noteq> []" by auto
  from routeToKey_sound [OF ok s k] obtain p where
    p: "routeToKey r s k = Some p" "p \<noteq> []" "last p = successor_id (map key (nodes r)) k" by blast
  from ok have rng: "\<forall>i \<in> set (map key (nodes r)). 0 \<le> i \<and> i < identifierSpace r"
    by (simp add: ring_ok_def ring_wf_def)
  have "map key (nodes r) \<noteq> []" using ne by simp
  from successor_id_nearest [OF this rng k] have "last p \<in> key ` set (nodes r)"
    using p(3) by simp
  then have "first_index (\<lambda>c. key c = last p) (nodes r) \<noteq> None"
    by (auto simp: first_index_None)
  then obtain j where j: "findMachineById r (last p) = Some j"
    by (auto simp: findMachineById_def)
  then have jl: "j < length (nodes r)" and kj: "key (nodes r ! j) = last p"
    by (simp_all add: findMachineById_def first_index_Some)
  let ?t = "BTreeroot (nodes r ! j)"
  have tj: "tree_ok ?ord ?t" using tok jl by (rule trees_ok_nth)
  have sf: "searchFile ?t k = Some (k \<in> fkey ` set (inorder ?t))"
    using v tj by (rule searchFile_tree_ok)
  have ss: "search r s" using s by (simp add: search_iff)
  show ?thesis
  proof (cases "k \<in> fkey ` set (inorder ?t)")
    case True
    with ne ss p j sf have "InsertFileToTree r s k path ?ord = Some (FileExists, r)"
      by (simp add: InsertFileToTree_def)
    with True jl kj p(3) show ?thesis
      by (intro exI [of _ FileExists] exI [of _ r] exI [of _ j]) (simp add: getAllFiles_set)
  next
    case False
    from insertHelper_tree_ok [OF v tj, of ?f] False obtain t' where
      ih: "insertHelper ?t ?f ?ord = Some (t', False)" and t': "tree_ok ?ord t'"
      and c: "inorder t' = ins ?f (inorder ?t)" by auto
    let ?r' = "r\<lparr>nodes := (nodes r)[j := (nodes r ! j)\<lparr>BTreeroot := t'\<rparr>]\<rparr>"
    have put: "InsertFileToTree r s k path ?ord = Some (Stored, ?r')"
      using ne ss p j sf False ih by (simp add: InsertFileToTree_def)
    have keys: "map key (nodes ?r') = map key (nodes r)"
      by (simp add: map_update_frame)
    have ok': "ring_ok ?r'" using ok by (simp only: ring_ok_set_tree)
    have s'': "s' \<in> key ` set (nodes ?r')" using s' keys by (metis set_map)
    have k': "k < identifierSpace ?r'" using k by simp
    from routeToKey_sound [OF ok' s'' k(1) k'] obtain p' where
      p': "routeToKey ?r' s' k = Some p'" "p' \<noteq> []"
        "last p' = successor_id (map key (nodes ?r')) k" by blast
    have lp: "last p' = last p" using p'(3) p(3) keys by simp
    have "findMachineById ?r' (last p') = findMachineById r (last p)"
      unfolding findMachineById_def first_index_key lp keys ..
    with j have j': "findMachineById ?r' (last p') = Some j" by simp
    have tr: "BTreeroot (nodes ?r' ! j) = t'" using jl by simp
    have "findFile t' k = Some (find (\<lambda>x. fkey x = k) (inorder t'))"
      using v t' by (rule findFile_tree_ok)
    also have "find (\<lambda>x. fkey x = k) (inorder t') = Some ?f"
      unfolding c using find_ins [of ?f "inorder ?t"] False by simp
    finally have ff: "findFile t' k = Some (Some ?f)" .
    have ne': "nodes ?r' \<noteq> []" using ne by simp
    have get: "SearchFile_WithMachine ?r' s' k = Some (Some (j, ?f))"
      using ne' p'(1,2) j' ff jl by (simp add: SearchFile_WithMachine_def)
    from put keys get False jl kj p(3) show ?thesis
      by (intro exI [of _ Stored] exI [of _ ?r'] exI [of _ j]) (simp add: getAllFiles_set)
  qed
qed

theorem put_get_round_trip_witness:
  "reachable ring_1_4_9_11_14 \<and>
   map_option fst (InsertFileToTree ring_1_4_9_11_14 14 3 ''a'' 3) = Some Stored \<and>
   (\<exists>j. SearchFile_WithMachine (after (InsertFileToTree ring_1_4_9_11_14 14 3 ''a'' 3)) 9 3
          = Some (Some (j, FileNode 3 ''a'')) \<and>
        key (nodes ring_1_4_9_11_14 ! j) = 4) \<and>
   stored (after (InsertFileToTree ring_1_4_9_11_14 14 3 ''a'' 3))
     = [(1, []), (4, [FileNode 3 ''a'']), (9, []), (11, []), (14, [])]"
proof -
  let ?put = "InsertFileToTree ring_1_4_9_11_14 14 3 ''a'' 3"
  have re: "reachable ring_1_4_9_11_14"
    unfolding ring_1_4_9_11_14_def
    by (rule reachable.bulk [OF reachable_ring16]) (simp_all add: ring16_def isValidMachineId_def)
  have ks: "map key (nodes ring_1_4_9_11_14) = [1, 4, 9, 11, 14]" by code_simp
  have sz: "identifierSpace ring_1_4_9_11_14 = 16" "btreeOrder ring_1_4_9_11_14 = 3" by code_simp+
  have s: "14 \<in> key ` set (nodes ring_1_4_9_11_14)" "9 \<in> key ` set (nodes ring_1_4_9_11_14)"
    using ks by (metis list.set_intros set_map)+
  have su: "successor_id (map key (nodes ring_1_4_9_11_14)) 3 = 4" unfolding ks by code_simp
  have st: "map_option fst ?put = Some Stored" by code_simp
  have all: "stored (after ?put) = [(1, []), (4, [FileNode 3 ''a'']), (9, []), (11, []), (14, [])]"
    by code_simp
  from put_get_round_trip [OF re s, of 3 "''a''"] sz su obtain e r' j where
    a: "?put = Some (e, r')" "key (nodes ring_1_4_9_11_14 ! j) = 4"
      "if 3 \<in> fkey ` set (getAllFiles (BTreeroot (nodes ring_1_4_9_11_14 ! j)))
       then e = FileExists \<and> r' = ring_1_4_9_11_14
       else e = Stored \<and> map key (nodes r') = map key (nodes ring_1_4_9_11_14) \<and>
            SearchFile_WithMachine r' 9 3 = Some (Some (j, FileNode 3 ''a''))"
    by auto
  from a(1) st have e: "e = Stored" by simp
  from a(1) have r': "after ?put = r'" by (simp add: after_def)
  from a(3) e have "SearchFile_WithMachine r' 9 3 = Some (Some (j, FileNode 3 ''a''))"
    by (simp split: if_splits)
  with a(2) r' have "\<exists>j. SearchFile_WithMachine (after ?put) 9 3 = Some (Some (j, FileNode 3 ''a'')) \<and>
        key (nodes ring_1_4_9_11_14 ! j) = 4" by auto
  with re st all show ?thesis by simp
qed

section \<open>Key hand-off on join\<close>

text \<open>The reachable rings have ascending IDs and sound, ordered B-trees.\<close>

lemma reachable_invariants: "reachable r \<Longrightarrow> ring_wf r \<and> trees_ok r"
  using reachable_ring_ok [of r] reachable_trees_ok [of r] by (simp add: ring_ok_def)

text \<open>
  Claim C3. On a ring with ascending IDs and sound, ordered B-trees (every reachable
  ring is one; the IDs need not be distinct), with at least one machine, the join of a
  valid ID \<open>v\<close> that no machine has reports success. With \<open>i\<close> the position of the new
  machine, \<open>p\<close> the ID of the machine before it after the splice and \<open>j\<close> the position
  that its successor \<open>s\<close> had before the join (the machine that \<^verbatim>\<open>succ\<close> finds for
  \<open>v\<close>, whose ID is the successor of \<open>v\<close> in the words of the specification): the new
  machine stores exactly the records of \<open>s\<close> with a key in \<open>(p, v]\<close>, \<open>s\<close> keeps exactly
  its other records, and every other machine has the B-tree it had.
\<close>

theorem key_handoff_on_join:
  assumes "ring_wf r" and "trees_ok r" and "nodes r \<noteq> []"
    and "isValidMachineId r v" and "v \<notin> key ` set (nodes r)"
  shows "\<exists>r' i j. InsertMachine r v (btreeOrder r) = Some (Added, r') \<and> handoff r v r' i j \<and>
           key (nodes r ! j) = successor_id (map key (nodes r)) v"
proof -
  from assms(4) have rng: "0 \<le> v" "v < identifierSpace r" by (simp_all add: isValidMachineId_def)
  from insertAfter_content [OF assms(1,2,3) rng assms(5)] obtain r' i j where
    a: "insertAfter r v (btreeOrder r) = Some (Added, r')" "handoff r v r' i j" by blast
  from a(2) have "succ r v = Some j" by (simp add: handoff_def Let_def)
  with assms(1) have "key (nodes r ! j) = successor_id (map key (nodes r)) v"
    using succ_successor_id [of r v j] by (simp add: ring_wf_def)
  with a assms(4) show ?thesis by (auto simp: InsertMachine_def)
qed

theorem key_handoff_on_join_witness:
  "ring_wf ring_files \<and> trees_ok ring_files \<and>
   stored ring_files =
     [(2, [FileNode 0 ''f'', FileNode 11 ''f'']), (5, [FileNode 3 ''f'']),
      (10, [FileNode 7 ''f'', FileNode 6 ''f'', FileNode 8 ''f'', FileNode 9 ''f''])] \<and>
   (\<exists>i j. handoff ring_files 7 (after (InsertMachine ring_files 7 3)) i j) \<and>
   stored (after (InsertMachine ring_files 7 3)) =
     [(2, [FileNode 0 ''f'', FileNode 11 ''f'']), (5, [FileNode 3 ''f'']),
      (7, [FileNode 6 ''f'', FileNode 7 ''f'']), (10, [FileNode 8 ''f'', FileNode 9 ''f''])]"
proof -
  have wf: "ring_wf ring_files" by code_simp
  have tok: "trees_ok ring_files" by code_simp
  have ne: "nodes ring_files \<noteq> []" by code_simp
  have va: "isValidMachineId ring_files 7" by code_simp
  have new: "7 \<notin> key ` set (nodes ring_files)" by code_simp
  have ord: "btreeOrder ring_files = 3" by code_simp
  have s0: "stored ring_files =
     [(2, [FileNode 0 ''f'', FileNode 11 ''f'']), (5, [FileNode 3 ''f'']),
      (10, [FileNode 7 ''f'', FileNode 6 ''f'', FileNode 8 ''f'', FileNode 9 ''f''])]" by code_simp
  have s1: "stored (after (InsertMachine ring_files 7 3)) =
     [(2, [FileNode 0 ''f'', FileNode 11 ''f'']), (5, [FileNode 3 ''f'']),
      (7, [FileNode 6 ''f'', FileNode 7 ''f'']), (10, [FileNode 8 ''f'', FileNode 9 ''f''])]"
    by code_simp
  from key_handoff_on_join [OF wf tok ne va new] ord obtain r' i j where
    "InsertMachine ring_files 7 3 = Some (Added, r')" "handoff ring_files 7 r' i j" by auto
  then have "\<exists>i j. handoff ring_files 7 (after (InsertMachine ring_files 7 3)) i j"
    by (auto simp: after_def)
  with wf tok s0 s1 show ?thesis by simp
qed

text \<open>
  For IDs and keys of the identifier space, \<open>in_interval a b\<close> is the half-open interval
  \<open>(a, b]\<close> modulo \<open>N\<close>: the keys whose clockwise distance from \<open>a\<close> is positive and at
  most that of \<open>b\<close>.
\<close>

lemma in_interval_mod:
  assumes "0 \<le> a" "a < N" "0 \<le> b" "b < N" "0 \<le> k" "k < N" "a \<noteq> b"
  shows "in_interval a b k \<longleftrightarrow> 0 < (k - a) mod N \<and> (k - a) mod N \<le> (b - a) mod N"
proof -
  have m: "(x - a) mod N = (if a \<le> x then x - a else x - a + N)" if "0 \<le> x" "x < N" for x
  proof (cases "a \<le> x")
    case True
    with that assms show ?thesis by simp
  next
    case False
    have "(x - a) mod N = (x - a + N) mod N" by simp
    also have "\<dots> = x - a + N" using False that assms by (intro mod_pos_pos_trivial) auto
    finally show ?thesis using False by simp
  qed
  show ?thesis
    unfolding m [OF assms(5,6)] m [OF assms(3,4)] using assms by (auto simp: in_interval_def)
qed

section \<open>Collisions during the hand-off of a leave\<close>

lemma mset_flat:
  "mset (flat es) = mset (map fst es) + sum_list (map (\<lambda>e. mset (inorder (snd e))) es)"
  by (induction es) simp_all

lemma sum_inorder_filter:
  "sum_list (map (\<lambda>t. mset (inorder t)) (filter (\<lambda>c. c \<noteq> Null) cs)) =
   sum_list (map (\<lambda>t. mset (inorder t)) cs)"
  by (induction cs) auto

lemma getAllFiles_queue_mset:
  "mset (getAllFiles_queue q) = sum_list (map (\<lambda>t. mset (inorder t)) q)"
proof (induction q rule: getAllFiles_queue.induct)
  case 1
  then show ?case by simp
next
  case (2 q)
  then show ?case by simp
next
  case (3 mx mn c0 es q)
  have "sum_list (map (\<lambda>t. mset (inorder t)) (filter (\<lambda>c. c \<noteq> Null) (c0 # map snd es))) =
        mset (inorder c0) + sum_list (map (\<lambda>e. mset (inorder (snd e))) es)"
    by (simp only: sum_inorder_filter) (simp add: comp_def)
  with 3 show ?case by (simp add: mset_flat)
qed

lemma getAllFiles_mset: "mset (getAllFiles t) = mset (inorder t)"
  by (simp add: getAllFiles_def getAllFiles_queue_mset)

lemma getAllFiles_distinct_keys:
  assumes "ordered t"
  shows "distinct (map fkey (getAllFiles t))"
proof -
  have "distinct (map fkey (inorder t))"
    using assms unfolding ordered_def by (metis strict_sorted_iff)
  moreover have "mset (map fkey (getAllFiles t)) = mset (map fkey (inorder t))"
    by (simp add: getAllFiles_mset)
  ultimately show ?thesis by (metis mset_eq_imp_distinct_iff)
qed

text \<open>
  The transfer of records with pairwise distinct keys into a sound tree: the duplicate
  message is printed for exactly the records whose key the tree holds already, and the
  tree that results is the one that the transfer of the other records alone builds.
\<close>

lemma transfer_content:
  assumes v: "valid_order ord"
  shows "tree_ok ord t \<Longrightarrow> distinct (map fkey fs) \<Longrightarrow>
         \<exists>t'. transfer fs ord t = Some (t', map (\<lambda>f. fkey f \<in> fkey ` set (inorder t)) fs) \<and>
              tree_ok ord t' \<and>
              transfer (filter (\<lambda>f. fkey f \<notin> fkey ` set (inorder t)) fs) ord t =
                Some (t', map (\<lambda>f. False) (filter (\<lambda>f. fkey f \<notin> fkey ` set (inorder t)) fs)) \<and>
              set (inorder t') =
                set (inorder t) \<union> set (filter (\<lambda>f. fkey f \<notin> fkey ` set (inorder t)) fs)"
proof (induction fs arbitrary: t)
  case Nil
  then show ?case by simp
next
  case (Cons f fs)
  let ?c = "\<lambda>t g. fkey g \<in> fkey ` set (inorder t)"
  from Cons.prems(2) have dfs: "distinct (map fkey fs)" and nf: "fkey f \<notin> fkey ` set fs" by simp_all
  from insertHelper_tree_ok [OF v Cons.prems(1), of f] obtain t1 dup where
    i: "insertHelper t f ord = Some (t1, dup)" and t1: "tree_ok ord t1"
    and dup: "dup = ?c t f"
    and c1: "if dup then t1 = t else inorder t1 = ins f (inorder t)" by blast
  from Cons.IH [OF t1 dfs] obtain t' where
    ih: "transfer fs ord t1 = Some (t', map (?c t1) fs)" "tree_ok ord t'"
      "transfer (filter (\<lambda>g. \<not> ?c t1 g) fs) ord t1 =
         Some (t', map (\<lambda>f. False) (filter (\<lambda>g. \<not> ?c t1 g) fs))"
      "set (inorder t') = set (inorder t1) \<union> set (filter (\<lambda>g. \<not> ?c t1 g) fs)" by blast
  have same: "?c t1 g = ?c t g" if "g \<in> set fs" for g
  proof (cases dup)
    case True
    with c1 show ?thesis by simp
  next
    case False
    with c1 dup have "set (inorder t1) = insert f (set (inorder t))" by (simp add: set_ins)
    moreover have "fkey g \<noteq> fkey f" using that nf by (metis imageI)
    ultimately show ?thesis by auto
  qed
  then have m: "map (?c t1) fs = map (?c t) fs"
    and fl: "filter (\<lambda>g. \<not> ?c t1 g) fs = filter (\<lambda>g. \<not> ?c t g) fs"
    by (simp_all cong: map_cong filter_cong)
  show ?case
  proof (cases dup)
    case True
    with c1 have tt: "t1 = t" by simp
    have a: "transfer (f # fs) ord t = Some (t', map (?c t) (f # fs))"
      using i ih(1) True dup m by simp
    have b: "filter (\<lambda>g. \<not> ?c t g) (f # fs) = filter (\<lambda>g. \<not> ?c t g) fs"
      using True dup by simp
    from a ih(2,3,4) show ?thesis unfolding b fl tt by blast
  next
    case False
    with c1 dup have s1: "set (inorder t1) = insert f (set (inorder t))" by (simp add: set_ins)
    have a: "transfer (f # fs) ord t = Some (t', map (?c t) (f # fs))"
      using i ih(1) False dup m by simp
    have b: "filter (\<lambda>g. \<not> ?c t g) (f # fs) = f # filter (\<lambda>g. \<not> ?c t g) fs"
      using False dup by simp
    have c: "transfer (f # filter (\<lambda>g. \<not> ?c t g) fs) ord t =
        Some (t', map (\<lambda>f. False) (f # filter (\<lambda>g. \<not> ?c t g) fs))"
      using i ih(3) False unfolding fl by simp
    have d: "set (inorder t') = set (inorder t) \<union> set (f # filter (\<lambda>g. \<not> ?c t g) fs)"
      using ih(4) s1 unfolding fl by auto
    from a ih(2) c d show ?thesis unfolding b by blast
  qed
qed

lemma Traverse_delete_content:
  assumes v: "valid_order ord" and s: "tree_ok ord (BTreeroot source)"
    and t: "tree_ok ord (BTreeroot destination)"
  shows "\<exists>d. Traverse_delete source destination ord =
               Some (d, map (collides (BTreeroot destination)) (getAllFiles (BTreeroot source))) \<and>
             key d = key destination \<and> tree_ok ord (BTreeroot d) \<and>
             transfer (filter (\<lambda>f. \<not> collides (BTreeroot destination) f) (getAllFiles (BTreeroot source)))
                 ord (BTreeroot destination) =
               Some (BTreeroot d,
                     map (\<lambda>f. False)
                       (filter (\<lambda>f. \<not> collides (BTreeroot destination) f) (getAllFiles (BTreeroot source)))) \<and>
             set (getAllFiles (BTreeroot d)) =
               set (getAllFiles (BTreeroot destination)) \<union>
               set (filter (\<lambda>f. \<not> collides (BTreeroot destination) f) (getAllFiles (BTreeroot source)))"
proof (cases "BTreeroot source = Null")
  case True
  then have "Traverse_delete source destination ord = Some (destination, [])"
    by (simp add: Traverse_delete_def)
  moreover have "getAllFiles (BTreeroot source) = []" using True by (simp add: getAllFiles_def)
  ultimately show ?thesis using t by simp
next
  case False
  let ?src = "getAllFiles (BTreeroot source)"
  let ?dst = "BTreeroot destination"
  have "distinct (map fkey ?src)" using s by (simp add: tree_ok_def getAllFiles_distinct_keys)
  from transfer_content [OF v t this] obtain t' where
    tr: "transfer ?src ord ?dst = Some (t', map (\<lambda>f. fkey f \<in> fkey ` set (inorder ?dst)) ?src)"
      "tree_ok ord t'"
      "transfer (filter (\<lambda>f. fkey f \<notin> fkey ` set (inorder ?dst)) ?src) ord ?dst =
         Some (t', map (\<lambda>f. False) (filter (\<lambda>f. fkey f \<notin> fkey ` set (inorder ?dst)) ?src))"
      "set (inorder t') =
         set (inorder ?dst) \<union> set (filter (\<lambda>f. fkey f \<notin> fkey ` set (inorder ?dst)) ?src)"
    by blast
  let ?d = "destination\<lparr>BTreeroot := t'\<rparr>"
  have "Traverse_delete source destination ord =
      Some (?d, map (\<lambda>f. fkey f \<in> fkey ` set (inorder ?dst)) ?src)"
    using False tr(1) by (simp add: Traverse_delete_def)
  with tr(2,3,4) show ?thesis
    by (intro exI [of _ ?d]) (simp add: collides_def getAllFiles_set)
qed

lemma deletekey_handoff:
  assumes tok: "trees_ok r" and live: "v \<in> key ` set (nodes r)"
  shows "\<exists>r' cur. deletekey r v (btreeOrder r) = Some (Removed, r') \<and> trees_ok r' \<and>
           first_index (\<lambda>c. key c = v) (nodes r) = Some cur \<and> leave_handoff r cur r'"
proof -
  let ?ord = "btreeOrder r"
  let ?ns = "nodes r"
  from tok have v: "valid_order ?ord" by (simp add: trees_ok_def)
  from live have ne: "?ns \<noteq> []" by auto
  from live have "first_index (\<lambda>c. key c = v) ?ns \<noteq> None" by (auto simp: first_index_None)
  then obtain cur where cur: "first_index (\<lambda>c. key c = v) ?ns = Some cur" by auto
  then have cl: "cur < length ?ns" by (simp add: first_index_Some)
  let ?suc = "Suc cur mod length ?ns"
  have sl: "?suc < length ?ns" using ne by simp
  show ?thesis
  proof (cases "?suc = cur")
    case True
    let ?r2 = "r\<lparr>nodes := take cur ?ns @ drop (Suc cur) ?ns\<rparr>"
    let ?r' = "if nodes ?r2 \<noteq> [] then updateRT ?r2 else ?r2"
    have d: "deletekey r v ?ord = Some (Removed, ?r')"
      using ne cur True by (simp add: deletekey_def Let_def)
    have h: "leave_handoff r cur ?r'" using True by (simp add: leave_handoff_def Let_def)
    show ?thesis
      by (intro exI [of _ ?r'] exI [of _ cur] conjI d trees_ok_deletekey [OF tok d] cur h)
  next
    case False
    let ?src = "getAllFiles (BTreeroot (?ns ! cur))"
    let ?dst = "BTreeroot (?ns ! ?suc)"
    let ?kept = "filter (\<lambda>f. \<not> collides ?dst f) ?src"
    from Traverse_delete_content [OF v trees_ok_nth [OF tok cl] trees_ok_nth [OF tok sl]]
    obtain d where td: "Traverse_delete (?ns ! cur) (?ns ! ?suc) ?ord = Some (d, map (collides ?dst) ?src)"
      and kd: "key d = key (?ns ! ?suc)"
      and tr: "transfer ?kept ?ord ?dst = Some (BTreeroot d, map (\<lambda>f. False) ?kept)"
      and st: "set (getAllFiles (BTreeroot d)) = set (getAllFiles ?dst) \<union> set ?kept"
      by blast
    let ?ns1 = "?ns[?suc := d]"
    let ?r2 = "r\<lparr>nodes := take cur ?ns1 @ drop (Suc cur) ?ns1\<rparr>"
    let ?j = "if Suc cur < length ?ns then cur else 0"
    have len2: "2 \<le> length ?ns"
    proof (rule ccontr)
      assume "\<not> 2 \<le> length ?ns"
      with cl have "length ?ns = 1" "cur = 0" by simp_all
      with False show False by simp
    qed
    have l2: "length (nodes ?r2) = length ?ns - 1" using cl by simp
    have ne2: "nodes ?r2 \<noteq> []"
    proof
      assume "nodes ?r2 = []"
      then have "length (nodes ?r2) = 0" by (simp only: list.size)
      with l2 len2 show False by linarith
    qed
    have d': "deletekey r v ?ord = Some (Removed, updateRT ?r2)"
      using ne cur False td ne2 by (simp add: deletekey_def Let_def)
    have jl: "?j < length (nodes ?r2)" using l2 len2 cl by auto
    have nj: "nodes ?r2 ! ?j = d"
    proof (cases "Suc cur < length ?ns")
      case True
      then have "?suc = Suc cur" by simp
      with True show ?thesis by (simp add: nth_append)
    next
      case F: False
      with cl have e: "Suc cur = length ?ns" by simp
      then have "?suc = 0" by simp
      moreover have "0 < cur" using e len2 by simp
      ultimately show ?thesis using F cl ne by (simp add: nth_append)
    qed
    have "key (nodes (updateRT ?r2) ! ?j) = key d" "BTreeroot (nodes (updateRT ?r2) ! ?j) = BTreeroot d"
      using jl nj by (simp_all only: key_updateRT tree_updateRT)
    with td tr st kd have h: "leave_handoff r cur (updateRT ?r2)"
      by (simp add: leave_handoff_def Let_def)
    show ?thesis
      by (intro exI [of _ "updateRT ?r2"] exI [of _ cur] conjI d' trees_ok_deletekey [OF tok d'] cur h)
  qed
qed

text \<open>
  C9, as stated, fails: no path of \<^verbatim>\<open>Traverse_delete\<close> or \<^verbatim>\<open>deletekey\<close> aborts. In the
  ring below machine 2 leaves while its successor 8 already stores the key 5. The leave
  reports success, the record \<open>(5, a)\<close> of machine 2 is in no B-tree afterwards, and
  the record \<open>(6, c)\<close>, which follows it in the transfer, has arrived at machine 8.
\<close>

theorem handoff_collision_counterexample:
  "stored ring_collision = [(2, [FileNode 5 ''a'', FileNode 6 ''c'']), (8, [FileNode 5 ''b''])]
   \<and> map_option fst (deletekey ring_collision 2 3) = Some Removed
   \<and> stored (after (deletekey ring_collision 2 3)) = [(8, [FileNode 5 ''b'', FileNode 6 ''c''])]"
  by code_simp

text \<open>
  C9, amended. On a ring with sound, ordered B-trees the leave of a live machine always
  returns with the outcome \<^verbatim>\<open>Removed\<close>; nothing aborts. \<^verbatim>\<open>insertHelper\<close> answers a record
  whose key a tree holds with the duplicate message and the unchanged tree. In the
  transfer to the successor the duplicate message is printed for exactly the records of
  the leaving machine whose key the successor holds; the transfer goes on after each of
  them, and the successor's tree after the leave is the one that the transfer of the
  other records alone builds: it holds its own records and those other records.
\<close>

theorem handoff_collision_continues:
  assumes "trees_ok r" and "v \<in> key ` set (nodes r)"
  shows "(\<exists>r' cur. deletekey r v (btreeOrder r) = Some (Removed, r') \<and>
            first_index (\<lambda>c. key c = v) (nodes r) = Some cur \<and> leave_handoff r cur r') \<and>
         (\<forall>c \<in> set (nodes r). \<forall>f. collides (BTreeroot c) f \<longrightarrow>
            insertHelper (BTreeroot c) f (btreeOrder r) = Some (BTreeroot c, True))"
proof
  from deletekey_handoff [OF assms] show "\<exists>r' cur. deletekey r v (btreeOrder r) = Some (Removed, r') \<and>
            first_index (\<lambda>c. key c = v) (nodes r) = Some cur \<and> leave_handoff r cur r'" by blast
next
  from assms(1) have v: "valid_order (btreeOrder r)" by (simp add: trees_ok_def)
  show "\<forall>c \<in> set (nodes r). \<forall>f. collides (BTreeroot c) f \<longrightarrow>
            insertHelper (BTreeroot c) f (btreeOrder r) = Some (BTreeroot c, True)"
  proof (intro ballI allI impI)
    fix c f assume c: "c \<in> set (nodes r)" and f: "collides (BTreeroot c) f"
    from assms(1) c have "tree_ok (btreeOrder r) (BTreeroot c)" by (simp add: trees_ok_def)
    from insertHelper_tree_ok [OF v this, of f] f
    show "insertHelper (BTreeroot c) f (btreeOrder r) = Some (BTreeroot c, True)"
      by (auto simp: collides_def getAllFiles_set)
  qed
qed

theorem handoff_collision_continues_witness:
  "trees_ok ring_collision \<and>
   (\<exists>cur. leave_handoff ring_collision cur (after (deletekey ring_collision 2 3))) \<and>
   map_option snd (Traverse_delete (nodes ring_collision ! 0) (nodes ring_collision ! 1) 3)
     = Some [True, False] \<and>
   insertHelper (BTreeroot (nodes ring_collision ! 1)) (FileNode 5 ''a'') 3
     = Some (BTreeroot (nodes ring_collision ! 1), True)"
proof -
  have tok: "trees_ok ring_collision" by code_simp
  have live: "2 \<in> key ` set (nodes ring_collision)" by code_simp
  have ord: "btreeOrder ring_collision = 3" by code_simp
  have c: "nodes ring_collision ! 1 \<in> set (nodes ring_collision)" by code_simp
  have col: "collides (BTreeroot (nodes ring_collision ! 1)) (FileNode 5 ''a'')" by code_simp
  have dups: "map_option snd (Traverse_delete (nodes ring_collision ! 0) (nodes ring_collision ! 1) 3)
     = Some [True, False]" by code_simp
  note th = handoff_collision_continues [OF tok live]
  from th ord obtain r' cur where
    "deletekey ring_collision 2 3 = Some (Removed, r')" "leave_handoff ring_collision cur r'"
    by auto
  then have a: "\<exists>cur. leave_handoff ring_collision cur (after (deletekey ring_collision 2 3))"
    by (auto simp: after_def)
  from th c col ord have b: "insertHelper (BTreeroot (nodes ring_collision ! 1)) (FileNode 5 ''a'') 3
     = Some (BTreeroot (nodes ring_collision ! 1), True)" by auto
  from tok a dups b show ?thesis by simp
qed

end
